(* ===== verification/Kernel_Prelude.thy ===== *)
theory Kernel_Prelude
  imports Main "HOL-Library.Word"
begin

text \<open>
  Shared vocabulary of the development: the machine integers of the 32-bit ARM target,
  the error numbers of \<^verbatim>\<open>include/asm-generic/errno-base.h\<close> and \<^verbatim>\<open>errno.h\<close>, the result
  type of fallible kernel functions, and generic lemmas on lists and words that the
  component theories use through the collections declared here.
\<close>

unbundle bit_operations_syntax

named_theorems kern_simps \<open>unfolding rules shared by the component proofs\<close>

section \<open>Machine integers\<close>

type_synonym u8 = "8 word"
type_synonym u16 = "16 word"
type_synonym u32 = "32 word"
type_synonym u64 = "64 word"

section \<open>Error numbers\<close>

text \<open>A kernel function that returns \<^verbatim>\<open>-Exxx\<close> on failure is a function into a sum type;
  the left injection carries the error number.\<close>

datatype errno =
    EPERM | ENOENT | ESRCH | EINTR | EIO | ENXIO | E2BIG | ENOEXEC | EBADF | ECHILD
  | EAGAIN | ENOMEM | EACCES | EFAULT | ENOTBLK | EBUSY | EEXIST | EXDEV | ENODEV | ENOTDIR
  | EISDIR | EINVAL | ENFILE | EMFILE | ENOTTY | ETXTBSY | EFBIG | ENOSPC | ESPIPE | EROFS
  | EMLINK | EPIPE | EDOM | ERANGE | EDEADLK | ENOSYS | ENODATA | ETIME | EOPNOTSUPP

type_synonym 'a kres = "errno + 'a"

section \<open>Lists\<close>

lemma take_drop_split:
  "take n (drop k (xs @ ys)) =
     take n (drop k xs) @ take (n - (length xs - k)) (drop (k - length xs) ys)"
  by simp

lemma drop_take_append:
  assumes "k + n \<le> length xs"
  shows "take n (drop k (xs @ ys)) = take n (drop k xs)"
  using assms by simp

lemma list_update_nth_eq:
  "i < length xs \<Longrightarrow> xs[i := v] ! j = (if j = i then v else xs ! j)"
  by simp

section \<open>Words\<close>

lemma unat_add_no_wrap:
  fixes a b :: "'a::len word"
  assumes "unat a + unat b < 2 ^ LENGTH('a)"
  shows "unat (a + b) = unat a + unat b"
  using assms by (simp add: unat_word_ariths)

lemma unat_sub_no_wrap:
  fixes a b :: "'a::len word"
  assumes "b \<le> a"
  shows "unat (a - b) = unat a - unat b"
  using assms by (simp add: unat_sub word_le_nat_alt)

lemma sint_small:
  fixes a :: u32
  assumes "unat a < 2 ^ 31"
  shows "sint a = int (unat a)"
proof -
  have "int (unat a) < int (2 ^ 31)"
    using assms by (simp only: of_nat_less_iff)
  then have "uint a < 2 ^ 31" by simp
  then have "signed_take_bit 31 (uint a) = uint a"
    by (intro signed_take_bit_int_eq_self) (rule order_trans [OF _ uint_ge_0], simp_all)
  moreover have "sint a = signed_take_bit 31 (uint a)"
    by (subst sint_uint) (simp only: len_num1 len_bit0 len_bit1 arith_simps, simp)
  ultimately show ?thesis by simp
qed

lemma and_not_mask_int: "(a::int) AND NOT (mask n) = a - a mod 2 ^ n"
proof -
  have "a AND NOT (mask n) = push_bit n (drop_bit n a)"
    by (rule bit_eqI) (auto simp: bit_simps)
  then show ?thesis
    by (simp add: push_bit_eq_mult drop_bit_eq_div minus_mod_eq_div_mult)
qed

lemma unat_word_of_nat_small:
  assumes "n < 2 ^ LENGTH('a)"
  shows "unat (word_of_nat n :: 'a::len word) = n"
  using assms by (simp add: unat_of_nat take_bit_nat_eq_self)

lemma unat_ucast_small:
  fixes w :: "'a::len word"
  assumes "unat w < 2 ^ LENGTH('b::len)"
  shows "unat (ucast w :: 'b word) = unat w"
  using assms by (simp add: unsigned_ucast_eq take_bit_nat_eq_self)

lemma unat_ucast_u32_u64 [simp]: "unat (ucast (w :: u32) :: u64) = unat w"
proof -
  have "unat w < 2 ^ LENGTH(32)" by (rule unsigned_less)
  then show ?thesis by (intro unat_ucast_small) simp
qed

end
