(* ===== verification/Skbuff.thy ===== *)
theory Skbuff
  imports Kernel_Prelude
begin

text \<open>
  The socket buffer as the packet filter sees it: the linear area, the page fragments and
  the chained buffers of \<^verbatim>\<open>struct sk_buff\<close> (\<^verbatim>\<open>include/linux/skbuff.h\<close>), the byte access
  functions \<^verbatim>\<open>skb_headlen\<close>, \<^verbatim>\<open>skb_header_pointer\<close> and \<^verbatim>\<open>skb_copy_bits\<close>
  (\<^verbatim>\<open>net/core/skbuff.c\<close>), with the theorem that they read the payload they are asked for.

  Pointers are 32-bit addresses (the target is a 32-bit ARM, so
  \<^verbatim>\<open>NET_SKBUFF_DATA_USES_OFFSET\<close> is off and the header fields are pointers).  A read through
  a pointer outside the linear area \<open>[head, tail)\<close> is the explicit outcome
  \<open>OutOfBounds\<close>, so that memory safety is a statement about the model.
\<close>

section \<open>State\<close>

datatype fault = OutOfBounds | UninitMem | BadPc

record net_device =
  ifindex :: u32
  dev_type :: u16

record skb_meta =
  protocol :: u16          \<comment> \<open>already converted by \<^verbatim>\<open>ntohs\<close>\<close>
  pkt_type :: u8
  dev :: "net_device option"
  mark :: u32
  queue_mapping :: u16
  rxhash :: u32

datatype sk_buff = Sk_buff
  (sk_meta: skb_meta)
  (sk_head: u32)             \<comment> \<open>address of the linear area\<close>
  (sk_lin: "u8 list")        \<comment> \<open>its bytes, from \<^verbatim>\<open>head\<close> up to \<^verbatim>\<open>tail\<close>\<close>
  (sk_data: u32)
  (network_header: u32)
  (mac_header: u32)
  (sk_len: u32)
  (sk_data_len: u32)
  (frags: "u8 list list")    \<comment> \<open>contents of the page fragments of \<^verbatim>\<open>skb_shinfo\<close>\<close>
  (frag_list: "sk_buff list")

definition skb_headlen :: "sk_buff \<Rightarrow> u32" where
  "skb_headlen skb = sk_len skb - sk_data_len skb"

definition skb_is_nonlinear :: "sk_buff \<Rightarrow> bool" where
  "skb_is_nonlinear skb \<longleftrightarrow> sk_data_len skb \<noteq> 0"

definition skb_tail_pointer :: "sk_buff \<Rightarrow> u32" where
  "skb_tail_pointer skb = sk_head skb + word_of_nat (length (sk_lin skb))"

section \<open>Reading\<close>

text \<open>Dereferencing \<open>n\<close> bytes at an address of the linear area.\<close>

definition mem_read :: "sk_buff \<Rightarrow> u32 \<Rightarrow> nat \<Rightarrow> fault + u8 list" where
  "mem_read skb p n =
     (if sk_head skb \<le> p \<and> unat p - unat (sk_head skb) + n \<le> length (sk_lin skb)
      then Inr (take n (drop (unat p - unat (sk_head skb)) (sk_lin skb)))
      else Inl OutOfBounds)"

text \<open>\<^verbatim>\<open>memcpy\<close> out of a mapped page fragment.\<close>

definition frag_read :: "u8 list \<Rightarrow> int \<Rightarrow> int \<Rightarrow> fault + u8 list" where
  "frag_read f off n =
     (if 0 \<le> off \<and> off + n \<le> int (length f)
      then Inr (take (nat n) (drop (nat off) f)) else Inl OutOfBounds)"

text \<open>The fragment loop of \<^verbatim>\<open>skb_copy_bits\<close>: either the copy is complete, or the loop ends with
  the running \<open>start\<close>, \<open>offset\<close>, \<open>len\<close> and the bytes copied so far.\<close>

datatype copy_state = Copied "u8 list" | More int int int "u8 list"

fun copy_frags :: "u8 list list \<Rightarrow> int \<Rightarrow> int \<Rightarrow> int \<Rightarrow> u8 list \<Rightarrow> fault + copy_state" where
  "copy_frags [] start offset len to = Inr (More start offset len to)"
| "copy_frags (f # fs) start offset len to =
     (let end = start + int (length f); copy = end - offset in
      if copy > 0 then
        let copy = (if copy > len then len else copy) in
        case frag_read f (offset - start) copy of
          Inl e \<Rightarrow> Inl e
        | Inr bs \<Rightarrow>
            if len - copy = 0 then Inr (Copied (to @ bs))
            else copy_frags fs end (offset + copy) (len - copy) (to @ bs)
      else copy_frags fs end offset len to)"

text \<open>The header part of \<^verbatim>\<open>skb_copy_bits\<close>.\<close>

definition copy_header :: "sk_buff \<Rightarrow> int \<Rightarrow> int \<Rightarrow> fault + copy_state" where
  "copy_header skb offset len =
     (let start = sint (skb_headlen skb); copy = start - offset in
      if copy > 0 then
        let copy = (if copy > len then len else copy) in
        case mem_read skb (sk_data skb + word_of_int offset) (nat copy) of
          Inl e \<Rightarrow> Inl e
        | Inr bs \<Rightarrow>
            if len - copy = 0 then Inr (Copied bs)
            else Inr (More start (offset + copy) (len - copy) bs)
      else Inr (More start offset len []))"

text \<open>\<open>Inr None\<close> is the return value \<^verbatim>\<open>-EFAULT\<close>; \<open>Inr (Some bs)\<close> is the return value 0 with
  \<open>bs\<close> stored in the destination buffer.\<close>

fun skb_copy_bits :: "sk_buff \<Rightarrow> int \<Rightarrow> int \<Rightarrow> fault + u8 list option"
and skb_copy_list :: "sk_buff list \<Rightarrow> int \<Rightarrow> int \<Rightarrow> int \<Rightarrow> u8 list \<Rightarrow> fault + u8 list option"
where
  "skb_copy_bits (Sk_buff m h lin d nh mh l dl frs fl) offset len =
     (let skb = Sk_buff m h lin d nh mh l dl frs fl in
      if offset > sint l - len then Inr None
      else case copy_header skb offset len of
        Inl e \<Rightarrow> Inl e
      | Inr (Copied bs) \<Rightarrow> Inr (Some bs)
      | Inr (More start offset len to) \<Rightarrow>
         (case copy_frags frs start offset len to of
            Inl e \<Rightarrow> Inl e
          | Inr (Copied bs) \<Rightarrow> Inr (Some bs)
          | Inr (More start offset len to) \<Rightarrow> skb_copy_list fl start offset len to))"
| "skb_copy_list [] start offset len to = Inr (if len = 0 then Some to else None)"
| "skb_copy_list (fi # fis) start offset len to =
     (let end = start + sint (sk_len fi); copy = end - offset in
      if copy > 0 then
        let copy = (if copy > len then len else copy) in
        case skb_copy_bits fi (offset - start) copy of
          Inl e \<Rightarrow> Inl e
        | Inr None \<Rightarrow> Inr None
        | Inr (Some bs) \<Rightarrow>
            if len - copy = 0 then Inr (Some (to @ bs))
            else skb_copy_list fis end (offset + copy) (len - copy) (to @ bs)
      else skb_copy_list fis end offset len to)"

text \<open>\<^verbatim>\<open>skb_header_pointer\<close>: the bytes behind the returned pointer, or \<open>None\<close> for NULL.\<close>

definition skb_header_pointer :: "sk_buff \<Rightarrow> int \<Rightarrow> int \<Rightarrow> fault + u8 list option" where
  "skb_header_pointer skb offset len =
     (let hlen = sint (skb_headlen skb) in
      if hlen - offset \<ge> len
      then (case mem_read skb (sk_data skb + word_of_int offset) (nat len) of
              Inl e \<Rightarrow> Inl e | Inr bs \<Rightarrow> Inr (Some bs))
      else skb_copy_bits skb offset len)"

section \<open>Well-formed buffers\<close>

text \<open>The payload: linear data, then fragments, then chained buffers.\<close>

fun skb_bytes :: "sk_buff \<Rightarrow> u8 list" where
  "skb_bytes (Sk_buff m h lin d nh mh l dl frs fl) =
     drop (unat d - unat h) lin @ concat frs @ concat (map skb_bytes fl)"

text \<open>The length fields agree with the contents, the linear area does not reach into the top
  2 MB of the address space, and lengths fit a signed \<^verbatim>\<open>int\<close>.\<close>

fun skb_wf :: "sk_buff \<Rightarrow> bool" where
  "skb_wf (Sk_buff m h lin d nh mh l dl frs fl) \<longleftrightarrow>
     unat h + length lin + 0x200000 \<le> 2 ^ 32 \<and>
     unat h \<le> unat d \<and> unat d \<le> unat h + length lin \<and>
     unat dl = length (concat frs) + length (concat (map skb_bytes fl)) \<and>
     unat l = unat h + length lin - unat d + unat dl \<and>
     unat l < 2 ^ 31 \<and>
     (\<forall>f \<in> set fl. skb_wf f)"


section \<open>Correctness of the byte access\<close>

definition linear_bytes :: "sk_buff \<Rightarrow> u8 list" where
  "linear_bytes s = drop (unat (sk_data s) - unat (sk_head s)) (sk_lin s)"

lemma skb_bytes_unfold:
  "skb_bytes s = linear_bytes s @ concat (frags s) @ concat (map skb_bytes (frag_list s))"
  by (cases s) (simp add: linear_bytes_def)

lemma skb_wfD:
  assumes "skb_wf s"
  shows "unat (sk_head s) + length (sk_lin s) + 0x200000 \<le> 2 ^ 32"
    and "unat (sk_head s) \<le> unat (sk_data s)"
    and "unat (sk_data s) \<le> unat (sk_head s) + length (sk_lin s)"
    and "unat (sk_data_len s) = length (concat (frags s)) + length (concat (map skb_bytes (frag_list s)))"
    and "unat (sk_len s) = unat (sk_head s) + length (sk_lin s) - unat (sk_data s) + unat (sk_data_len s)"
    and "unat (sk_len s) < 2 ^ 31"
    and "\<forall>f \<in> set (frag_list s). skb_wf f"
  using assms by (cases s; simp)+

lemma length_linear_bytes:
  assumes "skb_wf s"
  shows "length (linear_bytes s) = unat (sk_head s) + length (sk_lin s) - unat (sk_data s)"
  using skb_wfD(2,3) [OF assms] by (simp add: linear_bytes_def)

lemma length_skb_bytes:
  assumes "skb_wf s"
  shows "length (skb_bytes s) = unat (sk_len s)"
  using skb_wfD [OF assms] by (simp add: skb_bytes_unfold length_linear_bytes [OF assms])

text \<open>The loop positions are natural numbers; the lemmas state the \<^verbatim>\<open>int\<close> arithmetic over them.\<close>

lemma copy_frags_correct:
  assumes "0 < n"
  shows "copy_frags fs (int st) (int (st + k)) (int n) to =
     (if k + n \<le> length (concat fs) then Inr (Copied (to @ take n (drop k (concat fs))))
      else Inr (More (int (st + length (concat fs))) (int (st + max k (length (concat fs))))
                  (int (n - (length (concat fs) - k))) (to @ drop k (concat fs))))"
  using assms
proof (induction fs arbitrary: st k n to)
  case Nil
  then show ?case by simp
next
  case (Cons f fs)
  show ?case
  proof (cases "k < length f")
    case False
    then obtain k' where k: "k = length f + k'" by (metis add.commute le_Suc_ex not_less)
    then have "copy_frags (f # fs) (int st) (int (st + k)) (int n) to =
        copy_frags fs (int (st + length f)) (int (st + length f + k')) (int n) to"
      by (simp add: Let_def add.assoc)
    also note Cons.IH [OF Cons.prems]
    finally show ?thesis by (simp add: k add.assoc nat_add_max_right)
  next
    case True
    then obtain r where f: "length f = k + r" "0 < r" by (metis less_imp_add_positive)
    show ?thesis
    proof (cases "n \<le> r")
      case True
      with f Cons.prems show ?thesis
        by (auto simp: frag_read_def Let_def nat_diff_distrib not_less)
    next
      case False
      then obtain n' where n: "n = r + n'" "0 < n'" by (metis less_imp_add_positive not_le)
      with f have "copy_frags (f # fs) (int st) (int (st + k)) (int n) to =
          copy_frags fs (int (st + length f)) (int (st + length f + 0)) (int n') (to @ drop k f)"
        by (simp add: frag_read_def Let_def add.assoc)
      also note Cons.IH [OF n(2)]
      finally show ?thesis using f n by simp
    qed
  qed
qed

lemma unat_headlen:
  assumes "skb_wf s"
  shows "unat (skb_headlen s) = length (linear_bytes s)"
proof -
  have "sk_data_len s \<le> sk_len s"
    using skb_wfD(5) [OF assms] by (simp add: word_le_nat_alt)
  then show ?thesis
    unfolding skb_headlen_def
    using skb_wfD(5) [OF assms] by (simp add: unat_sub_no_wrap length_linear_bytes [OF assms])
qed

lemma sint_headlen:
  assumes "skb_wf s"
  shows "sint (skb_headlen s) = int (length (linear_bytes s))"
proof -
  have "length (linear_bytes s) < 2 ^ 31"
    using skb_wfD(5,6) [OF assms] length_linear_bytes [OF assms] by linarith
  then show ?thesis
    using unat_headlen [OF assms] sint_small [of "skb_headlen s"] by simp
qed

lemma sint_sk_len:
  assumes "skb_wf s"
  shows "sint (sk_len s) = int (length (skb_bytes s))"
  using length_skb_bytes [OF assms] sint_small [OF skb_wfD(6) [OF assms]] by simp

lemma unat_data_offset:
  assumes "skb_wf s" and "0 \<le> off" and "nat off \<le> length (linear_bytes s)"
  shows "unat (sk_data s + word_of_int off) = unat (sk_data s) + nat off"
proof -
  have lt: "unat (sk_data s) + nat off < 2 ^ 32"
    using assms(3) skb_wfD(1,3) [OF assms(1)] length_linear_bytes [OF assms(1)] by linarith
  then have "nat off < 2 ^ 32" by linarith
  then have "off < 2 ^ 32" using assms(2) by (simp add: nat_less_iff)
  then have "unat (word_of_int off :: u32) = nat off"
    using assms(2) by (subst unat_eq_nat_uint) (simp add: uint_word_of_int_eq take_bit_int_eq_self)
  then show ?thesis
    using lt unat_add_no_wrap [of "sk_data s" "word_of_int off"] by simp
qed

lemma mem_read_linear:
  assumes "skb_wf s" and "k + n \<le> length (linear_bytes s)"
  shows "mem_read s (sk_data s + word_of_int (int k)) n = Inr (take n (drop k (linear_bytes s)))"
proof -
  note wf = skb_wfD(2,3) [OF assms(1)] and len = length_linear_bytes [OF assms(1)]
  have u: "unat (sk_data s + word_of_int (int k)) = unat (sk_data s) + k"
    using unat_data_offset [OF assms(1), of "int k"] assms(2) by simp
  have "sk_head s \<le> sk_data s + word_of_int (int k)"
    unfolding word_le_nat_alt u using wf by linarith
  moreover have "unat (sk_data s) + k - unat (sk_head s) + n \<le> length (sk_lin s)"
    using wf len assms(2) by linarith
  moreover have "unat (sk_data s) + k - unat (sk_head s) = k + (unat (sk_data s) - unat (sk_head s))"
    using wf by linarith
  ultimately show ?thesis using u by (simp add: mem_read_def linear_bytes_def)
qed

lemma copy_header_correct:
  assumes "skb_wf s" and "0 < n"
  shows "copy_header s (int k) (int n) =
     (let L = linear_bytes s in
      if k + n \<le> length L then Inr (Copied (take n (drop k L)))
      else Inr (More (int (length L)) (int (max k (length L))) (int (n - (length L - k))) (drop k L)))"
proof (cases "k < length (linear_bytes s)")
  case False
  then show ?thesis
    using assms by (simp add: copy_header_def sint_headlen Let_def)
next
  case True
  then obtain r where r: "length (linear_bytes s) = k + r" "0 < r" by (metis less_imp_add_positive)
  show ?thesis
  proof (cases "n \<le> r")
    case True
    then show ?thesis
      using r assms mem_read_linear [OF assms(1), of k n]
      by (auto simp: copy_header_def sint_headlen Let_def)
  next
    case False
    then obtain n' where "n = r + n'" "0 < n'" by (metis less_imp_add_positive not_le)
    then show ?thesis
      using r assms mem_read_linear [OF assms(1), of k r]
      by (simp add: copy_header_def sint_headlen Let_def)
  qed
qed

lemma skb_copy_list_correct:
  assumes "\<forall>x \<in> set fl. skb_wf x"
    and "\<And>x k n. x \<in> set fl \<Longrightarrow> 0 < n \<Longrightarrow> skb_copy_bits x (int k) (int n) =
       Inr (if k + n \<le> length (skb_bytes x) then Some (take n (drop k (skb_bytes x))) else None)"
    and "0 < n"
  shows "skb_copy_list fl (int st) (int (st + k)) (int n) to =
       (let B = concat (map skb_bytes fl) in
        Inr (if k + n \<le> length B then Some (to @ take n (drop k B)) else None))"
  using assms
proof (induction fl arbitrary: st k n to)
  case Nil
  then show ?case by simp
next
  case (Cons x fl)
  have x: "sint (sk_len x) = int (length (skb_bytes x))" using Cons.prems(1) by (simp add: sint_sk_len)
  have IH: "skb_copy_list fl (int st) (int (st + k)) (int n) to =
       (let B = concat (map skb_bytes fl) in
        Inr (if k + n \<le> length B then Some (to @ take n (drop k B)) else None))" if "0 < n" for st k n to
    using Cons.IH [OF _ _ that] Cons.prems(1,2) by simp
  show ?case
  proof (cases "k < length (skb_bytes x)")
    case False
    then obtain k' where k: "k = length (skb_bytes x) + k'" by (metis add.commute le_Suc_ex not_less)
    then have "skb_copy_list (x # fl) (int st) (int (st + k)) (int n) to =
        skb_copy_list fl (int (st + length (skb_bytes x))) (int (st + length (skb_bytes x) + k')) (int n) to"
      by (simp add: Let_def add.assoc x)
    also note IH [OF Cons.prems(3)]
    finally show ?thesis by (simp add: k add.assoc Let_def)
  next
    case True
    then obtain r where r: "length (skb_bytes x) = k + r" "0 < r" by (metis less_imp_add_positive)
    have step: "skb_copy_bits x (int k) (int m) = Inr (Some (take m (drop k (skb_bytes x))))"
      if "0 < m" "m \<le> r" for m
      using Cons.prems(2) [of x m k] that r by simp
    show ?thesis
    proof (cases "n \<le> r")
      case True
      with r Cons.prems(3) step [of n] show ?thesis by (auto simp: Let_def x)
    next
      case False
      then obtain n' where n: "n = r + n'" "0 < n'" by (metis less_imp_add_positive not_le)
      have "skb_copy_list (x # fl) (int st) (int (st + k)) (int n) to =
          skb_copy_list fl (int (st + length (skb_bytes x))) (int (st + length (skb_bytes x) + 0)) (int n')
            (to @ drop k (skb_bytes x))"
        using r n step [OF r(2) order_refl] by (simp add: Let_def x add.assoc)
      also note IH [OF n(2)]
      finally show ?thesis using r n by (simp add: Let_def)
    qed
  qed
qed

lemma skb_copy_bits_correct:
  assumes "skb_wf s" and "0 < n"
  shows "skb_copy_bits s (int k) (int n) =
       Inr (if k + n \<le> length (skb_bytes s) then Some (take n (drop k (skb_bytes s))) else None)"
  using assms
proof (induction s arbitrary: k n)
  case (Sk_buff m h lin d nh mh l dl frs fl)
  define s where "s = Sk_buff m h lin d nh mh l dl frs fl"
  have wf: "skb_wf s" using Sk_buff.prems(1) unfolding s_def .
  define L F B where "L = linear_bytes s" and "F = concat frs" and "B = concat (map skb_bytes fl)"
  have bytes: "skb_bytes s = L @ F @ B" by (simp add: L_def F_def B_def s_def skb_bytes_unfold)
  have sl: "sint l = int (length (skb_bytes s))" using sint_sk_len [OF wf] by (simp add: s_def)
  note unf = skb_copy_bits.simps [of m h lin d nh mh l dl frs fl "int k" "int n", folded s_def, unfolded Let_def]
  have lst: "skb_copy_list fl (int st) (int (st + k)) (int n) to =
       Inr (if k + n \<le> length B then Some (to @ take n (drop k B)) else None)" if "0 < n" for st k n to
    using skb_copy_list_correct [OF _ _ that, of fl st k to] Sk_buff.IH skb_wfD(7) [OF wf]
    by (simp add: B_def s_def Let_def)
  have "skb_copy_bits s (int k) (int n) =
       Inr (if k + n \<le> length (skb_bytes s) then Some (take n (drop k (skb_bytes s))) else None)"
  proof (cases "k + n \<le> length (skb_bytes s)")
    case False
    then show ?thesis by (simp add: unf sl)
  next
    case fits: True
    then have guard: "\<not> int k > sint l - int n" by (simp add: sl)
    note hdr = copy_header_correct [OF wf Sk_buff.prems(2), of k, folded L_def, unfolded Let_def]
    show ?thesis
    proof (cases "k + n \<le> length L")
      case True
      then show ?thesis using hdr guard fits bytes by (simp add: unf)
    next
      case nohdr: False
      define k1 n1 where "k1 = k - length L" and "n1 = n - (length L - k)"
      have n1: "0 < n1" using nohdr Sk_buff.prems(2) by (auto simp: n1_def)
      have "int (max k (length L)) = int (length L + k1)" by (simp add: k1_def)
      then have hh: "copy_header s (int k) (int n) =
          Inr (More (int (length L)) (int (length L + k1)) (int n1) (drop k L))"
        using hdr nohdr by (simp add: n1_def)
      note fr = copy_frags_correct [OF n1, of frs "length L" k1 "drop k L", folded F_def]
      show ?thesis
      proof (cases "k1 + n1 \<le> length F")
        case True
        then show ?thesis using hh fr guard fits bytes nohdr by (auto simp: unf k1_def n1_def)
      next
        case nofr: False
        define k2 n2 where "k2 = k1 - length F" and "n2 = n1 - (length F - k1)"
        have n2: "0 < n2" using nofr n1 by (auto simp: n2_def)
        have "length L + max k1 (length F) = length L + length F + k2" by (simp add: k2_def)
        then have ff: "copy_frags frs (int (length L)) (int (length L + k1)) (int n1) (drop k L) =
            Inr (More (int (length L + length F)) (int (length L + length F + k2)) (int n2)
              (drop k L @ drop k1 F))"
          using fr nofr by (simp only: if_False n2_def)
        have "skb_copy_bits s (int k) (int n) =
            skb_copy_list fl (int (length L + length F)) (int (length L + length F + k2)) (int n2)
              (drop k L @ drop k1 F)"
          using hh ff guard by (simp add: unf)
        also note lst [OF n2]
        finally show ?thesis
          using fits bytes nohdr nofr by (auto simp: k1_def n1_def k2_def n2_def)
      qed
    qed
  qed
  then show ?case unfolding s_def .
qed

lemma skb_header_pointer_correct:
  assumes "skb_wf s" and "0 < n"
  shows "skb_header_pointer s (int k) (int n) =
       Inr (if k + n \<le> length (skb_bytes s) then Some (take n (drop k (skb_bytes s))) else None)"
proof (cases "k + n \<le> length (linear_bytes s)")
  case True
  then show ?thesis
    using mem_read_linear [OF assms(1) True]
    by (simp add: skb_header_pointer_def sint_headlen [OF assms(1)] skb_bytes_unfold)
next
  case False
  then show ?thesis
    using skb_copy_bits_correct [OF assms]
    by (simp add: skb_header_pointer_def sint_headlen [OF assms(1)])
qed

lemma mem_read_ok:
  assumes "sk_head s \<le> p" and "unat p + n \<le> unat (sk_head s) + length (sk_lin s)"
  shows "\<exists>bs. mem_read s p n = Inr bs \<and> length bs = n"
  using assms by (auto simp: mem_read_def word_le_nat_alt)

lemma unat_tail_pointer:
  assumes "skb_wf s"
  shows "unat (skb_tail_pointer s) = unat (sk_head s) + length (sk_lin s)"
proof -
  have lt: "length (sk_lin s) < 2 ^ LENGTH(32)" "unat (sk_head s) + length (sk_lin s) < 2 ^ LENGTH(32)"
    using skb_wfD(1) [OF assms] by simp_all
  have "unat (word_of_nat (length (sk_lin s)) :: u32) = length (sk_lin s)"
    by (rule unat_word_of_nat_small [OF lt(1)])
  with lt(2) show ?thesis
    unfolding skb_tail_pointer_def by (subst unat_add_no_wrap) simp_all
qed

end
