(* ===== verification/Bpf_Insn.thy ===== *)
theory Bpf_Insn
  imports Skbuff
begin

text \<open>
  The instruction set of the packet filter: the public encoding of
  \<^verbatim>\<open>include/linux/filter.h\<close>, the internal opcodes of \<^verbatim>\<open>net/core/filter.c\<close> and the
  translation table \<^verbatim>\<open>codes[]\<close> of \<^verbatim>\<open>sk_chk_filter\<close> between them.
\<close>

unbundle bit_operations_syntax

section \<open>Instructions\<close>

record sock_filter =
  sf_code :: u16
  sf_jt :: u8
  sf_jf :: u8
  sf_k :: u32

text \<open>The internal opcodes; \<open>bpf_s_num\<close> is the enumeration value stored in \<^verbatim>\<open>code\<close> by
  the checker, \<open>bpf_s_of\<close> the decoding done by the interpreter's \<^verbatim>\<open>switch\<close> (\<open>None\<close> is its
  \<^verbatim>\<open>default\<close> branch).\<close>

datatype (plugins only: code size) bpf_s =
    BPF_S_RET_K | BPF_S_RET_A | BPF_S_ALU_ADD_K | BPF_S_ALU_ADD_X | BPF_S_ALU_SUB_K
     | BPF_S_ALU_SUB_X | BPF_S_ALU_MUL_K | BPF_S_ALU_MUL_X | BPF_S_ALU_DIV_X
     | BPF_S_ALU_AND_K | BPF_S_ALU_AND_X | BPF_S_ALU_OR_K | BPF_S_ALU_OR_X | BPF_S_ALU_LSH_K
     | BPF_S_ALU_LSH_X | BPF_S_ALU_RSH_K | BPF_S_ALU_RSH_X | BPF_S_ALU_NEG | BPF_S_LD_W_ABS
     | BPF_S_LD_H_ABS | BPF_S_LD_B_ABS | BPF_S_LD_W_LEN | BPF_S_LD_W_IND | BPF_S_LD_H_IND
     | BPF_S_LD_B_IND | BPF_S_LD_IMM | BPF_S_LDX_W_LEN | BPF_S_LDX_B_MSH | BPF_S_LDX_IMM
     | BPF_S_MISC_TAX | BPF_S_MISC_TXA | BPF_S_ALU_DIV_K | BPF_S_LD_MEM | BPF_S_LDX_MEM
     | BPF_S_ST | BPF_S_STX | BPF_S_JMP_JA | BPF_S_JMP_JEQ_K | BPF_S_JMP_JEQ_X
     | BPF_S_JMP_JGE_K | BPF_S_JMP_JGE_X | BPF_S_JMP_JGT_K | BPF_S_JMP_JGT_X
     | BPF_S_JMP_JSET_K | BPF_S_JMP_JSET_X | BPF_S_ANC_PROTOCOL | BPF_S_ANC_PKTTYPE
     | BPF_S_ANC_IFINDEX | BPF_S_ANC_NLATTR | BPF_S_ANC_NLATTR_NEST | BPF_S_ANC_MARK
     | BPF_S_ANC_QUEUE | BPF_S_ANC_HATYPE | BPF_S_ANC_RXHASH | BPF_S_ANC_CPU

primrec bpf_s_num :: "bpf_s \<Rightarrow> u16" where
  "bpf_s_num BPF_S_RET_K = 1"
| "bpf_s_num BPF_S_RET_A = 2"
| "bpf_s_num BPF_S_ALU_ADD_K = 3"
| "bpf_s_num BPF_S_ALU_ADD_X = 4"
| "bpf_s_num BPF_S_ALU_SUB_K = 5"
| "bpf_s_num BPF_S_ALU_SUB_X = 6"
| "bpf_s_num BPF_S_ALU_MUL_K = 7"
| "bpf_s_num BPF_S_ALU_MUL_X = 8"
| "bpf_s_num BPF_S_ALU_DIV_X = 9"
| "bpf_s_num BPF_S_ALU_AND_K = 10"
| "bpf_s_num BPF_S_ALU_AND_X = 11"
| "bpf_s_num BPF_S_ALU_OR_K = 12"
| "bpf_s_num BPF_S_ALU_OR_X = 13"
| "bpf_s_num BPF_S_ALU_LSH_K = 14"
| "bpf_s_num BPF_S_ALU_LSH_X = 15"
| "bpf_s_num BPF_S_ALU_RSH_K = 16"
| "bpf_s_num BPF_S_ALU_RSH_X = 17"
| "bpf_s_num BPF_S_ALU_NEG = 18"
| "bpf_s_num BPF_S_LD_W_ABS = 19"
| "bpf_s_num BPF_S_LD_H_ABS = 20"
| "bpf_s_num BPF_S_LD_B_ABS = 21"
| "bpf_s_num BPF_S_LD_W_LEN = 22"
| "bpf_s_num BPF_S_LD_W_IND = 23"
| "bpf_s_num BPF_S_LD_H_IND = 24"
| "bpf_s_num BPF_S_LD_B_IND = 25"
| "bpf_s_num BPF_S_LD_IMM = 26"
| "bpf_s_num BPF_S_LDX_W_LEN = 27"
| "bpf_s_num BPF_S_LDX_B_MSH = 28"
| "bpf_s_num BPF_S_LDX_IMM = 29"
| "bpf_s_num BPF_S_MISC_TAX = 30"
| "bpf_s_num BPF_S_MISC_TXA = 31"
| "bpf_s_num BPF_S_ALU_DIV_K = 32"
| "bpf_s_num BPF_S_LD_MEM = 33"
| "bpf_s_num BPF_S_LDX_MEM = 34"
| "bpf_s_num BPF_S_ST = 35"
| "bpf_s_num BPF_S_STX = 36"
| "bpf_s_num BPF_S_JMP_JA = 37"
| "bpf_s_num BPF_S_JMP_JEQ_K = 38"
| "bpf_s_num BPF_S_JMP_JEQ_X = 39"
| "bpf_s_num BPF_S_JMP_JGE_K = 40"
| "bpf_s_num BPF_S_JMP_JGE_X = 41"
| "bpf_s_num BPF_S_JMP_JGT_K = 42"
| "bpf_s_num BPF_S_JMP_JGT_X = 43"
| "bpf_s_num BPF_S_JMP_JSET_K = 44"
| "bpf_s_num BPF_S_JMP_JSET_X = 45"
| "bpf_s_num BPF_S_ANC_PROTOCOL = 46"
| "bpf_s_num BPF_S_ANC_PKTTYPE = 47"
| "bpf_s_num BPF_S_ANC_IFINDEX = 48"
| "bpf_s_num BPF_S_ANC_NLATTR = 49"
| "bpf_s_num BPF_S_ANC_NLATTR_NEST = 50"
| "bpf_s_num BPF_S_ANC_MARK = 51"
| "bpf_s_num BPF_S_ANC_QUEUE = 52"
| "bpf_s_num BPF_S_ANC_HATYPE = 53"
| "bpf_s_num BPF_S_ANC_RXHASH = 54"
| "bpf_s_num BPF_S_ANC_CPU = 55"

definition bpf_s_table :: "bpf_s list" where
  "bpf_s_table = [
     BPF_S_RET_K, BPF_S_RET_A, BPF_S_ALU_ADD_K, BPF_S_ALU_ADD_X, BPF_S_ALU_SUB_K
     , BPF_S_ALU_SUB_X, BPF_S_ALU_MUL_K, BPF_S_ALU_MUL_X, BPF_S_ALU_DIV_X, BPF_S_ALU_AND_K
     , BPF_S_ALU_AND_X, BPF_S_ALU_OR_K, BPF_S_ALU_OR_X, BPF_S_ALU_LSH_K, BPF_S_ALU_LSH_X
     , BPF_S_ALU_RSH_K, BPF_S_ALU_RSH_X, BPF_S_ALU_NEG, BPF_S_LD_W_ABS, BPF_S_LD_H_ABS
     , BPF_S_LD_B_ABS, BPF_S_LD_W_LEN, BPF_S_LD_W_IND, BPF_S_LD_H_IND, BPF_S_LD_B_IND
     , BPF_S_LD_IMM, BPF_S_LDX_W_LEN, BPF_S_LDX_B_MSH, BPF_S_LDX_IMM, BPF_S_MISC_TAX
     , BPF_S_MISC_TXA, BPF_S_ALU_DIV_K, BPF_S_LD_MEM, BPF_S_LDX_MEM, BPF_S_ST, BPF_S_STX
     , BPF_S_JMP_JA, BPF_S_JMP_JEQ_K, BPF_S_JMP_JEQ_X, BPF_S_JMP_JGE_K, BPF_S_JMP_JGE_X
     , BPF_S_JMP_JGT_K, BPF_S_JMP_JGT_X, BPF_S_JMP_JSET_K, BPF_S_JMP_JSET_X
     , BPF_S_ANC_PROTOCOL, BPF_S_ANC_PKTTYPE, BPF_S_ANC_IFINDEX, BPF_S_ANC_NLATTR
     , BPF_S_ANC_NLATTR_NEST, BPF_S_ANC_MARK, BPF_S_ANC_QUEUE, BPF_S_ANC_HATYPE
     , BPF_S_ANC_RXHASH, BPF_S_ANC_CPU]"

definition bpf_s_of :: "u16 \<Rightarrow> bpf_s option" where
  "bpf_s_of c = (if c \<noteq> 0 \<and> unat c \<le> length bpf_s_table then Some (bpf_s_table ! (unat c - 1)) else None)"

text \<open>The public encoding of \<^verbatim>\<open>include/linux/filter.h\<close>.\<close>

abbreviation (input) BPF_LD :: u16 where "BPF_LD \<equiv> 0x00"
abbreviation (input) BPF_LDX :: u16 where "BPF_LDX \<equiv> 0x01"
abbreviation (input) BPF_ST :: u16 where "BPF_ST \<equiv> 0x02"
abbreviation (input) BPF_STX :: u16 where "BPF_STX \<equiv> 0x03"
abbreviation (input) BPF_ALU :: u16 where "BPF_ALU \<equiv> 0x04"
abbreviation (input) BPF_JMP :: u16 where "BPF_JMP \<equiv> 0x05"
abbreviation (input) BPF_RET :: u16 where "BPF_RET \<equiv> 0x06"
abbreviation (input) BPF_MISC :: u16 where "BPF_MISC \<equiv> 0x07"
abbreviation (input) BPF_W :: u16 where "BPF_W \<equiv> 0x00"
abbreviation (input) BPF_H :: u16 where "BPF_H \<equiv> 0x08"
abbreviation (input) BPF_B :: u16 where "BPF_B \<equiv> 0x10"
abbreviation (input) BPF_IMM :: u16 where "BPF_IMM \<equiv> 0x00"
abbreviation (input) BPF_ABS :: u16 where "BPF_ABS \<equiv> 0x20"
abbreviation (input) BPF_IND :: u16 where "BPF_IND \<equiv> 0x40"
abbreviation (input) BPF_MEM :: u16 where "BPF_MEM \<equiv> 0x60"
abbreviation (input) BPF_LEN :: u16 where "BPF_LEN \<equiv> 0x80"
abbreviation (input) BPF_MSH :: u16 where "BPF_MSH \<equiv> 0xa0"
abbreviation (input) BPF_ADD :: u16 where "BPF_ADD \<equiv> 0x00"
abbreviation (input) BPF_SUB :: u16 where "BPF_SUB \<equiv> 0x10"
abbreviation (input) BPF_MUL :: u16 where "BPF_MUL \<equiv> 0x20"
abbreviation (input) BPF_DIV :: u16 where "BPF_DIV \<equiv> 0x30"
abbreviation (input) BPF_OR :: u16 where "BPF_OR \<equiv> 0x40"
abbreviation (input) BPF_AND :: u16 where "BPF_AND \<equiv> 0x50"
abbreviation (input) BPF_LSH :: u16 where "BPF_LSH \<equiv> 0x60"
abbreviation (input) BPF_RSH :: u16 where "BPF_RSH \<equiv> 0x70"
abbreviation (input) BPF_NEG :: u16 where "BPF_NEG \<equiv> 0x80"
abbreviation (input) BPF_JA :: u16 where "BPF_JA \<equiv> 0x00"
abbreviation (input) BPF_JEQ :: u16 where "BPF_JEQ \<equiv> 0x10"
abbreviation (input) BPF_JGT :: u16 where "BPF_JGT \<equiv> 0x20"
abbreviation (input) BPF_JGE :: u16 where "BPF_JGE \<equiv> 0x30"
abbreviation (input) BPF_JSET :: u16 where "BPF_JSET \<equiv> 0x40"
abbreviation (input) BPF_K :: u16 where "BPF_K \<equiv> 0x00"
abbreviation (input) BPF_X :: u16 where "BPF_X \<equiv> 0x08"
abbreviation (input) BPF_A :: u16 where "BPF_A \<equiv> 0x10"
abbreviation (input) BPF_TAX :: u16 where "BPF_TAX \<equiv> 0x00"
abbreviation (input) BPF_TXA :: u16 where "BPF_TXA \<equiv> 0x80"

definition codes :: "(u16 \<times> bpf_s) list" where
  "codes = [
     (BPF_ALU OR BPF_ADD OR BPF_K, BPF_S_ALU_ADD_K),
     (BPF_ALU OR BPF_ADD OR BPF_X, BPF_S_ALU_ADD_X),
     (BPF_ALU OR BPF_SUB OR BPF_K, BPF_S_ALU_SUB_K),
     (BPF_ALU OR BPF_SUB OR BPF_X, BPF_S_ALU_SUB_X),
     (BPF_ALU OR BPF_MUL OR BPF_K, BPF_S_ALU_MUL_K),
     (BPF_ALU OR BPF_MUL OR BPF_X, BPF_S_ALU_MUL_X),
     (BPF_ALU OR BPF_DIV OR BPF_X, BPF_S_ALU_DIV_X),
     (BPF_ALU OR BPF_AND OR BPF_K, BPF_S_ALU_AND_K),
     (BPF_ALU OR BPF_AND OR BPF_X, BPF_S_ALU_AND_X),
     (BPF_ALU OR BPF_OR OR BPF_K, BPF_S_ALU_OR_K),
     (BPF_ALU OR BPF_OR OR BPF_X, BPF_S_ALU_OR_X),
     (BPF_ALU OR BPF_LSH OR BPF_K, BPF_S_ALU_LSH_K),
     (BPF_ALU OR BPF_LSH OR BPF_X, BPF_S_ALU_LSH_X),
     (BPF_ALU OR BPF_RSH OR BPF_K, BPF_S_ALU_RSH_K),
     (BPF_ALU OR BPF_RSH OR BPF_X, BPF_S_ALU_RSH_X),
     (BPF_ALU OR BPF_NEG, BPF_S_ALU_NEG),
     (BPF_LD OR BPF_W OR BPF_ABS, BPF_S_LD_W_ABS),
     (BPF_LD OR BPF_H OR BPF_ABS, BPF_S_LD_H_ABS),
     (BPF_LD OR BPF_B OR BPF_ABS, BPF_S_LD_B_ABS),
     (BPF_LD OR BPF_W OR BPF_LEN, BPF_S_LD_W_LEN),
     (BPF_LD OR BPF_W OR BPF_IND, BPF_S_LD_W_IND),
     (BPF_LD OR BPF_H OR BPF_IND, BPF_S_LD_H_IND),
     (BPF_LD OR BPF_B OR BPF_IND, BPF_S_LD_B_IND),
     (BPF_LD OR BPF_IMM, BPF_S_LD_IMM),
     (BPF_LDX OR BPF_W OR BPF_LEN, BPF_S_LDX_W_LEN),
     (BPF_LDX OR BPF_B OR BPF_MSH, BPF_S_LDX_B_MSH),
     (BPF_LDX OR BPF_IMM, BPF_S_LDX_IMM),
     (BPF_MISC OR BPF_TAX, BPF_S_MISC_TAX),
     (BPF_MISC OR BPF_TXA, BPF_S_MISC_TXA),
     (BPF_RET OR BPF_K, BPF_S_RET_K),
     (BPF_RET OR BPF_A, BPF_S_RET_A),
     (BPF_ALU OR BPF_DIV OR BPF_K, BPF_S_ALU_DIV_K),
     (BPF_LD OR BPF_MEM, BPF_S_LD_MEM),
     (BPF_LDX OR BPF_MEM, BPF_S_LDX_MEM),
     (BPF_ST, BPF_S_ST),
     (BPF_STX, BPF_S_STX),
     (BPF_JMP OR BPF_JA, BPF_S_JMP_JA),
     (BPF_JMP OR BPF_JEQ OR BPF_K, BPF_S_JMP_JEQ_K),
     (BPF_JMP OR BPF_JEQ OR BPF_X, BPF_S_JMP_JEQ_X),
     (BPF_JMP OR BPF_JGE OR BPF_K, BPF_S_JMP_JGE_K),
     (BPF_JMP OR BPF_JGE OR BPF_X, BPF_S_JMP_JGE_X),
     (BPF_JMP OR BPF_JGT OR BPF_K, BPF_S_JMP_JGT_K),
     (BPF_JMP OR BPF_JGT OR BPF_X, BPF_S_JMP_JGT_X),
     (BPF_JMP OR BPF_JSET OR BPF_K, BPF_S_JMP_JSET_K),
     (BPF_JMP OR BPF_JSET OR BPF_X, BPF_S_JMP_JSET_X)]"

lemma bpf_s_of_num [simp]: "bpf_s_of (bpf_s_num c) = Some c"
  by (cases c) (simp_all add: bpf_s_of_def bpf_s_table_def)

lemma bpf_s_num_nonzero [simp]: "bpf_s_num c \<noteq> 0"
  by (cases c) simp_all

declare bpf_s_num.simps [simp del]

end
