(* ===== verification/Reciprocal_Div.thy ===== *)
theory Reciprocal_Div
  imports Kernel_Prelude
begin

text \<open>
  Division by a precomputed reciprocal: \<^verbatim>\<open>reciprocal_value\<close> (\<^verbatim>\<open>lib/reciprocal_div.c\<close>) and
  \<^verbatim>\<open>reciprocal_divide\<close> (\<^verbatim>\<open>include/linux/reciprocal_div.h\<close>), with the exact error bound of the
  method.  The packet filter divides by constants this way.
\<close>

section \<open>Division by reciprocal\<close>

text \<open>\<^verbatim>\<open>reciprocal_value\<close> computes \<open>\<lceil>2\<^sup>3\<^sup>2 / k\<rceil>\<close> in 64 bits and truncates to 32.  \<open>k - 1\<close> is
  evaluated in 32 bits before it is widened.\<close>

definition reciprocal_value :: "u32 \<Rightarrow> u32" where
  "reciprocal_value n = ucast (((2 ^ 32 + ucast (n - 1)) :: u64) div ucast n)"

definition reciprocal_divide :: "u32 \<Rightarrow> u32 \<Rightarrow> u32" where
  "reciprocal_divide a r = ucast (drop_bit 32 ((ucast a :: u64) * ucast r))"

section \<open>Accuracy\<close>

lemma reciprocal_core:
  fixes a B R e N :: nat
  assumes R: "R * B = N + e" and B: "0 < B"
  shows "a div B * N \<le> a * R"
    and "a * e < N \<Longrightarrow> a * R < (a div B + 1) * N"
    and "a < N \<Longrightarrow> e < B \<Longrightarrow> a * R < (a div B + 2) * N"
proof -
  have aRB: "a * R * B = a * N + a * e" using R by (metis distrib_left mult.assoc)
  have up: "a + 1 \<le> (a div B + 1) * B"
    using dividend_less_div_times [OF B, of a] by (simp add: algebra_simps)
  have "a div B * N * B = a div B * B * N" by (simp only: ac_simps)
  also have "\<dots> \<le> a * N" using div_times_less_eq_dividend [of a B] by (rule mult_le_mono1)
  also have "\<dots> \<le> a * R * B" using aRB by simp
  finally have "a div B * N * B \<le> a * R * B" .
  then show "a div B * N \<le> a * R" using B by simp
  show "a * R < (a div B + 1) * N" if "a * e < N"
  proof -
    have "a * R * B < (a + 1) * N" using aRB that by (simp add: algebra_simps)
    also have "\<dots> \<le> (a div B + 1) * B * N" using mult_le_mono1 [OF up, of N] .
    finally have "a * R * B < (a div B + 1) * N * B" by (simp add: algebra_simps)
    then show ?thesis using B by simp
  qed
  show "a * R < (a div B + 2) * N" if "a < N" "e < B"
  proof -
    have "a * e < N * B" using that by (intro mult_strict_mono) auto
    then have "a * R * B < a * N + N * B" using aRB by simp
    also have "\<dots> \<le> (a div B + 1) * B * N + N * B"
      using mult_le_mono1 [OF up, of N] by (simp add: algebra_simps)
    also have "\<dots> = (a div B + 2) * N * B" by (simp add: algebra_simps)
    finally show ?thesis using B by simp
  qed
qed

lemma unat_reciprocal_value:
  assumes "2 \<le> b"
  shows "unat (reciprocal_value b) = (2 ^ 32 + (unat b - 1)) div unat b"
proof -
  have b: "2 \<le> unat b" using assms by (simp add: word_le_nat_alt)
  have b1: "unat (b - 1) = unat b - 1" using b by (intro unat_minus_one) auto
  have bnd: "unat b < 2 ^ 32" using unsigned_less [of b] by simp
  have "unat ((2 ^ 32 + ucast (b - 1)) :: u64) = 2 ^ 32 + (unat b - 1)"
    using bnd b1 by (subst unat_add_no_wrap) simp_all
  then have q: "unat (((2 ^ 32 + ucast (b - 1)) :: u64) div ucast b) = (2 ^ 32 + (unat b - 1)) div unat b"
    by (simp only: unat_div unat_ucast_u32_u64)
  have "(2 ^ 32 + (unat b - 1)) div unat b \<le> (2 ^ 32 + (unat b - 1)) div 2"
    using b by (intro div_le_mono2) auto
  also have "\<dots> < 2 ^ LENGTH(32)" using bnd by simp
  finally show ?thesis
    unfolding reciprocal_value_def using q by (subst unat_ucast_small) simp_all
qed

lemma unat_reciprocal_divide:
  "unat (reciprocal_divide a r) = unat a * unat r div 2 ^ 32"
proof -
  have "unat a < 2 ^ 32" "unat r < 2 ^ 32" using unsigned_less [of a] unsigned_less [of r] by simp_all
  then have lt: "unat a * unat r < 2 ^ 32 * 2 ^ 32" by (intro mult_strict_mono) auto
  then have "unat ((ucast a :: u64) * ucast r) = unat a * unat r"
    by (subst unat_mult_lem [THEN iffD1]) simp_all
  then have "unat (drop_bit 32 ((ucast a :: u64) * ucast r)) = unat a * unat r div 2 ^ 32"
    by (simp add: drop_bit_eq_div unat_div)
  moreover have "unat a * unat r div 2 ^ 32 < 2 ^ LENGTH(32)"
    using lt by (simp add: div_less_iff_less_mult)
  ultimately show ?thesis
    unfolding reciprocal_divide_def by (subst unat_ucast_small) simp_all
qed

text \<open>The reciprocal as a number, with the excess \<open>e\<close> of its product with the divisor over \<open>2\<^sup>3\<^sup>2\<close>; the quotient is
  too large where the excess, taken \<open>a\<close> times, makes up for what the remainder lacks.\<close>

lemma reciprocal_excess:
  assumes "2 \<le> b"
  obtains R e where "R * unat b = 2 ^ 32 + e" and "e < unat b"
    and "\<And>a. unat (reciprocal_divide a (reciprocal_value b)) = unat a * R div 2 ^ 32"
proof -
  let ?B = "unat b" and ?N = "2 ^ 32 :: nat"
  let ?R = "(?N + (?B - 1)) div ?B"
  have B: "2 \<le> ?B" using assms by (simp add: word_le_nat_alt)
  have "?R * ?B = ?N + (?B - 1) - (?N + (?B - 1)) mod ?B" by (simp add: minus_mod_eq_div_mult)
  moreover have "(?N + (?B - 1)) mod ?B < ?B" using B by simp
  ultimately have "?R * ?B = ?N + (?R * ?B - ?N)" "?R * ?B - ?N < ?B" using B by linarith+
  moreover have "unat (reciprocal_divide a (reciprocal_value b)) = unat a * ?R div ?N" for a
    by (simp only: unat_reciprocal_divide unat_reciprocal_value [OF assms])
  ultimately show thesis using that by blast
qed

lemma excess_exact:
  fixes a B R e N :: nat
  assumes R: "R * B = N + e" and B: "0 < B" and e: "e < B" and a: "a < N"
  shows "a * R div N = a div B \<longleftrightarrow> a * e < (B - a mod B) * N"
proof -
  have N: "0 < N" using a by simp
  have lo: "a div B \<le> a * R div N" using reciprocal_core(1) [OF R B, of a] N by (simp add: less_eq_div_iff_mult_less_eq)
  have "a + (B - a mod B) = (a div B + 1) * B"
    using less_imp_le [OF mod_less_divisor [OF B, of a]] div_mult_mod_eq [of a B] unfolding add_mult_distrib by linarith
  then have "(a div B + 1) * N * B = a * N + (B - a mod B) * N" by (metis distrib_right mult.assoc mult.commute)
  moreover have "a * R * B = a * N + a * e" using R by (metis distrib_left mult.assoc)
  ultimately have "a * R < (a div B + 1) * N \<longleftrightarrow> a * e < (B - a mod B) * N"
    using mult_less_cancel2 [of "a * R" B "(a div B + 1) * N"] B by simp
  moreover have "a * R div N < a div B + 1 \<longleftrightarrow> a * R < (a div B + 1) * N" using N by (rule div_less_iff_less_mult)
  ultimately show ?thesis using lo by auto
qed

lemma excess_dvd:
  fixes B R e N :: nat
  assumes R: "R * B = N + e" and B: "2 \<le> B" and e: "e < B"
  shows "B dvd N \<longleftrightarrow> e = 0" and "B dvd N + 1 \<longleftrightarrow> e = 1"
proof -
  have d: "B dvd N + e" using R by (metis dvd_triv_right)
  show "B dvd N \<longleftrightarrow> e = 0"
  proof
    assume "B dvd N"
    then have "B dvd e" using d by (simp only: dvd_add_right_iff)
    then show "e = 0" using e nat_dvd_not_less [of e B] by blast
  qed (use d in simp)
  show "B dvd N + 1 \<longleftrightarrow> e = 1"
  proof
    assume one: "B dvd N + 1"
    have "e \<noteq> 0"
    proof
      assume "e = 0"
      then have "B dvd N" using d by simp
      with one have "B dvd 1" by (metis dvd_add_right_iff)
      then show False using B by simp
    qed
    then have "B dvd N + 1 + (e - 1)" using d by simp
    with one have "B dvd e - 1" by (simp only: dvd_add_right_iff)
    moreover have "e - 1 < B" using e by simp
    ultimately have "\<not> 0 < e - 1" using nat_dvd_not_less by blast
    then show "e = 1" using \<open>e \<noteq> 0\<close> by simp
  qed (use d in simp)
qed

lemma unat_less: "unat (a :: u32) < 2 ^ 32"
  using unsigned_less [of a] by simp

lemma last_multiple:
  fixes B :: nat
  assumes "2 \<le> B" and "B < 2 ^ 32"
  shows "2 ^ 32 div B * B - 1 < 2 ^ 32" and "2 ^ 31 \<le> 2 ^ 32 div B * B - 1" and "(2 ^ 32 div B * B - 1) mod B = B - 1"
proof -
  let ?N = "2 ^ 32 :: nat" and ?q = "2 ^ 32 div B"
  have q: "1 \<le> ?q" using assms by (simp add: less_eq_div_iff_mult_less_eq)
  have le: "?q * B \<le> ?N" by (rule div_times_less_eq_dividend)
  have gt: "?N < ?q * B + B" using dividend_less_div_times [of B ?N] assms(1) by (simp add: algebra_simps)
  have "?N \<noteq> 0" by simp
  then show "?q * B - 1 < ?N" using le by linarith
  have "B \<le> ?q * B" using q by simp
  with gt have "?N < 2 * (?q * B)" by linarith
  moreover have "?N = 2 * 2 ^ 31" by simp
  ultimately show "2 ^ 31 \<le> ?q * B - 1" by linarith
  obtain p where "?q = Suc p" using q by (cases ?q) auto
  then have "?q * B - 1 = p * B + (B - 1)" using assms(1) by simp
  then show "(?q * B - 1) mod B = B - 1" using assms(1) by (simp only: mod_mult_self3) simp
qed

text \<open>C34. For a divisor of at least 2 the quotient by reciprocal is the true quotient or one more,
  and it is exact whenever \<open>a * (b - 1) < 2\<^sup>3\<^sup>2\<close>.\<close>

theorem reciprocal_divide_accuracy:
  assumes "2 \<le> b"
  shows "unat (reciprocal_divide a (reciprocal_value b)) \<in> {unat a div unat b, unat a div unat b + 1} \<and>
    (unat a * (unat b - 1) < 2 ^ 32 \<longrightarrow>
       unat (reciprocal_divide a (reciprocal_value b)) = unat a div unat b)"
proof -
  let ?B = "unat b" and ?N = "2 ^ 32 :: nat" and ?a = "unat a"
  obtain R e where R: "R * ?B = ?N + e" "e < ?B" and res: "unat (reciprocal_divide a (reciprocal_value b)) = ?a * R div ?N"
    using reciprocal_excess [OF assms] by metis
  have B: "0 < ?B" using R(2) by simp
  have a: "?a < ?N" using unsigned_less [of a] by simp
  note core = reciprocal_core [OF R(1) B, of ?a]
  have lo: "?a div ?B \<le> ?a * R div ?N" using core(1) by (simp add: less_eq_div_iff_mult_less_eq)
  have "?a * R div ?N < ?a div ?B + 2" using core(3) [OF a R(2)] by (simp add: div_less_iff_less_mult)
  then have "?a * R div ?N \<in> {?a div ?B, ?a div ?B + 1}" using lo by auto
  moreover have "?a * R div ?N = ?a div ?B" if "?a * (?B - 1) < ?N"
  proof -
    have "e \<le> ?B - 1" using R(2) by simp
    then have "?a * e < ?N" using that mult_le_mono2 [of e "?B - 1" ?a] by linarith
    then have "?a * R div ?N < ?a div ?B + 1" using core(2) by (simp add: div_less_iff_less_mult)
    with lo show ?thesis by simp
  qed
  ultimately show ?thesis unfolding res by blast
qed

theorem reciprocal_divide_accuracy_witness:
  "unat (reciprocal_divide 0xFFFFFFFF (reciprocal_value 7)) \<in> {613566756, 613566757} \<and>
   unat (reciprocal_divide 1000000 (reciprocal_value 10)) = 100000"
  using reciprocal_divide_accuracy [of 7 "0xFFFFFFFF"] reciprocal_divide_accuracy [of 10 1000000]
  by simp

text \<open>C38. Exactly which divisors are safe.  Division by reciprocal gives the true quotient for every dividend exactly
  when the divisor is at least 2 and divides \<open>2\<^sup>3\<^sup>2\<close> or \<open>2\<^sup>3\<^sup>2 + 1\<close>, that is for powers of two and for 641 and 6700417;
  every other divisor has a dividend with a wrong quotient.  The comment in \<^verbatim>\<open>include/linux/reciprocal_div.h\<close> that
  \<open>A / B\<close> equals the product formula does not hold for them, and for the divisor 1 the reciprocal \<open>2\<^sup>3\<^sup>2\<close> is truncated
  to 0.\<close>

theorem reciprocal_divide_inexact:
  assumes "b \<noteq> 0"
  shows "(\<forall>a. reciprocal_divide a (reciprocal_value b) = a div b) \<longleftrightarrow>
     b \<noteq> 1 \<and> (unat b dvd 2 ^ 32 \<or> unat b dvd 2 ^ 32 + 1)"
proof (cases "b = 1")
  case True
  have "reciprocal_divide 1 (reciprocal_value 1) = 0" by (simp add: reciprocal_value_def reciprocal_divide_def)
  then have "reciprocal_divide 1 (reciprocal_value 1) \<noteq> 1 div 1" by simp
  then show ?thesis using True by blast
next
  case False
  let ?B = "unat b" and ?N = "2 ^ 32 :: nat"
  have "unat b \<noteq> 0" "unat b \<noteq> unat (1 :: u32)" using assms False by (simp_all only: unat_eq_zero word_unat_eq_iff [symmetric] not_False_eq_True)
  then have B: "2 \<le> ?B" and b: "2 \<le> b" by (simp_all add: word_le_nat_alt)
  obtain R e where R: "R * ?B = ?N + e" "e < ?B" and q: "\<And>a. unat (reciprocal_divide a (reciprocal_value b)) = unat a * R div ?N"
    using reciprocal_excess [OF b] by blast
  have small: "unat a < ?N" for a :: u32 by (rule unat_less)
  have exact: "reciprocal_divide a (reciprocal_value b) = a div b \<longleftrightarrow> unat a * e < (?B - unat a mod ?B) * ?N" for a
    using excess_exact [OF R(1) _ R(2) small, of a] B by (simp add: word_unat_eq_iff unat_div q)
  have "(\<forall>a. reciprocal_divide a (reciprocal_value b) = a div b) \<longleftrightarrow> e \<le> 1"
  proof
    assume "e \<le> 1"
    show "\<forall>a. reciprocal_divide a (reciprocal_value b) = a div b"
    proof
      fix a :: u32
      have one: "1 \<le> ?B - unat a mod ?B" using mod_less_divisor [of ?B "unat a"] B by linarith
      have "unat a * e \<le> unat a * 1" using \<open>e \<le> 1\<close> by (rule mult_le_mono2)
      also have "\<dots> < ?N" using small [of a] by simp
      also have "?N \<le> (?B - unat a mod ?B) * ?N" using one by simp
      finally show "reciprocal_divide a (reciprocal_value b) = a div b" by (simp only: exact)
    qed
  next
    assume all: "\<forall>a. reciprocal_divide a (reciprocal_value b) = a div b"
    show "e \<le> 1"
    proof (rule ccontr)
      assume "\<not> e \<le> 1"
      define a where "a = ?N div ?B * ?B - 1"
      obtain a1: "a < ?N" "2 ^ 31 \<le> a" "a mod ?B = ?B - 1" using last_multiple [OF B] small [of b] by (auto simp: a_def)
      have w: "unat (word_of_nat a :: u32) = a" using a1(1) by (simp add: unat_word_of_nat_small)
      have "a * e < (?B - (?B - 1)) * ?N" using all exact [of "word_of_nat a"] by (simp only: w a1(3) simp_thms)
      moreover have "2 ^ 31 * 2 \<le> a * e" using a1(2) \<open>\<not> e \<le> 1\<close> by (intro mult_le_mono) simp_all
      ultimately show False using B by simp
    qed
  qed
  then show ?thesis using False excess_dvd [OF R(1) B R(2)] by (auto simp: le_Suc_eq)
qed

theorem reciprocal_divide_inexact_witness:
  "(\<forall>a. reciprocal_divide a (reciprocal_value 641) = a div 641) \<and> \<not> (\<forall>a. reciprocal_divide a (reciprocal_value 7) = a div 7)"
  using reciprocal_divide_inexact [of 641] reciprocal_divide_inexact [of 7] by simp

end
