(* ===== verification/Packet_Filter.thy ===== *)
theory Packet_Filter
  imports Bpf_Insn Reciprocal_Div
begin

text \<open>
  The Berkeley packet filter of \<^verbatim>\<open>net/core/filter.c\<close>: the filter checker
  (\<^verbatim>\<open>sk_chk_filter\<close>, \<^verbatim>\<open>check_load_and_stores\<close>), the interpreter (\<^verbatim>\<open>sk_run_filter\<close>) with
  its packet, scratch-memory and netlink-attribute loads (the division by
  reciprocal it uses is in \<^verbatim>\<open>Reciprocal_Div\<close>).

  The interpreter does no bounds checks of its own on jumps or scratch memory: it relies
  on the checker.  The model makes every such access explicit (\<open>BadPc\<close>, \<open>OutOfBounds\<close>,
  \<open>UninitMem\<close>), so that the soundness of the checker is a theorem.
\<close>

unbundle bit_operations_syntax

section \<open>Packet loads\<close>

abbreviation (input) SKF_AD_OFF :: int where "SKF_AD_OFF \<equiv> - 0x1000"
abbreviation (input) SKF_NET_OFF :: int where "SKF_NET_OFF \<equiv> - 0x100000"
abbreviation (input) SKF_LL_OFF :: int where "SKF_LL_OFF \<equiv> - 0x200000"

text \<open>\<^verbatim>\<open>__load_pointer\<close>: loads relative to the network or link-layer header.  The NULL
  pointer with which the C function starts fails the comparison with \<^verbatim>\<open>skb->head\<close>.\<close>

definition load_pointer_slow :: "sk_buff \<Rightarrow> int \<Rightarrow> nat \<Rightarrow> fault + u8 list option" where
  "load_pointer_slow skb off sz =
     (let ptr = (if off \<ge> SKF_NET_OFF then network_header skb + word_of_int (off - SKF_NET_OFF)
                 else if off \<ge> SKF_LL_OFF then mac_header skb + word_of_int (off - SKF_LL_OFF)
                 else 0) in
      if ptr \<ge> sk_head skb \<and> ptr + word_of_nat sz \<le> skb_tail_pointer skb
      then (case mem_read skb ptr sz of Inl e \<Rightarrow> Inl e | Inr bs \<Rightarrow> Inr (Some bs))
      else Inr None)"

definition load_pointer :: "sk_buff \<Rightarrow> int \<Rightarrow> nat \<Rightarrow> fault + u8 list option" where
  "load_pointer skb off sz =
     (if off \<ge> 0 then skb_header_pointer skb off (int sz) else load_pointer_slow skb off sz)"

definition get_unaligned_be16 :: "u8 list \<Rightarrow> u32" where
  "get_unaligned_be16 p = push_bit 8 (ucast (p ! 0)) OR ucast (p ! 1)"

definition get_unaligned_be32 :: "u8 list \<Rightarrow> u32" where
  "get_unaligned_be32 p =
     push_bit 24 (ucast (p ! 0)) OR push_bit 16 (ucast (p ! 1)) OR
     push_bit 8 (ucast (p ! 2)) OR ucast (p ! 3)"

section \<open>Netlink attributes in the packet\<close>

text \<open>The two 16-bit header fields are in host (little-endian) order.\<close>

definition read_u16 :: "sk_buff \<Rightarrow> u32 \<Rightarrow> fault + u16" where
  "read_u16 skb p =
     (case mem_read skb p 2 of
        Inl e \<Rightarrow> Inl e | Inr bs \<Rightarrow> Inr (ucast (bs ! 0) OR push_bit 8 (ucast (bs ! 1))))"

definition nla_align :: "u16 \<Rightarrow> int" where
  "nla_align n = (uint n + 3) AND NOT 3"

definition nla_type :: "u16 \<Rightarrow> int" where
  "nla_type t = uint (t AND 0x3fff)"

lemma nla_align_bounds: "uint n \<le> nla_align n" "nla_align n \<le> uint n + 3"
proof -
  have "nla_align n = (uint n + 3) - (uint n + 3) mod 4"
    using and_not_mask_int [of "uint n + 3" 2] by (simp add: nla_align_def mask_eq_exp_minus_1)
  then show "uint n \<le> nla_align n" "nla_align n \<le> uint n + 3"
    by presburger+
qed

text \<open>\<^verbatim>\<open>nla_find\<close> with the loop \<^verbatim>\<open>nla_for_each_attr\<close>: \<^verbatim>\<open>nla_ok\<close> reads the length field only when
  at least a header remains.\<close>

function nla_find :: "sk_buff \<Rightarrow> u32 \<Rightarrow> int \<Rightarrow> int \<Rightarrow> fault + u32 option" where
  "nla_find skb nla rem attrtype =
     (if rem < 4 then Inr None
      else case read_u16 skb nla of
        Inl e \<Rightarrow> Inl e
      | Inr l \<Rightarrow>
         if uint l < 4 \<or> uint l > rem then Inr None
         else case read_u16 skb (nla + 2) of
           Inl e \<Rightarrow> Inl e
         | Inr t \<Rightarrow>
            if nla_type t = attrtype then Inr (Some nla)
            else nla_find skb (nla + word_of_int (nla_align l)) (rem - nla_align l) attrtype)"
  by pat_completeness auto
termination
proof (relation "measure (\<lambda>(skb, nla, rem, t). nat rem)", goal_cases)
  case (2 skb nla rem t l t')
  then show ?case using nla_align_bounds(1) [of l] by auto
qed simp

declare nla_find.simps [simp del]

text \<open>\<^verbatim>\<open>nla_find_nested\<close>: the attributes nested in the one at \<open>nla\<close>, whose length field is \<open>l\<close>.\<close>

definition nla_find_nested :: "sk_buff \<Rightarrow> u32 \<Rightarrow> u16 \<Rightarrow> int \<Rightarrow> fault + u32 option" where
  "nla_find_nested skb nla l attrtype = nla_find skb (nla + 4) (uint l - 4) attrtype"

section \<open>The interpreter\<close>

text \<open>Values the code takes from the machine: the processor number, and the result of a C shift
  by 32 or more, which the language leaves undefined.\<close>

record bpf_env =
  cpu :: u32
  shl_undefined :: "u32 \<Rightarrow> u32 \<Rightarrow> u32"
  shr_undefined :: "u32 \<Rightarrow> u32 \<Rightarrow> u32"

record bpf_state =
  fentry :: nat                 \<comment> \<open>index of the current instruction\<close>
  accu :: u32                   \<comment> \<open>\<^verbatim>\<open>A\<close>\<close>
  indx :: u32                   \<comment> \<open>\<^verbatim>\<open>X\<close>\<close>
  mem :: "u32 option list"      \<comment> \<open>\<^verbatim>\<open>mem[BPF_MEMWORDS]\<close>, \<open>None\<close> where nothing was stored\<close>

datatype outcome = Continue bpf_state | Return u32

definition BPF_MEMWORDS :: nat where "BPF_MEMWORDS = 16"
definition BPF_MAXINSNS :: nat where "BPF_MAXINSNS = 4096"

definition shl :: "bpf_env \<Rightarrow> u32 \<Rightarrow> u32 \<Rightarrow> u32" where
  "shl env a n = (if n < 32 then push_bit (unat n) a else shl_undefined env a n)"

definition shr :: "bpf_env \<Rightarrow> u32 \<Rightarrow> u32 \<Rightarrow> u32" where
  "shr env a n = (if n < 32 then drop_bit (unat n) a else shr_undefined env a n)"

text \<open>\<^verbatim>\<open>fentry += d\<close> and the loop's \<^verbatim>\<open>fentry++\<close>: pointers wrap at \<open>2\<^sup>3\<^sup>2\<close> bytes and an
  instruction has 8, so indices wrap at \<open>2\<^sup>2\<^sup>9\<close>.\<close>

definition goto :: "bpf_state \<Rightarrow> nat \<Rightarrow> fault + outcome" where
  "goto st d = Inr (Continue (st\<lparr>fentry := (fentry st + d + 1) mod 2 ^ 29\<rparr>))"

definition set_A :: "bpf_state \<Rightarrow> u32 \<Rightarrow> fault + outcome" where
  "set_A st v = goto (st\<lparr>accu := v\<rparr>) 0"

definition set_X :: "bpf_state \<Rightarrow> u32 \<Rightarrow> fault + outcome" where
  "set_X st v = goto (st\<lparr>indx := v\<rparr>) 0"

definition branch :: "sock_filter \<Rightarrow> bpf_state \<Rightarrow> bool \<Rightarrow> fault + outcome" where
  "branch f st c = goto st (unat (if c then sf_jt f else sf_jf f))"

text \<open>The labels \<^verbatim>\<open>load_w\<close>, \<^verbatim>\<open>load_h\<close> and \<^verbatim>\<open>load_b\<close>, which the absolute and the indexed loads share.\<close>

definition load_with :: "sk_buff \<Rightarrow> u32 \<Rightarrow> nat \<Rightarrow> (u8 list \<Rightarrow> fault + outcome) \<Rightarrow> fault + outcome" where
  "load_with skb off sz cont =
     (case load_pointer skb (sint off) sz of
        Inl e \<Rightarrow> Inl e
      | Inr None \<Rightarrow> Inr (Return 0)
      | Inr (Some bs) \<Rightarrow> cont bs)"

definition load_w :: "sk_buff \<Rightarrow> u32 \<Rightarrow> bpf_state \<Rightarrow> fault + outcome" where
  "load_w skb off st = load_with skb off 4 (\<lambda>bs. set_A st (get_unaligned_be32 bs))"

definition load_h :: "sk_buff \<Rightarrow> u32 \<Rightarrow> bpf_state \<Rightarrow> fault + outcome" where
  "load_h skb off st = load_with skb off 2 (\<lambda>bs. set_A st (get_unaligned_be16 bs))"

definition load_b :: "sk_buff \<Rightarrow> u32 \<Rightarrow> bpf_state \<Rightarrow> fault + outcome" where
  "load_b skb off st = load_with skb off 1 (\<lambda>bs. set_A st (ucast (bs ! 0)))"

definition ldx_msh :: "sk_buff \<Rightarrow> u32 \<Rightarrow> bpf_state \<Rightarrow> fault + outcome" where
  "ldx_msh skb off st = load_with skb off 1 (\<lambda>bs. set_X st (push_bit 2 (ucast (bs ! 0) AND 0xf)))"

text \<open>Scratch memory.\<close>

definition mem_load :: "bpf_state \<Rightarrow> u32 \<Rightarrow> fault + u32" where
  "mem_load st i =
     (if unat i < length (mem st)
      then (case mem st ! unat i of None \<Rightarrow> Inl UninitMem | Some v \<Rightarrow> Inr v)
      else Inl OutOfBounds)"

definition mem_store :: "bpf_state \<Rightarrow> u32 \<Rightarrow> u32 \<Rightarrow> fault + outcome" where
  "mem_store st i v =
     (if unat i < length (mem st) then goto (st\<lparr>mem := (mem st)[unat i := Some v]\<rparr>) 0
      else Inl OutOfBounds)"

text \<open>The netlink extensions.\<close>

definition nla_result :: "sk_buff \<Rightarrow> bpf_state \<Rightarrow> fault + u32 option \<Rightarrow> fault + outcome" where
  "nla_result skb st r =
     (case r of
        Inl e \<Rightarrow> Inl e
      | Inr None \<Rightarrow> set_A st 0
      | Inr (Some nla) \<Rightarrow> set_A st (nla - sk_data skb))"

definition anc_nlattr :: "sk_buff \<Rightarrow> bpf_state \<Rightarrow> fault + outcome" where
  "anc_nlattr skb st =
     (if skb_is_nonlinear skb then Inr (Return 0)
      else if accu st > sk_len skb - 4 then Inr (Return 0)
      else nla_result skb st
             (nla_find skb (sk_data skb + accu st) (sint (sk_len skb - accu st)) (sint (indx st))))"

definition anc_nlattr_nest :: "sk_buff \<Rightarrow> bpf_state \<Rightarrow> fault + outcome" where
  "anc_nlattr_nest skb st =
     (if skb_is_nonlinear skb then Inr (Return 0)
      else if accu st > sk_len skb - 4 then Inr (Return 0)
      else let nla = sk_data skb + accu st in
        case read_u16 skb nla of
          Inl e \<Rightarrow> Inl e
        | Inr l \<Rightarrow>
            if ucast l > accu st - sk_len skb then Inr (Return 0)
            else nla_result skb st (nla_find_nested skb nla l (sint (indx st))))"

definition bpf_exec :: "bpf_env \<Rightarrow> sk_buff \<Rightarrow> sock_filter \<Rightarrow> bpf_s \<Rightarrow> bpf_state \<Rightarrow> fault + outcome" where
  "bpf_exec env skb f c st =
     (let A = accu st; X = indx st; K = sf_k f in
      case c of
        BPF_S_ALU_ADD_X \<Rightarrow> set_A st (A + X)
      | BPF_S_ALU_ADD_K \<Rightarrow> set_A st (A + K)
      | BPF_S_ALU_SUB_X \<Rightarrow> set_A st (A - X)
      | BPF_S_ALU_SUB_K \<Rightarrow> set_A st (A - K)
      | BPF_S_ALU_MUL_X \<Rightarrow> set_A st (A * X)
      | BPF_S_ALU_MUL_K \<Rightarrow> set_A st (A * K)
      | BPF_S_ALU_DIV_X \<Rightarrow> (if X = 0 then Inr (Return 0) else set_A st (A div X))
      | BPF_S_ALU_DIV_K \<Rightarrow> set_A st (reciprocal_divide A K)
      | BPF_S_ALU_AND_X \<Rightarrow> set_A st (A AND X)
      | BPF_S_ALU_AND_K \<Rightarrow> set_A st (A AND K)
      | BPF_S_ALU_OR_X \<Rightarrow> set_A st (A OR X)
      | BPF_S_ALU_OR_K \<Rightarrow> set_A st (A OR K)
      | BPF_S_ALU_LSH_X \<Rightarrow> set_A st (shl env A X)
      | BPF_S_ALU_LSH_K \<Rightarrow> set_A st (shl env A K)
      | BPF_S_ALU_RSH_X \<Rightarrow> set_A st (shr env A X)
      | BPF_S_ALU_RSH_K \<Rightarrow> set_A st (shr env A K)
      | BPF_S_ALU_NEG \<Rightarrow> set_A st (- A)
      | BPF_S_JMP_JA \<Rightarrow> goto st (unat K)
      | BPF_S_JMP_JGT_K \<Rightarrow> branch f st (A > K)
      | BPF_S_JMP_JGE_K \<Rightarrow> branch f st (A \<ge> K)
      | BPF_S_JMP_JEQ_K \<Rightarrow> branch f st (A = K)
      | BPF_S_JMP_JSET_K \<Rightarrow> branch f st (A AND K \<noteq> 0)
      | BPF_S_JMP_JGT_X \<Rightarrow> branch f st (A > X)
      | BPF_S_JMP_JGE_X \<Rightarrow> branch f st (A \<ge> X)
      | BPF_S_JMP_JEQ_X \<Rightarrow> branch f st (A = X)
      | BPF_S_JMP_JSET_X \<Rightarrow> branch f st (A AND X \<noteq> 0)
      | BPF_S_LD_W_ABS \<Rightarrow> load_w skb K st
      | BPF_S_LD_H_ABS \<Rightarrow> load_h skb K st
      | BPF_S_LD_B_ABS \<Rightarrow> load_b skb K st
      | BPF_S_LD_W_LEN \<Rightarrow> set_A st (sk_len skb)
      | BPF_S_LDX_W_LEN \<Rightarrow> set_X st (sk_len skb)
      | BPF_S_LD_W_IND \<Rightarrow> load_w skb (X + K) st
      | BPF_S_LD_H_IND \<Rightarrow> load_h skb (X + K) st
      | BPF_S_LD_B_IND \<Rightarrow> load_b skb (X + K) st
      | BPF_S_LDX_B_MSH \<Rightarrow> ldx_msh skb K st
      | BPF_S_LD_IMM \<Rightarrow> set_A st K
      | BPF_S_LDX_IMM \<Rightarrow> set_X st K
      | BPF_S_LD_MEM \<Rightarrow> (case mem_load st K of Inl e \<Rightarrow> Inl e | Inr v \<Rightarrow> set_A st v)
      | BPF_S_LDX_MEM \<Rightarrow> (case mem_load st K of Inl e \<Rightarrow> Inl e | Inr v \<Rightarrow> set_X st v)
      | BPF_S_MISC_TAX \<Rightarrow> set_X st A
      | BPF_S_MISC_TXA \<Rightarrow> set_A st X
      | BPF_S_RET_K \<Rightarrow> Inr (Return K)
      | BPF_S_RET_A \<Rightarrow> Inr (Return A)
      | BPF_S_ST \<Rightarrow> mem_store st K A
      | BPF_S_STX \<Rightarrow> mem_store st K X
      | BPF_S_ANC_PROTOCOL \<Rightarrow> set_A st (ucast (protocol (sk_meta skb)))
      | BPF_S_ANC_PKTTYPE \<Rightarrow> set_A st (ucast (pkt_type (sk_meta skb)))
      | BPF_S_ANC_IFINDEX \<Rightarrow>
          (case dev (sk_meta skb) of None \<Rightarrow> Inr (Return 0) | Some d \<Rightarrow> set_A st (ifindex d))
      | BPF_S_ANC_MARK \<Rightarrow> set_A st (mark (sk_meta skb))
      | BPF_S_ANC_QUEUE \<Rightarrow> set_A st (ucast (queue_mapping (sk_meta skb)))
      | BPF_S_ANC_HATYPE \<Rightarrow>
          (case dev (sk_meta skb) of None \<Rightarrow> Inr (Return 0) | Some d \<Rightarrow> set_A st (ucast (dev_type d)))
      | BPF_S_ANC_RXHASH \<Rightarrow> set_A st (rxhash (sk_meta skb))
      | BPF_S_ANC_CPU \<Rightarrow> set_A st (cpu env)
      | BPF_S_ANC_NLATTR \<Rightarrow> anc_nlattr skb st
      | BPF_S_ANC_NLATTR_NEST \<Rightarrow> anc_nlattr_nest skb st)"

text \<open>One turn of the loop: fetch, decode (\<^verbatim>\<open>default\<close> returns 0), execute.  The loop itself is
  bounded by fuel; \<open>None\<close> is running out of it.\<close>

definition bpf_step :: "bpf_env \<Rightarrow> sk_buff \<Rightarrow> sock_filter list \<Rightarrow> bpf_state \<Rightarrow> fault + outcome" where
  "bpf_step env skb insns st =
     (if fentry st < length insns
      then let f = insns ! fentry st in
        (case bpf_s_of (sf_code f) of
           None \<Rightarrow> Inr (Return 0)
         | Some c \<Rightarrow> bpf_exec env skb f c st)
      else Inl BadPc)"

fun bpf_loop :: "nat \<Rightarrow> bpf_env \<Rightarrow> sk_buff \<Rightarrow> sock_filter list \<Rightarrow> bpf_state \<Rightarrow> (fault + u32) option" where
  "bpf_loop 0 env skb insns st = None"
| "bpf_loop (Suc fuel) env skb insns st =
     (case bpf_step env skb insns st of
        Inl e \<Rightarrow> Some (Inl e)
      | Inr (Return v) \<Rightarrow> Some (Inr v)
      | Inr (Continue st') \<Rightarrow> bpf_loop fuel env skb insns st')"

definition bpf_init :: bpf_state where
  "bpf_init = \<lparr>fentry = 0, accu = 0, indx = 0, mem = replicate BPF_MEMWORDS None\<rparr>"

definition sk_run_filter :: "nat \<Rightarrow> bpf_env \<Rightarrow> sk_buff \<Rightarrow> sock_filter list \<Rightarrow> (fault + u32) option" where
  "sk_run_filter fuel env skb insns = bpf_loop fuel env skb insns bpf_init"

section \<open>The checker\<close>

definition is_store :: "bpf_s \<Rightarrow> bool" where
  "is_store c \<longleftrightarrow> c = BPF_S_ST \<or> c = BPF_S_STX"

definition is_mem_load :: "bpf_s \<Rightarrow> bool" where
  "is_mem_load c \<longleftrightarrow> c = BPF_S_LD_MEM \<or> c = BPF_S_LDX_MEM"

definition is_cond_jump :: "bpf_s \<Rightarrow> bool" where
  "is_cond_jump c \<longleftrightarrow> c \<in> {BPF_S_JMP_JEQ_K, BPF_S_JMP_JEQ_X, BPF_S_JMP_JGE_K, BPF_S_JMP_JGE_X,
     BPF_S_JMP_JGT_K, BPF_S_JMP_JGT_X, BPF_S_JMP_JSET_X, BPF_S_JMP_JSET_K}"

text \<open>The loop of \<^verbatim>\<open>check_load_and_stores\<close> from index \<open>pc\<close> on; bit \<open>i\<close> of \<open>memvalid\<close> says that
  \<^verbatim>\<open>mem[i]\<close> has been stored on every path to \<open>pc\<close>.\<close>

fun check_ls_loop :: "sock_filter list \<Rightarrow> nat \<Rightarrow> u16 \<Rightarrow> u16 list \<Rightarrow> unit kres" where
  "check_ls_loop [] pc memvalid masks = Inr ()"
| "check_ls_loop (f # fs) pc memvalid masks =
     (let memvalid = memvalid AND masks ! pc in
      case bpf_s_of (sf_code f) of
        None \<Rightarrow> check_ls_loop fs (Suc pc) memvalid masks
      | Some c \<Rightarrow>
          if is_store c then
            check_ls_loop fs (Suc pc) (memvalid OR push_bit (unat (sf_k f)) 1) masks
          else if is_mem_load c then
            (if memvalid AND push_bit (unat (sf_k f)) 1 = 0 then Inl EINVAL
             else check_ls_loop fs (Suc pc) memvalid masks)
          else if c = BPF_S_JMP_JA then
            (let t = pc + 1 + unat (sf_k f) in
             check_ls_loop fs (Suc pc) (-1) (masks[t := masks ! t AND memvalid]))
          else if is_cond_jump c then
            (let t = pc + 1 + unat (sf_jt f); masks = masks[t := masks ! t AND memvalid];
                 e = pc + 1 + unat (sf_jf f); masks = masks[e := masks ! e AND memvalid] in
             check_ls_loop fs (Suc pc) (-1) masks)
          else check_ls_loop fs (Suc pc) memvalid masks)"

text \<open>\<open>kmalloc_ok\<close> tells whether the allocation of \<^verbatim>\<open>masks\<close> succeeds.\<close>

definition check_load_and_stores :: "bool \<Rightarrow> sock_filter list \<Rightarrow> unit kres" where
  "check_load_and_stores kmalloc_ok insns =
     (if \<not> kmalloc_ok then Inl ENOMEM
      else check_ls_loop insns 0 0 (replicate (length insns) (-1)))"

text \<open>The switch on \<^verbatim>\<open>ftest->k\<close> that recognises ancillary loads.\<close>

definition ancillary :: "u32 \<Rightarrow> bpf_s option" where
  "ancillary n = map_of
     [(word_of_int (SKF_AD_OFF + 0), BPF_S_ANC_PROTOCOL), (word_of_int (SKF_AD_OFF + 4), BPF_S_ANC_PKTTYPE),
      (word_of_int (SKF_AD_OFF + 8), BPF_S_ANC_IFINDEX), (word_of_int (SKF_AD_OFF + 12), BPF_S_ANC_NLATTR),
      (word_of_int (SKF_AD_OFF + 16), BPF_S_ANC_NLATTR_NEST), (word_of_int (SKF_AD_OFF + 20), BPF_S_ANC_MARK),
      (word_of_int (SKF_AD_OFF + 24), BPF_S_ANC_QUEUE), (word_of_int (SKF_AD_OFF + 28), BPF_S_ANC_HATYPE),
      (word_of_int (SKF_AD_OFF + 32), BPF_S_ANC_RXHASH), (word_of_int (SKF_AD_OFF + 36), BPF_S_ANC_CPU)] n"

text \<open>\<^verbatim>\<open>ARRAY_SIZE(codes)\<close>: one more than the largest designated index.\<close>

definition codes_size :: u16 where
  "codes_size = fold (\<lambda>(c, _) m. max m c) codes 0 + 1"

text \<open>The body of the checking loop for the instruction at \<open>pc\<close>, returning the rewritten
  instruction.\<close>

definition chk_insn :: "nat \<Rightarrow> nat \<Rightarrow> sock_filter \<Rightarrow> sock_filter kres" where
  "chk_insn flen pc ftest =
     (if sf_code ftest \<ge> codes_size then Inl EINVAL
      else case map_of codes (sf_code ftest) of
        None \<Rightarrow> Inl EINVAL
      | Some c \<Rightarrow>
          if c = BPF_S_ALU_DIV_K then
            (if sf_k ftest = 0 then Inl EINVAL
             else Inr (ftest\<lparr>sf_k := reciprocal_value (sf_k ftest), sf_code := bpf_s_num c\<rparr>))
          else if is_mem_load c \<or> is_store c then
            (if unat (sf_k ftest) \<ge> BPF_MEMWORDS then Inl EINVAL
             else Inr (ftest\<lparr>sf_code := bpf_s_num c\<rparr>))
          else if c = BPF_S_JMP_JA then
            (if sf_k ftest \<ge> word_of_int (int flen - int pc - 1) then Inl EINVAL
             else Inr (ftest\<lparr>sf_code := bpf_s_num c\<rparr>))
          else if is_cond_jump c then
            (if pc + unat (sf_jt ftest) + 1 \<ge> flen \<or> pc + unat (sf_jf ftest) + 1 \<ge> flen then Inl EINVAL
             else Inr (ftest\<lparr>sf_code := bpf_s_num c\<rparr>))
          else if c = BPF_S_LD_W_ABS \<or> c = BPF_S_LD_H_ABS \<or> c = BPF_S_LD_B_ABS then
            Inr (ftest\<lparr>sf_code := bpf_s_num (case ancillary (sf_k ftest) of None \<Rightarrow> c | Some c' \<Rightarrow> c')\<rparr>)
          else Inr (ftest\<lparr>sf_code := bpf_s_num c\<rparr>))"

fun chk_loop :: "nat \<Rightarrow> nat \<Rightarrow> sock_filter list \<Rightarrow> sock_filter list kres" where
  "chk_loop flen pc [] = Inr []"
| "chk_loop flen pc (f # fs) =
     (case chk_insn flen pc f of
        Inl e \<Rightarrow> Inl e
      | Inr f' \<Rightarrow> (case chk_loop flen (Suc pc) fs of Inl e \<Rightarrow> Inl e | Inr fs' \<Rightarrow> Inr (f' # fs')))"

text \<open>\<^verbatim>\<open>sk_chk_filter\<close>: an error, or the filter as rewritten in place.\<close>

definition sk_chk_filter :: "bool \<Rightarrow> sock_filter list \<Rightarrow> sock_filter list kres" where
  "sk_chk_filter kmalloc_ok insns =
     (let flen = length insns in
      if flen = 0 \<or> flen > BPF_MAXINSNS then Inl EINVAL
      else case chk_loop flen 0 insns of
        Inl e \<Rightarrow> Inl e
      | Inr insns' \<Rightarrow>
         (let c = bpf_s_of (sf_code (insns' ! (flen - 1))) in
          if c = Some BPF_S_RET_K \<or> c = Some BPF_S_RET_A
          then (case check_load_and_stores kmalloc_ok insns' of
                  Inl e \<Rightarrow> Inl e | Inr _ \<Rightarrow> Inr insns')
          else Inl EINVAL))"

end
