(* ===== verification/Packet_Filter_Safety.thy ===== *)
theory Packet_Filter_Safety
  imports Packet_Filter
begin

text \<open>
  Soundness of the filter checker: a filter that \<^const>\<open>sk_chk_filter\<close> accepts runs to a
  return value, without leaving its instructions, its scratch memory or the packet, on
  every packet for which the netlink extensions are harmless; and the two cases in which
  they are not.
\<close>

unbundle bit_operations_syntax

section \<open>Packet accesses do not fault\<close>

definition headers_wf :: "sk_buff \<Rightarrow> bool" where
  "headers_wf s \<longleftrightarrow>
     network_header s \<le> skb_tail_pointer s \<and> mac_header s \<le> skb_tail_pointer s"

lemma header_offset_in_area:
  assumes wf: "skb_wf s" and hdr: "hp \<le> skb_tail_pointer s"
    and off: "0 \<le> d" "d < 0x100000" and n: "n \<le> 4"
    and lo: "sk_head s \<le> hp + word_of_int d"
    and hi: "hp + word_of_int d + word_of_nat n \<le> skb_tail_pointer s"
  shows "unat (hp + word_of_int d) + n \<le> unat (sk_head s) + length (sk_lin s)"
proof -
  note top = skb_wfD(1) [OF wf] and tail = unat_tail_pointer [OF wf]
  have d: "unat (word_of_int d :: u32) = nat d"
    using off by (subst unat_eq_nat_uint) (simp add: uint_word_of_int_eq take_bit_int_eq_self)
  have n': "unat (word_of_nat n :: u32) = n"
    using n by (intro unat_word_of_nat_small) simp
  have "unat hp + nat d < 2 ^ LENGTH(32)"
    using hdr top tail off by (simp add: word_le_nat_alt)
  then have u: "unat (hp + word_of_int d) = unat hp + nat d"
    using d by (subst unat_add_no_wrap) simp_all
  have "unat (hp + word_of_int d) + n < 2 ^ LENGTH(32)"
    using hdr top tail off n u by (simp add: word_le_nat_alt)
  then have "unat (hp + word_of_int d + word_of_nat n) = unat (hp + word_of_int d) + n"
    using n' by (subst unat_add_no_wrap) simp_all
  with hi tail show ?thesis by (simp add: word_le_nat_alt)
qed

lemma load_pointer_slow_safe:
  assumes "skb_wf s" and "headers_wf s" and "off < 0" and "n \<le> 4"
  shows "\<exists>r. load_pointer_slow s off n = Inr r"
proof -
  define ptr where "ptr = (if off \<ge> SKF_NET_OFF then network_header s + word_of_int (off - SKF_NET_OFF)
                 else if off \<ge> SKF_LL_OFF then mac_header s + word_of_int (off - SKF_LL_OFF) else 0)"
  have "\<exists>bs. mem_read s ptr n = Inr bs"
    if lo: "sk_head s \<le> ptr" and hi: "ptr + word_of_nat n \<le> skb_tail_pointer s"
  proof -
    have "unat ptr + n \<le> unat (sk_head s) + length (sk_lin s)"
    proof (cases "off \<ge> SKF_NET_OFF")
      case True
      then show ?thesis
        using header_offset_in_area [OF assms(1), of "network_header s" "off - SKF_NET_OFF" n]
          assms lo hi by (simp add: ptr_def headers_wf_def)
    next
      case net: False
      show ?thesis
      proof (cases "off \<ge> SKF_LL_OFF")
        case True
        then show ?thesis
          using header_offset_in_area [OF assms(1), of "mac_header s" "off - SKF_LL_OFF" n] net
            assms lo hi by (simp add: ptr_def headers_wf_def)
      next
        case False
        then have p: "ptr = 0" using net by (simp add: ptr_def)
        then have "unat (sk_head s) = 0" using lo by simp
        moreover have "unat (word_of_nat n :: u32) = n"
          using assms(4) by (intro unat_word_of_nat_small) simp
        ultimately show ?thesis
          using hi p unat_tail_pointer [OF assms(1)] by (simp add: word_le_nat_alt)
      qed
    qed
    then show ?thesis using mem_read_ok [OF lo] by blast
  qed
  then show ?thesis
    unfolding load_pointer_slow_def ptr_def [symmetric] by (auto simp: Let_def)
qed

lemma load_pointer_safe:
  assumes "skb_wf s" and "headers_wf s" and "0 < n" and "n \<le> 4"
  shows "\<exists>r. load_pointer s off n = Inr r"
proof (cases "off \<ge> 0")
  case True
  then obtain i where "off = int i" by (metis nat_0_le)
  then show ?thesis
    using skb_header_pointer_correct [OF assms(1,3), of i] by (simp add: load_pointer_def)
next
  case False
  then show ?thesis
    using load_pointer_slow_safe [OF assms(1,2) _ assms(4), of off] by (simp add: load_pointer_def)
qed

lemma read_u16_safe:
  assumes "sk_head s \<le> p" and "unat p + 2 \<le> unat (sk_head s) + length (sk_lin s)"
  shows "\<exists>v. read_u16 s p = Inr v"
  using mem_read_ok [OF assms] by (auto simp: read_u16_def)

lemma unat_add_word_of_int:
  fixes p :: u32
  assumes "0 \<le> d" and "unat p + nat d < 2 ^ 32"
  shows "unat (p + word_of_int d) = unat p + nat d"
proof -
  have "nat d < 2 ^ 32" using assms(2) by linarith
  then have "d < 2 ^ 32" using assms(1) by (simp add: nat_less_iff)
  then have "unat (word_of_int d :: u32) = nat d"
    using assms(1) by (subst unat_eq_nat_uint) (simp add: uint_word_of_int_eq take_bit_int_eq_self)
  with assms(2) show ?thesis by (subst unat_add_no_wrap) simp_all
qed

lemma nla_find_safe:
  assumes "unat (sk_head s) + length (sk_lin s) < 2 ^ 32"
    and "4 \<le> rem \<Longrightarrow> sk_head s \<le> p \<and> unat p + nat rem \<le> unat (sk_head s) + length (sk_lin s)"
  shows "\<exists>r. nla_find s p rem t = Inr r"
  using assms
proof (induction s p rem t rule: nla_find.induct)
  case (1 s p rem t)
  let ?limit = "unat (sk_head s) + length (sk_lin s)"
  show ?case
  proof (cases "rem < 4")
    case True
    then show ?thesis by (simp add: nla_find.simps [of s p rem t])
  next
    case rem: False
    then have p: "sk_head s \<le> p" "unat p + nat rem \<le> ?limit" using "1.prems"(2) by auto
    have u: "unat (p + word_of_int d) = unat p + nat d" if "0 \<le> d" "d \<le> rem" for d
      using that p(2) "1.prems"(1) rem by (intro unat_add_word_of_int) auto
    obtain l where l: "read_u16 s p = Inr l"
      using read_u16_safe [OF p(1)] p(2) rem by fastforce
    have "sk_head s \<le> p + 2" "unat (p + 2) + 2 \<le> ?limit"
      using u [of 2] p rem by (auto simp: word_le_nat_alt)
    then obtain t' where t': "read_u16 s (p + 2) = Inr t'"
      using read_u16_safe by blast
    show ?thesis
    proof (cases "(uint l < 4 \<or> uint l > rem) \<or> nla_type t' = t")
      case True
      then show ?thesis using rem l t' by (auto simp: nla_find.simps [of s p rem t])
    next
      case False
      have "\<exists>r. nla_find s (p + word_of_int (nla_align l)) (rem - nla_align l) t = Inr r"
      proof (rule "1.IH" [OF rem l _ t'])
        assume "4 \<le> rem - nla_align l"
        moreover have "0 \<le> nla_align l" using nla_align_bounds(1) [of l] uint_ge_0 [of l] by linarith
        ultimately show "sk_head s \<le> p + word_of_int (nla_align l) \<and>
            unat (p + word_of_int (nla_align l)) + nat (rem - nla_align l) \<le> ?limit"
          using u [of "nla_align l"] p by (auto simp: word_le_nat_alt)
      qed (use False "1.prems"(1) in auto)
      then show ?thesis using rem l t' False by (simp add: nla_find.simps [of s p rem t])
    qed
  qed
qed

lemma anc_nlattr_safe:
  assumes wf: "skb_wf s" and len: "4 \<le> sk_len s"
  shows "\<exists>r. anc_nlattr s st = Inr (Return 0) \<or> anc_nlattr s st = set_A st r"
proof (cases "skb_is_nonlinear s \<or> accu st > sk_len s - 4")
  case True
  then show ?thesis by (auto simp: anc_nlattr_def)
next
  case False
  note top = skb_wfD(1) [OF wf] and lay = skb_wfD(2,3,5,6) [OF wf]
  have dl: "unat (sk_data_len s) = 0" using False by (simp add: skb_is_nonlinear_def)
  have l4: "unat (sk_len s - 4) = unat (sk_len s) - 4" using len by (simp add: unat_sub_no_wrap)
  have a: "unat (accu st) + 4 \<le> unat (sk_len s)"
    using False l4 len by (auto simp: word_le_nat_alt not_less)
  have ula: "unat (sk_len s - accu st) = unat (sk_len s) - unat (accu st)"
    using a by (intro unat_sub_no_wrap) (simp add: word_le_nat_alt)
  have ud: "unat (sk_data s + accu st) = unat (sk_data s) + unat (accu st)"
    using a lay dl top by (intro unat_add_no_wrap) simp
  have sl: "sint (sk_len s - accu st) = int (unat (sk_len s) - unat (accu st))"
    using ula lay(4) by (subst sint_small) simp_all
  have "\<exists>r. nla_find s (sk_data s + accu st) (sint (sk_len s - accu st)) (sint (indx st)) = Inr r"
  proof (rule nla_find_safe)
    show "unat (sk_head s) + length (sk_lin s) < 2 ^ 32" using top by linarith
    have "sk_head s \<le> sk_data s + accu st" unfolding word_le_nat_alt ud using lay by linarith
    moreover have "unat (sk_data s) + unat (accu st) + (unat (sk_len s) - unat (accu st))
        \<le> unat (sk_head s) + length (sk_lin s)" using a lay dl by linarith
    ultimately show "sk_head s \<le> sk_data s + accu st \<and>
        unat (sk_data s + accu st) + nat (sint (sk_len s - accu st)) \<le> unat (sk_head s) + length (sk_lin s)"
      unfolding sl ud nat_int by blast
  qed
  then show ?thesis
    using False by (auto simp: anc_nlattr_def nla_result_def split: option.splits)
qed

section \<open>What the checker establishes\<close>

text \<open>The facts about one rewritten instruction that the first loop of \<^const>\<open>sk_chk_filter\<close>
  guarantees.\<close>

definition insn_ok :: "nat \<Rightarrow> nat \<Rightarrow> sock_filter \<Rightarrow> bool" where
  "insn_ok n pc f \<longleftrightarrow>
     (\<exists>c. bpf_s_of (sf_code f) = Some c \<and>
        (is_mem_load c \<or> is_store c \<longrightarrow> unat (sf_k f) < BPF_MEMWORDS) \<and>
        (c = BPF_S_JMP_JA \<longrightarrow> pc + 1 + unat (sf_k f) < n) \<and>
        (is_cond_jump c \<longrightarrow> pc + 1 + unat (sf_jt f) < n \<and> pc + 1 + unat (sf_jf f) < n))"

lemma ancillary_class:
  assumes "ancillary v = Some c"
  shows "\<not> is_mem_load c" "\<not> is_store c" "c \<noteq> BPF_S_JMP_JA" "\<not> is_cond_jump c"
proof -
  have "c \<in> {BPF_S_ANC_PROTOCOL, BPF_S_ANC_PKTTYPE, BPF_S_ANC_IFINDEX, BPF_S_ANC_NLATTR,
      BPF_S_ANC_NLATTR_NEST, BPF_S_ANC_MARK, BPF_S_ANC_QUEUE, BPF_S_ANC_HATYPE,
      BPF_S_ANC_RXHASH, BPF_S_ANC_CPU}"
    using map_of_SomeD [OF assms [unfolded ancillary_def]] by auto
  then show "\<not> is_mem_load c" "\<not> is_store c" "c \<noteq> BPF_S_JMP_JA" "\<not> is_cond_jump c"
    by (auto simp: is_mem_load_def is_store_def is_cond_jump_def)
qed

lemma chk_insn_ok:
  assumes chk: "chk_insn n pc f = Inr f'" and pc: "pc < n" and n: "n \<le> BPF_MAXINSNS"
  shows "insn_ok n pc f'"
proof -
  obtain c where c: "map_of codes (sf_code f) = Some c" "\<not> sf_code f \<ge> codes_size"
    using chk by (auto simp: chk_insn_def split: if_splits option.splits)
  consider "c = BPF_S_ALU_DIV_K" | "is_mem_load c \<or> is_store c" | "c = BPF_S_JMP_JA" | "is_cond_jump c"
    | "c = BPF_S_LD_W_ABS \<or> c = BPF_S_LD_H_ABS \<or> c = BPF_S_LD_B_ABS"
    | "c \<noteq> BPF_S_ALU_DIV_K" "\<not> is_mem_load c" "\<not> is_store c" "c \<noteq> BPF_S_JMP_JA" "\<not> is_cond_jump c"
      "\<not> (c = BPF_S_LD_W_ABS \<or> c = BPF_S_LD_H_ABS \<or> c = BPF_S_LD_B_ABS)"
    by blast
  then show ?thesis
  proof cases
    case 3
    have "int n - int pc - 1 = int (n - pc - 1)" using pc by simp
    then have "unat (word_of_int (int n - int pc - 1) :: u32) = unat (word_of_nat (n - pc - 1) :: u32)"
      by (simp only: of_int_of_nat_eq)
    also have "\<dots> = n - pc - 1"
      using n by (intro unat_word_of_nat_small) (simp add: BPF_MAXINSNS_def)
    finally have "unat (word_of_int (int n - int pc - 1) :: u32) = n - pc - 1" .
    then show ?thesis
      using chk c 3 pc
      by (auto simp: chk_insn_def insn_ok_def is_mem_load_def is_store_def is_cond_jump_def
          word_le_nat_alt not_le split: if_splits)
  next
    case 5
    define c' where "c' = (case ancillary (sf_k f) of None \<Rightarrow> c | Some c' \<Rightarrow> c')"
    have "f' = f\<lparr>sf_code := bpf_s_num c'\<rparr>"
      using chk c 5 by (auto simp: chk_insn_def is_mem_load_def is_store_def is_cond_jump_def c'_def)
    moreover have "\<not> is_mem_load c'" "\<not> is_store c'" "c' \<noteq> BPF_S_JMP_JA" "\<not> is_cond_jump c'"
      using 5 ancillary_class [of "sf_k f"] unfolding c'_def
      by (cases "ancillary (sf_k f)"; auto simp: is_mem_load_def is_store_def is_cond_jump_def)+
    ultimately show ?thesis by (simp add: insn_ok_def)
  qed (use chk c in \<open>auto simp: chk_insn_def insn_ok_def is_mem_load_def is_store_def
          is_cond_jump_def not_le split: if_splits\<close>)
qed

lemma chk_loop_ok:
  assumes "chk_loop n pc fs = Inr fs'" and "pc + length fs = n" and "n \<le> BPF_MAXINSNS"
  shows "length fs' = length fs \<and> (\<forall>i < length fs'. insn_ok n (pc + i) (fs' ! i))"
  using assms
proof (induction fs arbitrary: pc fs')
  case Nil
  then show ?case by simp
next
  case (Cons f fs)
  then obtain f' gs where f': "chk_insn n pc f = Inr f'" and gs: "chk_loop n (Suc pc) fs = Inr gs"
    and eq: "fs' = f' # gs" by (auto split: sum.splits)
  have "insn_ok n pc f'" using chk_insn_ok [OF f'] Cons.prems by simp
  moreover have "length gs = length fs \<and> (\<forall>i < length gs. insn_ok n (Suc pc + i) (gs ! i))"
    using Cons.IH [OF gs] Cons.prems by simp
  ultimately show ?case unfolding eq by (auto simp: nth_Cons split: nat.splits)
qed

text \<open>A certificate that \<^const>\<open>check_ls_loop\<close> computes: for every instruction the set of scratch
  cells, as a bit mask, that are stored on all paths to it.\<close>

definition below :: "u16 \<Rightarrow> u16 \<Rightarrow> bool" where
  "below a b \<longleftrightarrow> (\<forall>i. bit a i \<longrightarrow> bit b i)"

lemma below_refl [simp]: "below a a" by (simp add: below_def)
lemma below_and [simp]: "below a (b AND c) \<longleftrightarrow> below a b \<and> below a c"
  by (auto simp: below_def bit_simps)
lemma below_zero [simp]: "below 0 a" by (simp add: below_def)
lemma below_and_left: "below a c \<Longrightarrow> below (a AND b) c" "below b c \<Longrightarrow> below (a AND b) c"
  by (auto simp: below_def bit_simps)

definition flow_ok :: "(nat \<Rightarrow> u16) \<Rightarrow> nat \<Rightarrow> sock_filter \<Rightarrow> bool" where
  "flow_ok V pc f \<longleftrightarrow>
     (case bpf_s_of (sf_code f) of
        None \<Rightarrow> True
      | Some c \<Rightarrow>
          if is_store c then below (V (Suc pc)) (V pc OR push_bit (unat (sf_k f)) 1)
          else if is_mem_load c then bit (V pc) (unat (sf_k f)) \<and> below (V (Suc pc)) (V pc)
          else if c = BPF_S_JMP_JA then below (V (pc + 1 + unat (sf_k f))) (V pc)
          else if is_cond_jump c then
            below (V (pc + 1 + unat (sf_jt f))) (V pc) \<and> below (V (pc + 1 + unat (sf_jf f))) (V pc)
          else below (V (Suc pc)) (V pc))"

lemma flow_ok_upd:
  assumes "flow_ok V j f" and "pc < j"
  shows "flow_ok (V(pc := v)) j f"
  using assms by (auto simp: flow_ok_def split: option.splits if_splits)

lemma check_ls_loop_cert:
  assumes "check_ls_loop fs pc memvalid masks = Inr ()"
    and "length masks = pc + length fs"
    and "\<forall>i < length fs. insn_ok (length masks) (pc + i) (fs ! i)"
  shows "\<exists>V. below (V pc) memvalid \<and>
     (\<forall>j. pc \<le> j \<and> j < length masks \<longrightarrow> below (V j) (masks ! j)) \<and>
     (\<forall>i < length fs. flow_ok V (pc + i) (fs ! i))"
  using assms
proof (induction fs arbitrary: pc memvalid masks)
  case Nil
  show ?case by (rule exI [of _ "\<lambda>_. 0"]) simp
next
  case (Cons f fs)
  define mv where "mv = memvalid AND masks ! pc"
  have ok: "insn_ok (length masks) pc f"
    using Cons.prems(3) by force
  have oks: "\<forall>i < length fs. insn_ok (length masks) (Suc pc + i) (fs ! i)"
    using Cons.prems(3) by force
  obtain c where c: "bpf_s_of (sf_code f) = Some c" using ok by (auto simp: insn_ok_def)
  have step: "\<exists>V. below (V pc) memvalid \<and>
     (\<forall>j. pc \<le> j \<and> j < length masks \<longrightarrow> below (V j) (masks ! j)) \<and>
     (\<forall>i < length (f # fs). flow_ok V (pc + i) ((f # fs) ! i))"
    if run: "check_ls_loop fs (Suc pc) mv' masks' = Inr ()" and len: "length masks' = length masks"
      and mono: "\<forall>j. pc < j \<longrightarrow> below (masks' ! j) (masks ! j)"
      and flow: "\<And>V. below (V (Suc pc)) mv' \<Longrightarrow> V pc = mv \<Longrightarrow>
         (\<forall>j. Suc pc \<le> j \<and> j < length masks \<longrightarrow> below (V j) (masks' ! j)) \<Longrightarrow> flow_ok V pc f"
    for mv' masks'
  proof -
    obtain V where V: "below (V (Suc pc)) mv'"
      "\<forall>j. Suc pc \<le> j \<and> j < length masks \<longrightarrow> below (V j) (masks' ! j)"
      "\<forall>i < length fs. flow_ok V (Suc pc + i) (fs ! i)"
      using Cons.IH [OF run] Cons.prems(2) len oks by auto
    let ?V = "V(pc := mv)"
    have "flow_ok ?V pc f" using flow [of ?V] V(1,2) by simp
    moreover have "\<forall>i < length fs. flow_ok ?V (Suc pc + i) (fs ! i)"
      using V(3) by (auto intro!: flow_ok_upd)
    ultimately have "\<forall>i < length (f # fs). flow_ok ?V (pc + i) ((f # fs) ! i)"
      by (auto simp: nth_Cons split: nat.splits)
    moreover have "\<forall>j. pc \<le> j \<and> j < length masks \<longrightarrow> below (?V j) (masks ! j)"
      using V(2) mono by (auto simp: mv_def below_and_left) (auto simp: below_def)
    moreover have "below (?V pc) memvalid" by (simp add: mv_def below_and_left)
    ultimately show ?thesis by blast
  qed
  have pc: "pc < length masks" using Cons.prems(2) by simp
  note run = Cons.prems(1) [unfolded check_ls_loop.simps Let_def c option.case, folded mv_def]
  consider (st) "is_store c" | (ld) "\<not> is_store c" "is_mem_load c"
    | (ja) "\<not> is_store c" "\<not> is_mem_load c" "c = BPF_S_JMP_JA"
    | (cj) "\<not> is_store c" "\<not> is_mem_load c" "c \<noteq> BPF_S_JMP_JA" "is_cond_jump c"
    | (other) "\<not> is_store c" "\<not> is_mem_load c" "c \<noteq> BPF_S_JMP_JA" "\<not> is_cond_jump c"
    by blast
  then show ?case
  proof cases
    case st
    then show ?thesis using run c by (intro step) (auto simp: flow_ok_def)
  next
    case ld
    then show ?thesis
      using run c by (intro step) (auto simp: flow_ok_def and_exp_eq_0_iff_not_bit split: if_splits)
  next
    case ja
    define t where "t = pc + 1 + unat (sf_k f)"
    have t: "t < length masks" using ok c ja by (auto simp: insn_ok_def t_def)
    show ?thesis
    proof (rule step [where masks' = "masks[t := masks ! t AND mv]"])
      show "check_ls_loop fs (Suc pc) (-1) (masks[t := masks ! t AND mv]) = Inr ()"
        using run ja by (simp add: t_def is_store_def is_mem_load_def)
      show "\<forall>j>pc. below (masks[t := masks ! t AND mv] ! j) (masks ! j)"
        using t by (auto simp: nth_list_update below_and_left)
      fix V assume eq: "V pc = mv"
        and V: "\<forall>j. Suc pc \<le> j \<and> j < length masks \<longrightarrow> below (V j) (masks[t := masks ! t AND mv] ! j)"
      have "Suc pc \<le> t" by (simp add: t_def)
      with V t have "below (V t) (masks[t := masks ! t AND mv] ! t)" by blast
      then have "below (V t) (V pc)" using t eq by simp
      then show "flow_ok V pc f" using c ja by (simp add: flow_ok_def t_def)
    qed simp
  next
    case cj
    define t e where "t = pc + 1 + unat (sf_jt f)" and "e = pc + 1 + unat (sf_jf f)"
    have te: "t < length masks" "e < length masks" "pc < t" "pc < e"
      using ok c cj by (auto simp: insn_ok_def t_def e_def)
    define m1 where "m1 = masks[t := masks ! t AND mv]"
    define m2 where "m2 = m1[e := m1 ! e AND mv]"
    have m1: "below (m1 ! j) (masks ! j)" for j
      using te by (auto simp: m1_def nth_list_update below_and_left)
    have m2: "below (m2 ! j) (m1 ! j)" for j
      using te by (auto simp: m1_def m2_def nth_list_update below_and_left)
    show ?thesis
    proof (rule step [where masks' = m2])
      show "check_ls_loop fs (Suc pc) (-1) m2 = Inr ()"
        using run cj by (simp add: t_def e_def m1_def m2_def)
      show "length m2 = length masks" by (simp add: m1_def m2_def)
      show "\<forall>j>pc. below (m2 ! j) (masks ! j)"
        using m1 m2 by (auto simp: below_def)
      fix V assume eq: "V pc = mv"
        and V: "\<forall>j. Suc pc \<le> j \<and> j < length masks \<longrightarrow> below (V j) (m2 ! j)"
      have "below (V t) (m2 ! t)" "below (V e) (m2 ! e)" using V te by auto
      moreover have "below (m2 ! t) mv" "below (m2 ! e) mv"
        using te m2 [of t] by (auto simp: m1_def m2_def nth_list_update below_and_left)
      ultimately have "below (V t) (V pc)" "below (V e) (V pc)" unfolding eq by (auto simp: below_def)
      then show "flow_ok V pc f" using c cj by (simp add: flow_ok_def t_def e_def)
    qed
  next
    case other
    then show ?thesis using run c by (intro step) (auto simp: flow_ok_def)
  qed
qed

section \<open>One step of an accepted filter\<close>

text \<open>The netlink extensions read the packet without a sufficient check of their own: the nested
  search is excluded, the plain search needs a packet of at least one attribute header.\<close>

definition nla_harmless :: "sk_buff \<Rightarrow> sock_filter list \<Rightarrow> bool" where
  "nla_harmless skb insns \<longleftrightarrow>
     (\<forall>f \<in> set insns. bpf_s_of (sf_code f) \<noteq> Some BPF_S_ANC_NLATTR_NEST \<and>
        (bpf_s_of (sf_code f) = Some BPF_S_ANC_NLATTR \<longrightarrow> 4 \<le> sk_len skb))"

locale checked_filter =
  fixes insns :: "sock_filter list" and V :: "nat \<Rightarrow> u16"
  assumes size_ok: "length insns \<le> BPF_MAXINSNS"
    and insns_ok: "\<And>pc. pc < length insns \<Longrightarrow> insn_ok (length insns) pc (insns ! pc)"
    and flows_ok: "\<And>pc. pc < length insns \<Longrightarrow> flow_ok V pc (insns ! pc)"
    and ends_ret: "\<And>c. bpf_s_of (sf_code (last insns)) = Some c \<Longrightarrow> c = BPF_S_RET_K \<or> c = BPF_S_RET_A"
begin

definition run_inv :: "bpf_state \<Rightarrow> bool" where
  "run_inv st \<longleftrightarrow> fentry st < length insns \<and> length (mem st) = BPF_MEMWORDS \<and>
     (\<forall>i. bit (V (fentry st)) i \<longrightarrow> mem st ! i \<noteq> None)"

definition progress :: "bpf_state \<Rightarrow> fault + outcome \<Rightarrow> bool" where
  "progress st r \<longleftrightarrow> (\<exists>v. r = Inr (Return v)) \<or>
     (\<exists>st'. r = Inr (Continue st') \<and> run_inv st' \<and> fentry st < fentry st')"

lemma progress_return [simp]: "progress st (Inr (Return v))"
  by (simp add: progress_def)

lemma progress_goto:
  assumes "fentry st' = fentry st" and "fentry st + d + 1 < length insns"
    and "length (mem st') = BPF_MEMWORDS"
    and "\<forall>i. bit (V (fentry st + d + 1)) i \<longrightarrow> mem st' ! i \<noteq> None"
  shows "progress st (goto st' d)"
proof -
  have "fentry st + d + 1 < 2 ^ 29" using assms(2) size_ok by (simp add: BPF_MAXINSNS_def)
  then have "goto st' d = Inr (Continue (st'\<lparr>fentry := fentry st + d + 1\<rparr>))"
    using assms(1) by (simp add: goto_def)
  then show ?thesis using assms by (simp add: progress_def run_inv_def)
qed

lemma next_in_range:
  assumes "fentry st < length insns" and "bpf_s_of (sf_code (insns ! fentry st)) = Some c"
    and "c \<noteq> BPF_S_RET_K" and "c \<noteq> BPF_S_RET_A"
  shows "Suc (fentry st) < length insns"
proof (rule ccontr)
  assume "\<not> Suc (fentry st) < length insns"
  then have "fentry st = length insns - 1" and "insns \<noteq> []" using assms(1) by auto
  then have "last insns = insns ! fentry st" by (simp add: last_conv_nth)
  then show False using ends_ret assms by auto
qed

lemma progress_fall:
  assumes "run_inv st" and "fentry st' = fentry st" and "mem st' = mem st"
    and "Suc (fentry st) < length insns" and "below (V (Suc (fentry st))) (V (fentry st))"
  shows "progress st (goto st' 0)"
  using assms by (intro progress_goto) (auto simp: run_inv_def below_def)

lemma progress_set:
  assumes "run_inv st" and "Suc (fentry st) < length insns"
    and "below (V (Suc (fentry st))) (V (fentry st))"
  shows "progress st (set_A st v)" and "progress st (set_X st v)"
  using assms by (auto simp: set_A_def set_X_def intro!: progress_fall)

lemma progress_load:
  assumes "skb_wf skb" and "headers_wf skb" and "0 < n" and "n \<le> 4"
    and "\<And>bs. progress st (cont bs)"
  shows "progress st (load_with skb off n cont)"
  using load_pointer_safe [OF assms(1-4), of "sint off"] assms(5)
  by (auto simp: load_with_def split: option.splits)

lemma progress_store:
  assumes "run_inv st" and "Suc (fentry st) < length insns" and "unat i < BPF_MEMWORDS"
    and "below (V (Suc (fentry st))) (V (fentry st) OR push_bit (unat i) 1)"
  shows "progress st (mem_store st i v)"
proof -
  have "mem_store st i v = goto (st\<lparr>mem := (mem st)[unat i := Some v]\<rparr>) 0"
    using assms(1,3) by (simp add: mem_store_def run_inv_def)
  moreover have "(mem st)[unat i := Some v] ! j \<noteq> None" if "bit (V (Suc (fentry st))) j" for j
  proof (cases "j = unat i")
    case True
    then show ?thesis using assms(1,3) by (simp add: run_inv_def)
  next
    case False
    then have "bit (V (fentry st)) j"
      using assms(4) that by (auto simp: below_def bit_simps)
    then show ?thesis using assms(1) False by (simp add: run_inv_def)
  qed
  ultimately show ?thesis
    using assms(1,2) by (auto intro!: progress_goto simp: run_inv_def)
qed

lemma mem_load_ok:
  assumes "run_inv st" and "unat i < BPF_MEMWORDS" and "bit (V (fentry st)) (unat i)"
  shows "\<exists>v. mem_load st i = Inr v"
  using assms by (auto simp: mem_load_def run_inv_def)

lemma progress_exec:
  assumes wf: "skb_wf skb" "headers_wf skb" and inv: "run_inv st"
    and c: "bpf_s_of (sf_code (insns ! fentry st)) = Some c"
    and nla: "c = BPF_S_ANC_NLATTR \<Longrightarrow> 4 \<le> sk_len skb" "c \<noteq> BPF_S_ANC_NLATTR_NEST"
  shows "progress st (bpf_exec env skb (insns ! fentry st) c st)"
proof -
  let ?f = "insns ! fentry st" and ?pc = "fentry st"
  have pc: "?pc < length insns" using inv by (simp add: run_inv_def)
  note ok = insns_ok [OF pc, unfolded insn_ok_def c, simplified]
  note flow = flows_ok [OF pc, unfolded flow_ok_def c option.case]
  have nxt: "Suc ?pc < length insns" if "c \<noteq> BPF_S_RET_K" "c \<noteq> BPF_S_RET_A"
    using next_in_range [OF pc c that] .
  consider (st) "is_store c" | (ld) "is_mem_load c" | (ja) "c = BPF_S_JMP_JA" | (cj) "is_cond_jump c"
    | (nl) "c = BPF_S_ANC_NLATTR"
    | (other) "\<not> is_store c" "\<not> is_mem_load c" "c \<noteq> BPF_S_JMP_JA" "\<not> is_cond_jump c" "c \<noteq> BPF_S_ANC_NLATTR"
    by blast
  then show ?thesis
  proof cases
    case st
    then have "below (V (Suc ?pc)) (V ?pc OR push_bit (unat (sf_k ?f)) 1)" using flow by simp
    moreover have "unat (sf_k ?f) < BPF_MEMWORDS" using ok st by blast
    ultimately have "progress st (mem_store st (sf_k ?f) v)" for v
      using progress_store [OF inv nxt] st by (auto simp: is_store_def)
    then show ?thesis using st by (auto simp: bpf_exec_def is_store_def)
  next
    case ld
    then have "bit (V ?pc) (unat (sf_k ?f))" "below (V (Suc ?pc)) (V ?pc)"
      using flow by (auto simp: is_store_def is_mem_load_def)
    moreover have "unat (sf_k ?f) < BPF_MEMWORDS" using ok ld by blast
    ultimately show ?thesis
      using mem_load_ok [OF inv] progress_set [OF inv] nxt ld
      by (fastforce simp: bpf_exec_def is_mem_load_def)
  next
    case ja
    then have "below (V (?pc + 1 + unat (sf_k ?f))) (V ?pc)" "?pc + 1 + unat (sf_k ?f) < length insns"
      using flow ok by (auto simp: is_store_def is_mem_load_def)
    then show ?thesis
      using ja inv by (auto simp: bpf_exec_def run_inv_def below_def add.commute intro!: progress_goto)
  next
    case cj
    then have "below (V (?pc + 1 + unat (sf_jt ?f))) (V ?pc)" "?pc + 1 + unat (sf_jt ?f) < length insns"
      "below (V (?pc + 1 + unat (sf_jf ?f))) (V ?pc)" "?pc + 1 + unat (sf_jf ?f) < length insns"
      using flow ok by (auto simp: is_store_def is_mem_load_def is_cond_jump_def)
    then have "progress st (branch ?f st b)" for b
      using inv unfolding branch_def
      by (intro progress_goto) (auto simp: run_inv_def below_def add.commute)
    then show ?thesis using cj by (auto simp: bpf_exec_def is_cond_jump_def)
  next
    case nl
    then show ?thesis
      using anc_nlattr_safe [OF wf(1) nla(1), of st] progress_set [OF inv nxt] flow
      by (auto simp: bpf_exec_def is_store_def is_mem_load_def is_cond_jump_def)
  next
    case other
    then have fall: "below (V (Suc ?pc)) (V ?pc)" using flow by simp
    note set = progress_set [OF inv nxt fall]
    show ?thesis
      using other nla(2)
      by (cases c)
        (auto simp: bpf_exec_def Let_def is_store_def is_mem_load_def is_cond_jump_def
          load_w_def load_h_def load_b_def ldx_msh_def
          split: option.splits intro!: set progress_load wf)
  qed
qed

lemma progress_step:
  assumes "skb_wf skb" and "headers_wf skb" and "nla_harmless skb insns" and "run_inv st"
  shows "progress st (bpf_step env skb insns st)"
proof -
  have pc: "fentry st < length insns" using assms(4) by (simp add: run_inv_def)
  obtain c where c: "bpf_s_of (sf_code (insns ! fentry st)) = Some c"
    using insns_ok [OF pc] by (auto simp: insn_ok_def)
  have "insns ! fentry st \<in> set insns" using pc by simp
  then have "c = BPF_S_ANC_NLATTR \<Longrightarrow> 4 \<le> sk_len skb" "c \<noteq> BPF_S_ANC_NLATTR_NEST"
    using assms(3) c by (auto simp: nla_harmless_def)
  then show ?thesis
    using progress_exec [OF assms(1,2,4) c] pc c by (simp add: bpf_step_def Let_def)
qed

lemma loop_returns:
  assumes "skb_wf skb" and "headers_wf skb" and "nla_harmless skb insns"
    and "run_inv st" and "length insns - fentry st \<le> fuel"
  shows "\<exists>v. bpf_loop fuel env skb insns st = Some (Inr v)"
  using assms(4,5)
proof (induction fuel arbitrary: st)
  case 0
  then show ?case by (simp add: run_inv_def)
next
  case (Suc fuel)
  have "progress st (bpf_step env skb insns st)"
    using progress_step [OF assms(1-3) Suc.prems(1)] .
  then show ?case
    using Suc.IH Suc.prems(2) by (fastforce simp: progress_def)
qed

end

section \<open>Accepted filters are checked filters\<close>

lemma sk_chk_filter_certified:
  assumes "sk_chk_filter km p = Inr q"
  shows "\<exists>V. V 0 = 0 \<and> checked_filter q V" and "q \<noteq> []" and "length q = length p"
proof -
  let ?n = "length p"
  have n: "0 < ?n" "?n \<le> BPF_MAXINSNS" and loop: "chk_loop ?n 0 p = Inr q"
    and ret: "bpf_s_of (sf_code (q ! (?n - 1))) \<in> {Some BPF_S_RET_K, Some BPF_S_RET_A}"
    and ls: "check_load_and_stores km q = Inr ()"
    using assms by (auto simp: sk_chk_filter_def Let_def split: if_splits sum.splits)
  have q: "length q = ?n" "\<forall>i < length q. insn_ok ?n i (q ! i)"
    using chk_loop_ok [OF loop] n by auto
  then show "q \<noteq> []" "length q = length p" using n by auto
  obtain V where V: "below (V 0) 0" "\<forall>i < length q. flow_ok V i (q ! i)"
    using check_ls_loop_cert [of q 0 0 "replicate (length q) (-1)"] ls q
    by (auto simp: check_load_and_stores_def split: if_splits)
  have "V 0 = 0" using V(1) by (auto simp: below_def intro: bit_eqI)
  moreover have "checked_filter q V"
  proof
    show "length q \<le> BPF_MAXINSNS" using q n by simp
    show "insn_ok (length q) pc (q ! pc)" if "pc < length q" for pc using q that by simp
    show "flow_ok V pc (q ! pc)" if "pc < length q" for pc using V(2) that by simp
    have "last q = q ! (?n - 1)" using q n by (simp add: last_conv_nth flip: length_greater_0_conv)
    then show "c = BPF_S_RET_K \<or> c = BPF_S_RET_A" if "bpf_s_of (sf_code (last q)) = Some c" for c
      using ret that by auto
  qed
  ultimately show "\<exists>V. V 0 = 0 \<and> checked_filter q V" by blast
qed

text \<open>The filter that ends up attached for a program: the checked program, or, where the checker
  refuses it, the filter that drops everything (nothing is attached then).\<close>

definition reject_all :: "sock_filter list" where
  "reject_all = [\<lparr>sf_code = bpf_s_num BPF_S_RET_K, sf_jt = 0, sf_jf = 0, sf_k = 0\<rparr>]"

definition accepted :: "sock_filter list \<Rightarrow> sock_filter list" where
  "accepted p = (case sk_chk_filter True p of Inl _ \<Rightarrow> reject_all | Inr q \<Rightarrow> q)"

definition accepted_cert :: "sock_filter list \<Rightarrow> nat \<Rightarrow> u16" where
  "accepted_cert p = (SOME V. V 0 = 0 \<and> checked_filter (accepted p) V)"

lemma accepted_cert: "accepted_cert p 0 = 0 \<and> checked_filter (accepted p) (accepted_cert p)"
proof -
  have "checked_filter reject_all (\<lambda>_. 0)"
    by unfold_locales
      (auto simp: reject_all_def insn_ok_def flow_ok_def BPF_MAXINSNS_def is_mem_load_def
        is_store_def is_cond_jump_def)
  then have "\<exists>V. V 0 = 0 \<and> checked_filter (accepted p) V"
    using sk_chk_filter_certified(1) [of True p] by (cases "sk_chk_filter True p") (auto simp: accepted_def)
  then show ?thesis unfolding accepted_cert_def by (rule someI_ex)
qed

interpretation acc: checked_filter "accepted p" "accepted_cert p" for p
  using accepted_cert by blast

lemma accepted_eq:
  assumes "sk_chk_filter km p = Inr q"
  shows "accepted p = q"
proof -
  have "km" using assms
    by (auto simp: sk_chk_filter_def check_load_and_stores_def Let_def split: if_splits sum.splits)
  with assms show ?thesis by (simp add: accepted_def)
qed

lemma accepted_runs:
  assumes "sk_chk_filter km p = Inr q"
    and "skb_wf skb" and "headers_wf skb" and "nla_harmless skb q" and "length p \<le> fuel"
  shows "\<exists>v. sk_run_filter fuel env skb q = Some (Inr v)"
proof -
  note q = accepted_eq [OF assms(1)]
  have "acc.run_inv p bpf_init"
    unfolding acc.run_inv_def
    using sk_chk_filter_certified(2) [OF assms(1)] accepted_cert [of p] q
    by (simp add: bpf_init_def BPF_MEMWORDS_def)
  moreover have "length q - fentry bpf_init \<le> fuel"
    using sk_chk_filter_certified(3) [OF assms(1)] assms(5) by simp
  ultimately show ?thesis
    using acc.loop_returns [of skb p bpf_init fuel env] assms(2-4) q
    by (simp add: sk_run_filter_def)
qed

section \<open>Properties\<close>

text \<open>C1. Soundness of the checker.  A filter that \<^const>\<open>sk_chk_filter\<close> accepts returns a verdict on
  every well-formed packet within one loop turn per instruction: it never fetches an
  instruction outside the filter, never reads or writes scratch memory outside the sixteen
  cells, never reads a cell it has not stored, and never reads outside the packet.  This holds
  for filters and packets for which \<^const>\<open>nla_harmless\<close> holds: the filter has no nested search for
  a netlink attribute, and has a plain search only if the packet has at least four bytes.  The
  exception is real, as the reads outside packets shown below prove.\<close>

theorem sk_chk_filter_sound:
  assumes "sk_chk_filter km p = Inr q"
    and "skb_wf skb" and "headers_wf skb" and "nla_harmless skb q"
  shows "\<exists>v. sk_run_filter (length p) env skb q = Some (Inr v)"
  by (rule accepted_runs [OF assms order.refl])

text \<open>A filter and a packet for the witnesses: the 16-bit word at offset 2, divided by 10.\<close>

definition stmt :: "u16 \<Rightarrow> u32 \<Rightarrow> sock_filter" where
  "stmt c v = \<lparr>sf_code = c, sf_jt = 0, sf_jf = 0, sf_k = v\<rparr>"

definition jump :: "u16 \<Rightarrow> u32 \<Rightarrow> u8 \<Rightarrow> u8 \<Rightarrow> sock_filter" where
  "jump c v t e = \<lparr>sf_code = c, sf_jt = t, sf_jf = e, sf_k = v\<rparr>"

definition meta0 :: skb_meta where
  "meta0 = \<lparr>protocol = 0x800, pkt_type = 0, dev = None, mark = 0, queue_mapping = 0, rxhash = 0\<rparr>"

definition env0 :: bpf_env where
  "env0 = \<lparr>cpu = 0, shl_undefined = (\<lambda>_ _. 0), shr_undefined = (\<lambda>_ _. 0)\<rparr>"

definition linear_skb :: "u8 list \<Rightarrow> sk_buff" where
  "linear_skb bs = Sk_buff meta0 0xC0001000 bs 0xC0001000 0xC0001000 0xC0001000
     (word_of_nat (length bs)) 0 [] []"

definition demo_filter :: "sock_filter list" where
  "demo_filter = [stmt (BPF_LD OR BPF_H OR BPF_ABS) 2, stmt BPF_ST 3, stmt (BPF_LDX OR BPF_MEM) 3,
     stmt (BPF_ALU OR BPF_DIV OR BPF_K) 10, jump (BPF_JMP OR BPF_JEQ OR BPF_K) 5 0 1,
     stmt (BPF_RET OR BPF_K) 96, stmt (BPF_RET OR BPF_K) 0]"

definition demo_checked :: "sock_filter list" where
  "demo_checked = [stmt 20 2, stmt 35 3, stmt 34 3, stmt 32 0x1999999A, jump 38 5 0 1,
     stmt 1 96, stmt 1 0]"

lemma demo_filter_accepted: "sk_chk_filter True demo_filter = Inr demo_checked"
  by code_simp

theorem sk_chk_filter_sound_witness:
  "sk_chk_filter True demo_filter = Inr demo_checked \<and>
   (\<exists>v. sk_run_filter 7 env0 (linear_skb [1, 2, 0, 57]) demo_checked = Some (Inr v))"
proof -
  have "skb_wf (linear_skb [1, 2, 0, 57])" by (simp add: linear_skb_def)
  moreover have "headers_wf (linear_skb [1, 2, 0, 57])" by code_simp
  moreover have "nla_harmless (linear_skb [1, 2, 0, 57]) demo_checked" by code_simp
  moreover have "length demo_filter = 7" by (simp add: demo_filter_def)
  ultimately show ?thesis
    using sk_chk_filter_sound [OF demo_filter_accepted, of "linear_skb [1, 2, 0, 57]" env0]
      demo_filter_accepted by simp
qed

text \<open>C25. A load at a non-negative offset delivers exactly the requested bytes of the payload,
  across the linear area, the page fragments and the chained buffers, and is refused
  exactly when the payload is too short.\<close>

theorem load_pointer_payload:
  assumes "skb_wf skb" and "0 < n"
  shows "load_pointer skb (int off) n =
     Inr (if off + n \<le> length (skb_bytes skb) then Some (take n (drop off (skb_bytes skb))) else None)"
  using skb_header_pointer_correct [OF assms] by (simp add: load_pointer_def)

definition fragmented_skb :: sk_buff where
  "fragmented_skb = Sk_buff meta0 0xC0001000 [9, 1, 2] 0xC0001001 0xC0001001 0 8 6 [[3, 4], []]
     [Sk_buff meta0 0xC0002000 [5] 0xC0002000 0xC0002000 0 4 3 [[6, 7], [8]] []]"

theorem load_pointer_payload_witness:
  "load_pointer fragmented_skb (int 1) 4 = Inr (Some [2, 3, 4, 5]) \<and>
   load_pointer fragmented_skb (int 5) 4 = Inr None"
proof -
  have "skb_wf fragmented_skb" by (simp add: fragmented_skb_def)
  then show ?thesis
    using load_pointer_payload [of fragmented_skb 4 1] load_pointer_payload [of fragmented_skb 4 5]
    by (simp add: fragmented_skb_def)
qed

section \<open>The netlink searches read outside the packet\<close>

lemma bpf_loop_numeral:
  "bpf_loop (numeral n) env skb insns st =
     (case bpf_step env skb insns st of
        Inl e \<Rightarrow> Some (Inl e)
      | Inr (Return v) \<Rightarrow> Some (Inr v)
      | Inr (Continue st') \<Rightarrow> bpf_loop (pred_numeral n) env skb insns st')"
  by (simp add: numeral_eq_Suc)

lemma bpf_s_of_examples:
  "bpf_s_of 26 = Some BPF_S_LD_IMM" "bpf_s_of 49 = Some BPF_S_ANC_NLATTR"
  "bpf_s_of 50 = Some BPF_S_ANC_NLATTR_NEST" "bpf_s_of 1 = Some BPF_S_RET_K"
  by code_simp+

lemmas run_simps = sk_run_filter_def bpf_loop_numeral bpf_init_def bpf_step_def stmt_def
  bpf_s_of_examples bpf_exec_def Let_def set_A_def goto_def

definition nlattr_filter :: "sock_filter list" where
  "nlattr_filter = [stmt (BPF_LD OR BPF_IMM) 0x80000010,
     stmt (BPF_LD OR BPF_W OR BPF_ABS) (word_of_int (SKF_AD_OFF + 12)), stmt (BPF_RET OR BPF_K) 0]"

definition nlattr_nest_filter :: "sock_filter list" where
  "nlattr_nest_filter = [stmt (BPF_LD OR BPF_IMM) 0,
     stmt (BPF_LD OR BPF_W OR BPF_ABS) (word_of_int (SKF_AD_OFF + 16)), stmt (BPF_RET OR BPF_K) 0]"

text \<open>C35. The exclusions of the soundness theorem are needed.  The checker accepts filters with the netlink
  extensions, and on well-formed packets they read outside the packet: on a packet shorter
  than an attribute header the bound \<^verbatim>\<open>skb->len - sizeof(struct nlattr)\<close> wraps around, and the
  nested search compares with \<^verbatim>\<open>A - skb->len\<close> instead of \<^verbatim>\<open>skb->len - A\<close>, so that the length
  of the enclosing attribute is never checked.\<close>

theorem nlattr_reads_outside_packet:
  "(\<exists>q. sk_chk_filter True nlattr_filter = Inr q \<and> skb_wf (linear_skb []) \<and>
      sk_run_filter 3 env0 (linear_skb []) q = Some (Inl OutOfBounds)) \<and>
   (\<exists>q. sk_chk_filter True nlattr_nest_filter = Inr q \<and>
      skb_wf (linear_skb [0xFF, 0xFF, 0, 0, 4, 0, 1, 0]) \<and>
      sk_run_filter 3 env0 (linear_skb [0xFF, 0xFF, 0, 0, 4, 0, 1, 0]) q = Some (Inl OutOfBounds))"
proof (intro conjI exI)
  show "sk_chk_filter True nlattr_filter = Inr [stmt 26 0x80000010, stmt 49 0xFFFFF00C, stmt 1 0]"
    by code_simp
  show "sk_run_filter 3 env0 (linear_skb []) [stmt 26 0x80000010, stmt 49 0xFFFFF00C, stmt 1 0] =
      Some (Inl OutOfBounds)"
    by (simp add: run_simps anc_nlattr_def linear_skb_def skb_is_nonlinear_def nla_result_def
        nla_find.simps [of _ "0x140001010"] read_u16_def mem_read_def)
  show "sk_chk_filter True nlattr_nest_filter = Inr [stmt 26 0, stmt 50 0xFFFFF010, stmt 1 0]"
    by code_simp
  show "sk_run_filter 3 env0 (linear_skb [0xFF, 0xFF, 0, 0, 4, 0, 1, 0])
      [stmt 26 0, stmt 50 0xFFFFF010, stmt 1 0] = Some (Inl OutOfBounds)"
    by (simp add: run_simps anc_nlattr_nest_def linear_skb_def skb_is_nonlinear_def nla_result_def
        nla_find_nested_def nla_find.simps [of _ "0xC0001004"] nla_find.simps [of _ "0xC0001008"]
        read_u16_def mem_read_def nla_type_def nla_align_def)
qed (simp_all add: linear_skb_def)

end
