(* ===== verification/Filter_Attach.thy ===== *)
theory Filter_Attach
  imports Packet_Filter
begin

text \<open>
  The life of a socket filter: \<^verbatim>\<open>sk_attach_filter\<close>, \<^verbatim>\<open>sk_detach_filter\<close> and
  \<^verbatim>\<open>sk_filter_release_rcu\<close> (\<^verbatim>\<open>net/core/filter.c\<close>), the reference count and option-memory
  accounting of \<^verbatim>\<open>include/net/sock.h\<close>, and the parts of \<^verbatim>\<open>net/core/sock.c\<close> that share or
  drop filters (\<^verbatim>\<open>sock_kmalloc\<close>, \<^verbatim>\<open>sock_kfree_s\<close>, \<^verbatim>\<open>sk_clone\<close>, \<^verbatim>\<open>__sk_free\<close>).

  The kernel heap is a partial map, so an access to a freed filter is the result \<open>None\<close>.
  Packet reception (\<^verbatim>\<open>sk_filter\<close>) is a reader that takes the filter pointer in one step and
  runs the filter in a later one; the deferred free is a callback that waits for the
  readers active when it was queued, the contract of \<^verbatim>\<open>call_rcu_bh\<close>.
\<close>

type_synonym addr = u32

section \<open>State\<close>

record sk_filter =
  refcnt :: u32
  flen :: u32
  insns :: "sock_filter list"

text \<open>\<open>sk_optmem\<close> lists the sizes of the option blocks other protocol code holds; it is not a
  field of the C structure but what \<^verbatim>\<open>sk_omem_alloc\<close> accounts for beside the filter.\<close>

record sock =
  sk_filter_ptr :: "addr option"
  sk_omem_alloc :: u32
  sk_optmem :: "u32 list"

record sock_fprog =
  fp_len :: u16
  fp_filter :: u32

text \<open>\<open>readers\<close> are the receive paths inside their read-side section with the filter each runs;
  \<open>rcu_cbs\<close> the queued frees with the readers each still waits for.\<close>

record fstate =
  socks :: "addr \<Rightarrow> sock option"
  kheap :: "addr \<Rightarrow> sk_filter option"
  rcu_cbs :: "(addr \<times> nat list) list"
  readers :: "(nat \<times> addr) list"

definition put_sock :: "addr \<Rightarrow> sock \<Rightarrow> fstate \<Rightarrow> fstate" where
  "put_sock s sk st = st\<lparr>socks := (socks st)(s \<mapsto> sk)\<rparr>"

definition put_filter :: "addr \<Rightarrow> sk_filter \<Rightarrow> fstate \<Rightarrow> fstate" where
  "put_filter a fp st = st\<lparr>kheap := (kheap st)(a \<mapsto> fp)\<rparr>"

definition kfree :: "addr \<Rightarrow> fstate \<Rightarrow> fstate" where
  "kfree a st = st\<lparr>kheap := (kheap st)(a := None)\<rparr>"

section \<open>Operations\<close>

definition sk_filter_len :: "sk_filter \<Rightarrow> u32" where
  "sk_filter_len fp = flen fp * 8 + 16"

definition sock_kmalloc :: "u32 \<Rightarrow> addr option \<Rightarrow> u32 \<Rightarrow> sock \<Rightarrow> addr option \<times> sock" where
  "sock_kmalloc optmem_max block sz sk =
     (if sz \<le> optmem_max \<and> sint (sk_omem_alloc sk + sz) < sint optmem_max
      then (let sk' = sk\<lparr>sk_omem_alloc := sk_omem_alloc sk + sz\<rparr> in
        case block of
          Some a \<Rightarrow> (Some a, sk')
        | None \<Rightarrow> (None, sk'\<lparr>sk_omem_alloc := sk_omem_alloc sk' - sz\<rparr>))
      else (None, sk))"

definition omem_sub :: "addr \<Rightarrow> u32 \<Rightarrow> fstate \<Rightarrow> fstate option" where
  "omem_sub s sz st = (case socks st s of None \<Rightarrow> None
     | Some sk \<Rightarrow> Some (put_sock s (sk\<lparr>sk_omem_alloc := sk_omem_alloc sk - sz\<rparr>) st))"

definition sock_kfree_s :: "addr \<Rightarrow> addr \<Rightarrow> u32 \<Rightarrow> fstate \<Rightarrow> fstate option" where
  "sock_kfree_s s a sz st = omem_sub s sz (kfree a st)"

text \<open>\<^verbatim>\<open>call_rcu_bh\<close> queues the free behind the readers that are active now.\<close>

definition call_rcu_bh :: "addr \<Rightarrow> fstate \<Rightarrow> fstate" where
  "call_rcu_bh a st = st\<lparr>rcu_cbs := rcu_cbs st @ [(a, map fst (readers st))]\<rparr>"

definition sk_filter_release_rcu :: "addr \<Rightarrow> fstate \<Rightarrow> fstate" where
  "sk_filter_release_rcu a st =
     kfree a (st\<lparr>rcu_cbs := [c \<leftarrow> rcu_cbs st. fst c \<noteq> a]\<rparr>)"

definition sk_filter_release :: "addr \<Rightarrow> fstate \<Rightarrow> fstate option" where
  "sk_filter_release a st = (case kheap st a of
       None \<Rightarrow> None
     | Some fp \<Rightarrow>
         (let st' = put_filter a (fp\<lparr>refcnt := refcnt fp - 1\<rparr>) st in
          Some (if refcnt fp - 1 = 0 then call_rcu_bh a st' else st')))"

definition sk_filter_uncharge :: "addr \<Rightarrow> addr \<Rightarrow> fstate \<Rightarrow> fstate option" where
  "sk_filter_uncharge s a st = (case kheap st a of
       None \<Rightarrow> None
     | Some fp \<Rightarrow>
         (case omem_sub s (sk_filter_len fp) st of
            None \<Rightarrow> None
          | Some st' \<Rightarrow> sk_filter_release a st'))"

definition sk_filter_charge :: "addr \<Rightarrow> addr \<Rightarrow> fstate \<Rightarrow> fstate option" where
  "sk_filter_charge s a st = (case (kheap st a, socks st s) of
       (Some fp, Some sk) \<Rightarrow>
         Some (put_sock s (sk\<lparr>sk_omem_alloc := sk_omem_alloc sk + sk_filter_len fp\<rparr>)
           (put_filter a (fp\<lparr>refcnt := refcnt fp + 1\<rparr>) st))
     | _ \<Rightarrow> None)"

text \<open>\<open>block\<close> is what \<^verbatim>\<open>kmalloc\<close> returns, \<open>user\<close> what \<^verbatim>\<open>copy_from_user\<close> reads (\<open>None\<close>: a fault),
  \<open>chk_mem\<close> whether the checker's own allocation succeeds.\<close>

definition sk_attach_filter ::
  "u32 \<Rightarrow> addr option \<Rightarrow> sock_filter list option \<Rightarrow> bool \<Rightarrow> sock_fprog \<Rightarrow> addr \<Rightarrow> fstate
     \<Rightarrow> (unit kres \<times> fstate) option" where
  "sk_attach_filter optmem_max block user chk_mem fprog s st = (case socks st s of
     None \<Rightarrow> None
   | Some sk \<Rightarrow>
      (let fsize = 8 * ucast (fp_len fprog) in
       if fp_filter fprog = 0 then Some (Inl EINVAL, st)
       else (case sock_kmalloc optmem_max block (fsize + 16) sk of
         (None, sk') \<Rightarrow> Some (Inl ENOMEM, put_sock s sk' st)
       | (Some a, sk') \<Rightarrow>
          (case user of
            None \<Rightarrow> map_option (Pair (Inl EFAULT)) (sock_kfree_s s a (fsize + 16) (put_sock s sk' st))
          | Some prog \<Rightarrow>
             (let fp = \<lparr>refcnt = 1, flen = ucast (fp_len fprog), insns = prog\<rparr>;
                  st' = put_filter a fp (put_sock s sk' st) in
              case sk_chk_filter chk_mem prog of
                Inl e \<Rightarrow> map_option (Pair (Inl e)) (sk_filter_uncharge s a st')
              | Inr checked \<Rightarrow>
                 (let st'' = put_sock s (sk'\<lparr>sk_filter_ptr := Some a\<rparr>)
                               (put_filter a (fp\<lparr>insns := checked\<rparr>) st') in
                  case sk_filter_ptr sk of
                    None \<Rightarrow> Some (Inr (), st'')
                  | Some old \<Rightarrow> map_option (Pair (Inr ())) (sk_filter_uncharge s old st'')))))))"

definition sk_detach_filter :: "addr \<Rightarrow> fstate \<Rightarrow> (unit kres \<times> fstate) option" where
  "sk_detach_filter s st = (case socks st s of
     None \<Rightarrow> None
   | Some sk \<Rightarrow>
      (case sk_filter_ptr sk of
        None \<Rightarrow> Some (Inl ENOENT, st)
      | Some a \<Rightarrow> map_option (Pair (Inr ()))
          (sk_filter_uncharge s a (put_sock s (sk\<lparr>sk_filter_ptr := None\<rparr>) st))))"

text \<open>\<^verbatim>\<open>__sk_free\<close>: the second component is the amount reported as leaked option memory.\<close>

definition sk_free_final :: "addr \<Rightarrow> fstate \<Rightarrow> (u32 \<times> fstate) option" where
  "sk_free_final s st = (case socks st s of
     None \<Rightarrow> None
   | Some sk \<Rightarrow>
      (case (case sk_filter_ptr sk of
               None \<Rightarrow> Some st
             | Some a \<Rightarrow> sk_filter_uncharge s a st) of
         None \<Rightarrow> None
       | Some st' \<Rightarrow>
          (case socks st' s of
            None \<Rightarrow> None
          | Some sk' \<Rightarrow> Some (sk_omem_alloc sk', st'\<lparr>socks := (socks st')(s := None)\<rparr>))))"

text \<open>\<open>new\<close> is the socket \<^verbatim>\<open>sk_prot_alloc\<close> returns, \<open>xfrm_ok\<close> whether the policies were cloned.
  The clone's \<^verbatim>\<open>sk_wmem_alloc\<close> is one, so that the plain \<^verbatim>\<open>sk_free\<close> of the error path is
  the final one.\<close>

definition sk_clone :: "addr option \<Rightarrow> bool \<Rightarrow> addr \<Rightarrow> fstate \<Rightarrow> (addr option \<times> fstate) option" where
  "sk_clone new xfrm_ok s st = (case socks st s of
     None \<Rightarrow> None
   | Some sk \<Rightarrow>
      (case new of
        None \<Rightarrow> Some (None, st)
      | Some n \<Rightarrow>
         (let st' = put_sock n (sk\<lparr>sk_omem_alloc := 0, sk_optmem := []\<rparr>) st in
          case (case sk_filter_ptr sk of
                  None \<Rightarrow> Some st'
                | Some a \<Rightarrow> sk_filter_charge n a st') of
            None \<Rightarrow> None
          | Some st'' \<Rightarrow>
              if xfrm_ok then Some (Some n, st'')
              else map_option (\<lambda>r. (None, snd r)) (sk_free_final n st''))))"

text \<open>The two halves of \<^verbatim>\<open>sk_filter\<close>: taking the filter pointer, and leaving the read-side
  section after running the filter.  The run itself is \<^const>\<open>sk_run_filter\<close> on the
  instructions the heap holds at that moment.\<close>

definition sk_filter_enter :: "nat \<Rightarrow> addr \<Rightarrow> fstate \<Rightarrow> fstate option" where
  "sk_filter_enter r s st = (case socks st s of
     None \<Rightarrow> None
   | Some sk \<Rightarrow>
      (case sk_filter_ptr sk of
        None \<Rightarrow> Some st
      | Some a \<Rightarrow> Some (st\<lparr>readers := (r, a) # readers st\<rparr>)))"

definition sk_filter_leave :: "nat \<Rightarrow> fstate \<Rightarrow> fstate option" where
  "sk_filter_leave r st = (case map_of (readers st) r of
     None \<Rightarrow> None
   | Some a \<Rightarrow>
      (case kheap st a of
        None \<Rightarrow> None
      | Some fp \<Rightarrow> Some (st\<lparr>readers := [e \<leftarrow> readers st. fst e \<noteq> r],
          rcu_cbs := map (\<lambda>(b, w). (b, removeAll r w)) (rcu_cbs st)\<rparr>)))"

section \<open>Steps\<close>

datatype fop =
    Alloc addr
  | Attach "addr option" "sock_filter list option" bool sock_fprog addr
  | Detach addr
  | Clone "addr option" bool addr
  | Free addr
  | Opt_alloc addr "addr option" u32
  | Opt_free addr u32
  | Enter nat addr
  | Leave nat
  | Rcu_callback addr

fun fop_exec :: "u32 \<Rightarrow> fop \<Rightarrow> fstate \<Rightarrow> fstate option" where
  "fop_exec om (Alloc s) st =
     Some (put_sock s \<lparr>sk_filter_ptr = None, sk_omem_alloc = 0, sk_optmem = []\<rparr> st)"
| "fop_exec om (Attach block user km fprog s) st = map_option snd (sk_attach_filter om block user km fprog s st)"
| "fop_exec om (Detach s) st = map_option snd (sk_detach_filter s st)"
| "fop_exec om (Clone n ok s) st = map_option snd (sk_clone n ok s st)"
| "fop_exec om (Free s) st = map_option snd (sk_free_final s st)"
| "fop_exec om (Opt_alloc s block sz) st = (case socks st s of None \<Rightarrow> None
     | Some sk \<Rightarrow> (case sock_kmalloc om block sz sk of
         (None, sk') \<Rightarrow> Some (put_sock s sk' st)
       | (Some _, sk') \<Rightarrow> Some (put_sock s (sk'\<lparr>sk_optmem := sz # sk_optmem sk'\<rparr>) st)))"
| "fop_exec om (Opt_free s sz) st = (case omem_sub s sz st of None \<Rightarrow> None
     | Some st' \<Rightarrow> (case socks st' s of None \<Rightarrow> None
         | Some sk \<Rightarrow> Some (put_sock s (sk\<lparr>sk_optmem := remove1 sz (sk_optmem sk)\<rparr>) st')))"
| "fop_exec om (Enter r s) st = sk_filter_enter r s st"
| "fop_exec om (Leave r) st = sk_filter_leave r st"
| "fop_exec om (Rcu_callback a) st = Some (sk_filter_release_rcu a st)"

text \<open>What the environment promises of each call: the caller holds a live socket, allocators
  return unused non-null addresses, the user copy has the announced length, a block is freed with the
  size it was allocated with, a callback runs only after the readers it waits for.\<close>

fun fop_enabled :: "fop \<Rightarrow> fstate \<Rightarrow> bool" where
  "fop_enabled (Alloc s) st = (s \<noteq> 0 \<and> socks st s = None)"
| "fop_enabled (Attach block user km fprog s) st =
     (socks st s \<noteq> None \<and> (case block of None \<Rightarrow> True | Some a \<Rightarrow> a \<noteq> 0 \<and> kheap st a = None) \<and>
      (case user of None \<Rightarrow> True | Some p \<Rightarrow> length p = unat (fp_len fprog)))"
| "fop_enabled (Detach s) st = (socks st s \<noteq> None)"
| "fop_enabled (Clone n ok s) st =
     (socks st s \<noteq> None \<and> (case n of None \<Rightarrow> True | Some a \<Rightarrow> a \<noteq> 0 \<and> socks st a = None))"
| "fop_enabled (Free s) st = (socks st s \<noteq> None)"
| "fop_enabled (Opt_alloc s block sz) st = (socks st s \<noteq> None)"
| "fop_enabled (Opt_free s sz) st =
     (case socks st s of None \<Rightarrow> False | Some sk \<Rightarrow> sz \<in> set (sk_optmem sk))"
| "fop_enabled (Enter r s) st = (socks st s \<noteq> None \<and> r \<notin> fst ` set (readers st))"
| "fop_enabled (Leave r) st = (r \<in> fst ` set (readers st))"
| "fop_enabled (Rcu_callback a) st = ((a, []) \<in> set (rcu_cbs st))"

definition fstate0 :: fstate where
  "fstate0 = \<lparr>socks = (\<lambda>_. None), kheap = (\<lambda>_. None), rcu_cbs = [], readers = []\<rparr>"

inductive freach :: "u32 \<Rightarrow> fstate \<Rightarrow> bool" for om where
  freach_init: "freach om fstate0"
| freach_step: "freach om st \<Longrightarrow> fop_enabled c st \<Longrightarrow> fop_exec om c st = Some st' \<Longrightarrow> freach om st'"

section \<open>The accounting invariant\<close>

text \<open>Inside an operation one reference may be in flight: a socket has given up (or not yet
  taken) a filter whose count and charge are still to be dropped.\<close>

definition refs :: "fstate \<Rightarrow> addr \<Rightarrow> addr set" where
  "refs st a = {s. \<exists>k. socks st s = Some k \<and> sk_filter_ptr k = Some a}"

definition pend :: "fstate \<Rightarrow> addr set" where
  "pend st = fst ` set (rcu_cbs st)"

definition checked_insns :: "sk_filter \<Rightarrow> bool" where
  "checked_insns f \<longleftrightarrow> (\<exists>p. sk_chk_filter True p = Inr (insns f))"

definition charge :: "fstate \<Rightarrow> addr option \<Rightarrow> u32" where
  "charge st p = (case p of None \<Rightarrow> 0
     | Some a \<Rightarrow> (case kheap st a of None \<Rightarrow> 0 | Some f \<Rightarrow> sk_filter_len f))"

definition in_flight :: "(addr \<times> addr) option \<Rightarrow> addr \<Rightarrow> nat" where
  "in_flight h a = (case h of None \<Rightarrow> 0 | Some (s, b) \<Rightarrow> if b = a then 1 else 0)"

definition owed :: "(addr \<times> addr) option \<Rightarrow> addr \<Rightarrow> fstate \<Rightarrow> u32" where
  "owed h s st = (case h of None \<Rightarrow> 0 | Some (t, b) \<Rightarrow> if t = s then charge st (Some b) else 0)"

definition counted :: "(addr \<times> addr) option \<Rightarrow> fstate \<Rightarrow> bool" where
  "counted h st \<longleftrightarrow> (\<forall>a f. kheap st a = Some f \<longrightarrow> a \<notin> pend st \<longrightarrow>
     unat (refcnt f) = card (refs st a) + in_flight h a \<and> 0 < card (refs st a) + in_flight h a)"

definition referenced :: "fstate \<Rightarrow> bool" where
  "referenced st \<longleftrightarrow> (\<forall>s k a. socks st s = Some k \<longrightarrow> sk_filter_ptr k = Some a \<longrightarrow>
     a \<notin> pend st \<and> (\<exists>f. kheap st a = Some f \<and> checked_insns f))"

definition flight_ok :: "(addr \<times> addr) option \<Rightarrow> fstate \<Rightarrow> bool" where
  "flight_ok h st \<longleftrightarrow> (\<forall>s a. h = Some (s, a) \<longrightarrow>
     a \<notin> pend st \<and> kheap st a \<noteq> None \<and> socks st s \<noteq> None)"

definition deferred :: "fstate \<Rightarrow> bool" where
  "deferred st \<longleftrightarrow> distinct (map fst (rcu_cbs st)) \<and> (\<forall>a \<in> pend st. kheap st a \<noteq> None)"

definition protected_readers :: "fstate \<Rightarrow> bool" where
  "protected_readers st \<longleftrightarrow> distinct (map fst (readers st)) \<and>
     (\<forall>(r, a) \<in> set (readers st). (\<exists>f. kheap st a = Some f \<and> checked_insns f) \<and>
        (\<forall>w. (a, w) \<in> set (rcu_cbs st) \<longrightarrow> r \<in> set w))"

definition accounted :: "(addr \<times> addr) option \<Rightarrow> fstate \<Rightarrow> bool" where
  "accounted h st \<longleftrightarrow> socks st 0 = None \<and> (\<forall>s k. socks st s = Some k \<longrightarrow>
     sk_omem_alloc k = sum_list (sk_optmem k) + charge st (sk_filter_ptr k) + owed h s st)"

definition finv_at :: "(addr \<times> addr) option \<Rightarrow> fstate \<Rightarrow> bool" where
  "finv_at h st \<longleftrightarrow> counted h st \<and> referenced st \<and> flight_ok h st \<and> deferred st \<and>
     protected_readers st \<and> accounted h st"

abbreviation finv :: "fstate \<Rightarrow> bool" where
  "finv \<equiv> finv_at None"

lemmas finv_parts = counted_def referenced_def flight_ok_def deferred_def protected_readers_def
  accounted_def in_flight_def owed_def

section \<open>Dropping a reference\<close>

lemma countedD:
  "counted h st \<Longrightarrow> kheap st a = Some f \<Longrightarrow> a \<notin> pend st \<Longrightarrow>
     unat (refcnt f) = card (refs st a) + in_flight h a \<and> 0 < card (refs st a) + in_flight h a"
  unfolding counted_def by meson

lemma uncharge_eq:
  assumes "kheap st a = Some f" and "socks st s = Some k"
  shows "sk_filter_uncharge s a st = Some (st\<lparr>
      socks := (socks st)(s \<mapsto> k\<lparr>sk_omem_alloc := sk_omem_alloc k - sk_filter_len f\<rparr>),
      kheap := (kheap st)(a \<mapsto> f\<lparr>refcnt := refcnt f - 1\<rparr>),
      rcu_cbs := rcu_cbs st @ (if refcnt f = 1 then [(a, map fst (readers st))] else [])\<rparr>)"
  using assms
  by (simp add: sk_filter_uncharge_def omem_sub_def sk_filter_release_def put_sock_def
      put_filter_def call_rcu_bh_def)

lemma uncharge_finv:
  assumes "finv_at (Some (s, a)) st"
  shows "\<exists>st'. sk_filter_uncharge s a st = Some st' \<and> finv st' \<and>
     (\<exists>k f. socks st s = Some k \<and> kheap st a = Some f \<and>
        socks st' = (socks st)(s \<mapsto> k\<lparr>sk_omem_alloc := sk_omem_alloc k - sk_filter_len f\<rparr>))"
proof -
  from assms obtain f k where f: "kheap st a = Some f" and k: "socks st s = Some k"
    and p: "a \<notin> pend st"
    by (auto simp: finv_at_def flight_ok_def)
  define st' where "st' = st\<lparr>
      socks := (socks st)(s \<mapsto> k\<lparr>sk_omem_alloc := sk_omem_alloc k - sk_filter_len f\<rparr>),
      kheap := (kheap st)(a \<mapsto> f\<lparr>refcnt := refcnt f - 1\<rparr>),
      rcu_cbs := rcu_cbs st @ (if refcnt f = 1 then [(a, map fst (readers st))] else [])\<rparr>"
  have flds: "socks st' = (socks st)(s \<mapsto> k\<lparr>sk_omem_alloc := sk_omem_alloc k - sk_filter_len f\<rparr>)"
      "kheap st' = (kheap st)(a \<mapsto> f\<lparr>refcnt := refcnt f - 1\<rparr>)" "readers st' = readers st"
      "rcu_cbs st' = rcu_cbs st @ (if refcnt f = 1 then [(a, map fst (readers st))] else [])"
    by (simp_all add: st'_def)
  have refs: "refs st' b = refs st b" for b
    using k by (auto simp: refs_def flds)
  have pend: "pend st' = pend st \<union> (if refcnt f = 1 then {a} else {})"
    by (auto simp: pend_def flds)
  have chg: "charge st' q = charge st q" for q
    using f by (auto simp: charge_def flds sk_filter_len_def split: option.splits)
  have cnt: "unat (refcnt f) = card (refs st a) + 1"
    using assms f p by (auto simp: finv_at_def counted_def in_flight_def)
  moreover have "refcnt f = 1 \<longleftrightarrow> unat (refcnt f) = 1" by (simp add: word_unat_eq_iff)
  ultimately have one: "refcnt f = 1 \<longleftrightarrow> refs st a = {}" by simp
  have dec: "unat (refcnt f - 1) = card (refs st a)"
    using cnt by (subst unat_minus_one) auto
  have "counted None st'"
    unfolding counted_def
  proof (intro allI impI)
    fix b g assume g: "kheap st' b = Some g" "b \<notin> pend st'"
    show "unat (refcnt g) = card (refs st' b) + in_flight None b \<and>
        0 < card (refs st' b) + in_flight None b"
    proof (cases "b = a")
      case True
      then have "refs st a \<noteq> {}" using g(2) one by (auto simp: pend)
      then show ?thesis using True g dec by (auto simp: refs in_flight_def flds card_gt_0_iff)
    next
      case False
      then have "kheap st b = Some g" "b \<notin> pend st" using g pend by (auto simp: flds)
      then have "unat (refcnt g) = card (refs st b) + in_flight (Some (s, a)) b \<and>
          0 < card (refs st b) + in_flight (Some (s, a)) b"
        using assms countedD [of "Some (s, a)" st b g] by (simp add: finv_at_def)
      then show ?thesis using False by (simp add: in_flight_def refs)
    qed
  qed
  moreover have "referenced st'"
    unfolding referenced_def
  proof (intro allI impI)
    fix t q b assume t: "socks st' t = Some q" "sk_filter_ptr q = Some b"
    then have "t \<in> refs st' b" by (auto simp: refs_def)
    then have t': "t \<in> refs st b" by (simp add: refs)
    then have "b \<notin> pend st" "\<exists>g. kheap st b = Some g \<and> checked_insns g"
      using assms by (auto simp: finv_at_def referenced_def refs_def)
    moreover have "\<not> (refcnt f = 1 \<and> b = a)" using one t' by auto
    ultimately show "b \<notin> pend st' \<and> (\<exists>g. kheap st' b = Some g \<and> checked_insns g)"
      using f by (auto simp: pend flds checked_insns_def)
  qed
  moreover have "flight_ok None st'" by (simp add: flight_ok_def)
  moreover have "deferred st'"
    using assms f p unfolding finv_at_def deferred_def pend
    by (auto simp: flds pend_def)
  moreover have "protected_readers st'"
    unfolding protected_readers_def
  proof (intro conjI ballI, unfold split_paired_all prod.case)
    show "distinct (map fst (readers st'))"
      using assms by (simp add: finv_at_def protected_readers_def flds)
    fix r b assume rb: "(r, b) \<in> set (readers st')"
    then have b: "(\<exists>g. kheap st b = Some g \<and> checked_insns g) \<and>
        (\<forall>w. (b, w) \<in> set (rcu_cbs st) \<longrightarrow> r \<in> set w)"
      using assms unfolding finv_at_def protected_readers_def flds by blast
    then have "\<exists>g. kheap st' b = Some g \<and> checked_insns g"
      using f by (auto simp: flds checked_insns_def)
    moreover have "r \<in> fst ` set (readers st)" using rb by (force simp: flds)
    ultimately show "(\<exists>g. kheap st' b = Some g \<and> checked_insns g) \<and>
        (\<forall>w. (b, w) \<in> set (rcu_cbs st') \<longrightarrow> r \<in> set w)"
      using b by (auto simp: flds)
  qed
  moreover have "accounted None st'"
    using assms f k unfolding finv_at_def accounted_def chg owed_def
    by (auto simp: flds charge_def)
  ultimately have "finv st'" by (simp add: finv_at_def)
  then show ?thesis using uncharge_eq [OF f k] f k by (auto simp: st'_def)
qed

section \<open>Every operation keeps the invariant\<close>

lemma put_sock_simps [simp]:
  "socks (put_sock s k st) = (socks st)(s \<mapsto> k)" "kheap (put_sock s k st) = kheap st"
  "rcu_cbs (put_sock s k st) = rcu_cbs st" "readers (put_sock s k st) = readers st"
  "pend (put_sock s k st) = pend st" "charge (put_sock s k st) = charge st"
  by (simp_all add: put_sock_def pend_def charge_def fun_eq_iff split: option.split)

lemma put_filter_simps [simp]:
  "socks (put_filter a f st) = socks st" "kheap (put_filter a f st) = (kheap st)(a \<mapsto> f)"
  "rcu_cbs (put_filter a f st) = rcu_cbs st" "readers (put_filter a f st) = readers st"
  "pend (put_filter a f st) = pend st" "refs (put_filter a f st) = refs st"
  by (simp_all add: put_filter_def pend_def refs_def fun_eq_iff)

lemma owed_put_sock [simp]: "owed h t (put_sock s k st) = owed h t st"
  by (simp add: owed_def split: option.split)

lemma refs_put_sock:
  "refs (put_sock s k st) a = (if sk_filter_ptr k = Some a then insert s (refs st a) else refs st a - {s})"
  by (auto simp: refs_def)

lemma charge_put_filter:
  "charge (put_filter a f st) p = (if p = Some a then sk_filter_len f else charge st p)"
  by (auto simp: charge_def split: option.splits)

lemma charge_put_filter_same:
  assumes "kheap st a = Some f" and "flen g = flen f"
  shows "charge (put_filter a g st) = charge st"
proof
  show "charge (put_filter a g st) p = charge st p" for p
    using assms by (auto simp: charge_put_filter) (simp add: charge_def sk_filter_len_def)
qed

lemma fresh_unused:
  assumes "finv_at h st" and "kheap st a = None"
  shows "refs st a = {}" "a \<notin> pend st" "in_flight h a = 0" "(r, a) \<notin> set (readers st)"
    "socks st s = Some k \<Longrightarrow> sk_filter_ptr k \<noteq> Some a" "h = Some (s, b) \<Longrightarrow> b \<noteq> a"
proof -
  show "socks st s = Some k \<Longrightarrow> sk_filter_ptr k \<noteq> Some a" for s k
    using assms unfolding finv_at_def referenced_def by fastforce
  then show "refs st a = {}" by (auto simp: refs_def)
  show "a \<notin> pend st" using assms unfolding finv_at_def deferred_def by blast
  show flight: "h = Some (s, b) \<Longrightarrow> b \<noteq> a" for s b
    using assms unfolding finv_at_def flight_ok_def by blast
  then show "in_flight h a = 0" by (auto simp: in_flight_def split: option.splits)
  show "(r, a) \<notin> set (readers st)"
    using assms unfolding finv_at_def protected_readers_def by fastforce
qed

lemma give_up_ref:
  assumes "finv st" and k: "socks st s = Some k"
  shows "finv_at (map_option (Pair s) (sk_filter_ptr k)) (put_sock s (k\<lparr>sk_filter_ptr := None\<rparr>) st)"
    (is "finv_at ?h ?st")
proof -
  have mem: "s \<in> refs st a \<longleftrightarrow> sk_filter_ptr k = Some a" for a using k by (simp add: refs_def)
  have "card (refs st a - {s}) + in_flight ?h a = card (refs st a)" for a
  proof (cases "s \<in> refs st a")
    case True
    then show ?thesis using mem [of a] card_Suc_Diff1 [OF finite True] by (simp add: in_flight_def)
  next
    case False
    then show ?thesis using mem [of a] by (auto simp: in_flight_def split: option.splits)
  qed
  then have "counted ?h ?st"
    using assms(1) by (simp add: finv_at_def counted_def refs_put_sock in_flight_def [of None])
  moreover have "referenced ?st" using assms(1) by (auto simp: finv_at_def referenced_def)
  moreover have "flight_ok ?h ?st"
    using assms by (fastforce simp: finv_at_def flight_ok_def referenced_def)
  moreover have "deferred ?st" "protected_readers ?st"
    using assms(1) by (simp_all add: finv_at_def deferred_def protected_readers_def)
  moreover have "accounted ?h ?st"
    using assms by (auto simp: finv_at_def accounted_def owed_def charge_def split: option.splits)
  ultimately show ?thesis by (simp add: finv_at_def)
qed

lemma take_new_ref:
  assumes "finv_at h st" and k: "socks st s = Some k" "sk_filter_ptr k = None"
    and a: "kheap st a = None" and f: "refcnt f = 1" "checked_insns f"
  shows "finv_at h (put_sock s (k\<lparr>sk_omem_alloc := sk_omem_alloc k + sk_filter_len f,
      sk_filter_ptr := Some a\<rparr>) (put_filter a f st))" (is "finv_at h ?st")
proof -
  note fresh = fresh_unused [OF assms(1) a]
  have not_ref: "refs st b - {s} = refs st b" for b using k by (auto simp: refs_def)
  have "counted h ?st"
    using assms(1) f(1) fresh(1-3) not_ref
    by (simp add: finv_at_def counted_def refs_put_sock)
  moreover have "referenced ?st"
    using assms(1) f(2) fresh(2) by (auto simp: finv_at_def referenced_def)
  moreover have "flight_ok h ?st"
    using assms(1) by (auto simp: finv_at_def flight_ok_def)
  moreover have "deferred ?st"
    using assms(1) by (auto simp: finv_at_def deferred_def)
  moreover have "protected_readers ?st"
    using assms(1) fresh(4) unfolding finv_at_def protected_readers_def by fastforce
  moreover have "accounted h ?st"
    using assms(1) k fresh(5,6)
    by (auto simp: finv_at_def accounted_def charge_put_filter owed_def charge_def
        split: option.splits)
  ultimately show ?thesis by (simp add: finv_at_def)
qed

lemma hold_new_filter:
  assumes "finv st" and k: "socks st s = Some k"
    and a: "kheap st a = None" and f: "refcnt f = 1"
  shows "finv_at (Some (s, a)) (put_filter a f
      (put_sock s (k\<lparr>sk_omem_alloc := sk_omem_alloc k + sk_filter_len f\<rparr>) st))"
    (is "finv_at ?h ?st")
proof -
  note fresh = fresh_unused [OF assms(1) a]
  have refs: "refs (put_sock s (k\<lparr>sk_omem_alloc := x\<rparr>) st) b = refs st b" for x b
    using k by (auto simp: refs_def)
  have "counted ?h ?st"
    using assms(1) f fresh(1) by (simp add: finv_at_def counted_def refs in_flight_def)
  moreover have "referenced ?st"
    using assms(1) fresh(5) k by (auto simp: finv_at_def referenced_def)
  moreover have "flight_ok ?h ?st" "deferred ?st"
    using assms(1) fresh(2) by (auto simp: finv_at_def flight_ok_def deferred_def)
  moreover have "protected_readers ?st"
    using assms(1) fresh(4) unfolding finv_at_def protected_readers_def by fastforce
  moreover have "accounted ?h ?st"
    using assms(1) k fresh(5)
    by (auto simp: finv_at_def accounted_def charge_put_filter owed_def)
  ultimately show ?thesis by (simp add: finv_at_def)
qed

lemma share_ref:
  assumes "finv st" and s: "socks st s = Some k" and n: "socks st n = None" "n \<noteq> 0"
    and a: "sk_filter_ptr k = Some a"
  shows "\<exists>st'. sk_filter_charge n a (put_sock n (k\<lparr>sk_omem_alloc := 0, sk_optmem := []\<rparr>) st) = Some st' \<and>
     finv st' \<and> (\<exists>q. socks st' n = Some q)"
proof -
  obtain f where f: "kheap st a = Some f" "checked_insns f" "a \<notin> pend st"
    using assms(1) s a unfolding finv_at_def referenced_def by blast
  let ?k = "k\<lparr>sk_optmem := [], sk_omem_alloc := sk_filter_len f\<rparr>"
  let ?f = "f\<lparr>refcnt := refcnt f + 1\<rparr>"
  define st' where "st' = put_sock n ?k (put_filter a ?f st)"
  have eq: "sk_filter_charge n a (put_sock n (k\<lparr>sk_omem_alloc := 0, sk_optmem := []\<rparr>) st) = Some st'"
    using f(1) by (simp add: sk_filter_charge_def st'_def put_sock_def put_filter_def)
  have new: "n \<notin> refs st b" for b using n by (simp add: refs_def)
  have "0 \<notin> refs st a" using assms(1) by (simp add: finv_at_def accounted_def refs_def)
  then have "refs st a \<subseteq> UNIV - {0, n}" using new by auto
  then have "card (refs st a) \<le> card (UNIV - {0, n} :: u32 set)" by (intro card_mono) auto
  also have "\<dots> \<le> 2 ^ 32 - 2" using n(2) by (simp add: card_Diff_subset card_word)
  finally have less: "card (refs st a) + 1 < 2 ^ 32" by simp
  have cnt: "unat (refcnt f) = card (refs st a)"
    using assms(1) f by (simp add: finv_at_def counted_def in_flight_def)
  then have inc: "unat (refcnt f + 1) = Suc (card (refs st a))"
    using less by (subst unat_add_no_wrap) simp_all
  have "counted None st'"
    using assms(1) inc a new f(3)
    by (simp add: finv_at_def counted_def st'_def refs_put_sock in_flight_def)
  moreover have "referenced st'"
    using assms(1) f a by (auto simp: finv_at_def referenced_def st'_def checked_insns_def)
  moreover have "flight_ok None st'" by (simp add: flight_ok_def)
  moreover have "deferred st'"
    using assms(1) by (auto simp: finv_at_def deferred_def st'_def)
  moreover have "protected_readers st'"
    using assms(1) f unfolding finv_at_def protected_readers_def
    by (fastforce simp: st'_def checked_insns_def)
  moreover have "accounted None st'"
    using assms(1) a n f(1) charge_put_filter_same [OF f(1), of ?f]
    by (auto simp: finv_at_def accounted_def st'_def owed_def) (simp add: charge_def)
  ultimately show ?thesis using eq by (auto simp: finv_at_def st'_def)
qed

lemma put_sock_no_filter_finv:
  assumes "finv_at h st" and "\<And>k'. socks st s = Some k' \<Longrightarrow> sk_filter_ptr k' = sk_filter_ptr k"
    and "socks st s = None \<Longrightarrow> sk_filter_ptr k = None \<and> s \<noteq> 0"
    and "sk_omem_alloc k = sum_list (sk_optmem k) + charge st (sk_filter_ptr k) + owed h s st"
  shows "finv_at h (put_sock s k st)"
proof -
  have refs: "refs (put_sock s k st) a = refs st a" for a
    using assms(2,3) by (cases "socks st s") (auto simp: refs_def)
  have "counted h (put_sock s k st)"
    using assms(1) by (simp add: finv_at_def counted_def refs)
  moreover have "referenced (put_sock s k st)"
    unfolding referenced_def
  proof (intro allI impI)
    fix t q a assume "socks (put_sock s k st) t = Some q" "sk_filter_ptr q = Some a"
    then have "t \<in> refs (put_sock s k st) a" by (auto simp: refs_def)
    then show "a \<notin> pend (put_sock s k st) \<and> (\<exists>f. kheap (put_sock s k st) a = Some f \<and> checked_insns f)"
      using assms(1) unfolding refs by (auto simp: finv_at_def referenced_def refs_def)
  qed
  moreover have "flight_ok h (put_sock s k st)" "deferred (put_sock s k st)"
      "protected_readers (put_sock s k st)"
    using assms(1) by (auto simp: finv_at_def flight_ok_def deferred_def protected_readers_def)
  moreover have "accounted h (put_sock s k st)"
    using assms(1,3,4) by (auto simp: finv_at_def accounted_def)
  ultimately show ?thesis by (simp add: finv_at_def)
qed

lemma delete_sock_finv:
  assumes "finv st" and "socks st s = Some k" and "sk_filter_ptr k = None"
  shows "finv (st\<lparr>socks := (socks st)(s := None)\<rparr>)"
proof -
  let ?st = "st\<lparr>socks := (socks st)(s := None)\<rparr>"
  have refs: "refs ?st a = refs st a" for a
    using assms(2,3) by (auto simp: refs_def)
  have same: "pend ?st = pend st" "charge ?st = charge st"
    by (simp_all add: pend_def charge_def fun_eq_iff split: option.split)
  have "counted None ?st" using assms(1) by (simp add: finv_at_def counted_def refs same)
  moreover have "referenced ?st" using assms(1) by (auto simp: finv_at_def referenced_def same)
  moreover have "flight_ok None ?st" "deferred ?st" "protected_readers ?st"
    using assms(1) by (auto simp: finv_at_def flight_ok_def deferred_def protected_readers_def same)
  moreover have "accounted None ?st"
    using assms(1) by (auto simp: finv_at_def accounted_def owed_def same)
  ultimately show ?thesis by (simp add: finv_at_def)
qed

lemma sk_chk_filter_mem:
  assumes "sk_chk_filter km p = Inr q"
  shows "sk_chk_filter True p = Inr q"
proof -
  have "km" using assms
    by (auto simp: sk_chk_filter_def check_load_and_stores_def Let_def split: if_splits sum.splits)
  with assms show ?thesis by simp
qed

lemma sock_kmalloc_cases:
  "sock_kmalloc om block sz k = (None, k) \<or>
   (\<exists>a. block = Some a \<and> sock_kmalloc om block sz k = (Some a, k\<lparr>sk_omem_alloc := sk_omem_alloc k + sz\<rparr>))"
  by (auto simp: sock_kmalloc_def Let_def split: option.split)

lemma attach_finv:
  assumes "finv st" and "fop_enabled (Attach block user km fprog s) st"
  shows "\<exists>r st'. sk_attach_filter om block user km fprog s st = Some (r, st') \<and> finv st'"
proof -
  obtain k where k: "socks st s = Some k" using assms(2) by auto
  let ?sz = "8 * ucast (fp_len fprog) + 16 :: u32"
  let ?k = "k\<lparr>sk_omem_alloc := sk_omem_alloc k + ?sz\<rparr>"
  consider (null) "fp_filter fprog = 0"
    | (nomem) "fp_filter fprog \<noteq> 0" "sock_kmalloc om block ?sz k = (None, k)"
    | (mem) a where "fp_filter fprog \<noteq> 0" "block = Some a" "sock_kmalloc om block ?sz k = (Some a, ?k)"
    using sock_kmalloc_cases [of om block ?sz k] by blast
  then show ?thesis
  proof cases
    case null
    then show ?thesis using assms(1) k by (simp add: sk_attach_filter_def)
  next
    case nomem
    then have "put_sock s k st = st" using k by (simp add: put_sock_def fun_upd_idem)
    then show ?thesis using assms(1) k nomem by (simp add: sk_attach_filter_def)
  next
    case mem
    have a: "kheap st a = None" using assms(2) mem(2) by simp
    let ?f = "\<lambda>p. \<lparr>refcnt = 1, flen = ucast (fp_len fprog), insns = p\<rparr>"
    have len: "sk_filter_len (?f p) = ?sz" for p by (simp add: sk_filter_len_def)
    show ?thesis
    proof (cases user)
      case None
      have "sock_kfree_s s a ?sz (put_sock s ?k st) = Some st"
        using k a by (simp add: sock_kfree_s_def kfree_def omem_sub_def put_sock_def fun_upd_idem)
      then show ?thesis using assms(1) k mem None by (simp add: sk_attach_filter_def)
    next
      case (Some p)
      show ?thesis
      proof (cases "sk_chk_filter km p")
        case (Inl e)
        show ?thesis
          using uncharge_finv [OF hold_new_filter [OF assms(1) k a, of "?f p"]] k mem Some Inl len
          by (auto simp: sk_attach_filter_def Let_def)
      next
        case (Inr q)
        let ?h = "map_option (Pair s) (sk_filter_ptr k)"
        have "checked_insns (?f q)" using sk_chk_filter_mem [OF Inr] by (auto simp: checked_insns_def)
        then have "finv_at ?h (put_sock s (k\<lparr>sk_filter_ptr := None, sk_omem_alloc := sk_omem_alloc k + ?sz,
            sk_filter_ptr := Some a\<rparr>) (put_filter a (?f q) (put_sock s (k\<lparr>sk_filter_ptr := None\<rparr>) st)))"
          (is "finv_at _ ?st")
          using take_new_ref [OF give_up_ref [OF assms(1) k], of s "k\<lparr>sk_filter_ptr := None\<rparr>" a "?f q"] a len
          by simp
        moreover have "?st = put_sock s (?k\<lparr>sk_filter_ptr := Some a\<rparr>)
            (put_filter a (?f q) (put_filter a (?f p) (put_sock s ?k st)))"
          by (simp add: put_sock_def put_filter_def)
        ultimately have inv: "finv_at ?h (put_sock s (?k\<lparr>sk_filter_ptr := Some a\<rparr>)
            (put_filter a (?f q) (put_filter a (?f p) (put_sock s ?k st))))" by (simp only:)
        show ?thesis
        proof (cases "sk_filter_ptr k")
          case None
          then show ?thesis using inv k mem Some Inr by (simp add: sk_attach_filter_def Let_def)
        next
          case (Some old)
          with inv obtain st' where "sk_filter_uncharge s old (put_sock s (?k\<lparr>sk_filter_ptr := Some a\<rparr>)
              (put_filter a (?f q) (put_filter a (?f p) (put_sock s ?k st)))) = Some st'" "finv st'"
            using uncharge_finv by (simp only: option.map) blast
          then show ?thesis using k mem \<open>user = Some p\<close> Some Inr
            by (simp add: sk_attach_filter_def Let_def)
        qed
      qed
    qed
  qed
qed

lemma detach_finv:
  assumes "finv st" and k: "socks st s = Some k"
  shows "\<exists>r st'. sk_detach_filter s st = Some (r, st') \<and> finv st'"
proof (cases "sk_filter_ptr k")
  case None
  then show ?thesis using assms by (simp add: sk_detach_filter_def)
next
  case (Some a)
  with give_up_ref [OF assms] obtain st' where
    "sk_filter_uncharge s a (put_sock s (k\<lparr>sk_filter_ptr := None\<rparr>) st) = Some st'" "finv st'"
    using uncharge_finv by (simp only: option.map) blast
  then show ?thesis using k Some by (simp add: sk_detach_filter_def)
qed

lemma free_finv:
  assumes "finv st" and k: "socks st s = Some k"
  shows "\<exists>st'. sk_free_final s st = Some (sum_list (sk_optmem k), st') \<and> finv st'"
proof (cases "sk_filter_ptr k")
  case None
  then show ?thesis using assms delete_sock_finv [OF assms None]
    by (simp add: sk_free_final_def finv_at_def accounted_def charge_def owed_def)
next
  case (Some a)
  let ?k = "k\<lparr>sk_filter_ptr := None\<rparr>"
  from give_up_ref [OF assms] Some have at: "finv_at (Some (s, a)) (put_sock s ?k st)" by simp
  from uncharge_finv [OF this] obtain st' f where
    u: "sk_filter_uncharge s a (put_sock s ?k st) = Some st'" "finv st'" and f: "kheap st a = Some f"
    and so: "socks st' = (socks st)(s \<mapsto> ?k\<lparr>sk_omem_alloc := sk_omem_alloc k - sk_filter_len f\<rparr>)"
    by auto
  have "sk_omem_alloc k - sk_filter_len f = sum_list (sk_optmem k)"
    using assms f Some by (auto simp: finv_at_def accounted_def charge_def owed_def)
  then have "sk_free_final s st = Some (sum_list (sk_optmem k), st'\<lparr>socks := (socks st')(s := None)\<rparr>)"
    using u(1) uncharge_eq [OF f k] uncharge_eq [of "put_sock s ?k st" a f s ?k] f k Some
    by (auto simp: sk_free_final_def put_sock_def)
  then show ?thesis using delete_sock_finv [OF u(2), of s] so by (simp del: fun_upd_apply) simp
qed

lemma clone_finv:
  assumes "finv st" and k: "socks st s = Some k" and n: "socks st n = None" "n \<noteq> 0"
  shows "\<exists>r st'. sk_clone (Some n) ok s st = Some (r, st') \<and> finv st'"
proof -
  let ?st = "put_sock n (k\<lparr>sk_omem_alloc := 0, sk_optmem := []\<rparr>) st"
  obtain st' q where st': "(case sk_filter_ptr k of None \<Rightarrow> Some ?st | Some a \<Rightarrow> sk_filter_charge n a ?st) = Some st'"
    "finv st'" "socks st' n = Some q"
  proof (cases "sk_filter_ptr k")
    case None
    then have "finv ?st" using assms
      by (intro put_sock_no_filter_finv) (simp_all add: charge_def owed_def)
    then show ?thesis using None that by simp
  next
    case (Some a)
    then show ?thesis using share_ref [OF assms(1) k n Some] that by auto
  qed
  from free_finv [OF st'(2,3)] obtain st'' where "sk_free_final n st' = Some (sum_list (sk_optmem q), st'')" "finv st''"
    by blast
  then show ?thesis using st' k by (simp add: sk_clone_def Let_def)
qed

lemma enter_finv:
  assumes "finv st" and "socks st s = Some k" and "r \<notin> fst ` set (readers st)"
  shows "\<exists>st'. sk_filter_enter r s st = Some st' \<and> finv st'"
proof (cases "sk_filter_ptr k")
  case None
  then show ?thesis using assms by (simp add: sk_filter_enter_def)
next
  case (Some a)
  let ?st = "st\<lparr>readers := (r, a) # readers st\<rparr>"
  have same: "pend ?st = pend st" "charge ?st = charge st" "refs ?st = refs st"
    by (simp_all add: pend_def charge_def refs_def fun_eq_iff split: option.split)
  have "a \<notin> pend st" "\<exists>f. kheap st a = Some f \<and> checked_insns f"
    using assms Some unfolding finv_at_def referenced_def by blast+
  then have "protected_readers ?st"
    using assms by (auto simp: finv_at_def protected_readers_def pend_def rev_image_eqI)
  then have "finv ?st"
    using assms(1)
    by (auto simp: finv_at_def counted_def referenced_def flight_ok_def deferred_def accounted_def
        owed_def same)
  then show ?thesis using assms(2) Some by (simp add: sk_filter_enter_def)
qed

lemma leave_finv:
  assumes "finv st" and "r \<in> fst ` set (readers st)"
  shows "\<exists>st'. sk_filter_leave r st = Some st' \<and> finv st'"
proof -
  from assms(2) obtain a where a: "map_of (readers st) r = Some a"
    by (meson map_of_eq_None_iff not_None_eq)
  then have "(r, a) \<in> set (readers st)" by (rule map_of_SomeD)
  then obtain f where f: "kheap st a = Some f"
    using assms(1) unfolding finv_at_def protected_readers_def by fastforce
  let ?st = "st\<lparr>readers := [e \<leftarrow> readers st. fst e \<noteq> r],
      rcu_cbs := map (\<lambda>(b, w). (b, removeAll r w)) (rcu_cbs st)\<rparr>"
  have fst: "map fst (rcu_cbs ?st) = map fst (rcu_cbs st)" by auto
  then have "pend ?st = pend st" unfolding pend_def by (metis image_set)
  then have same: "pend ?st = pend st" "charge ?st = charge st" "refs ?st = refs st"
    by (simp_all add: charge_def refs_def fun_eq_iff split: option.split)
  have "protected_readers ?st"
    using assms(1) by (auto simp: finv_at_def protected_readers_def distinct_map_filter)
  moreover have "deferred ?st" using assms(1) unfolding finv_at_def deferred_def same fst by simp
  ultimately have "finv ?st"
    using assms(1)
    by (auto simp: finv_at_def counted_def referenced_def flight_ok_def accounted_def owed_def same)
  then show ?thesis using a f by (simp add: sk_filter_leave_def)
qed

lemma callback_finv:
  assumes "finv st" and "(a, []) \<in> set (rcu_cbs st)"
  shows "finv (sk_filter_release_rcu a st)" (is "finv ?st")
proof -
  have flds: "socks ?st = socks st" "kheap ?st = (kheap st)(a := None)" "readers ?st = readers st"
      "rcu_cbs ?st = [c \<leftarrow> rcu_cbs st. fst c \<noteq> a]" "refs ?st = refs st"
    by (simp_all add: sk_filter_release_rcu_def kfree_def refs_def fun_eq_iff)
  have pend: "pend ?st = pend st - {a}" by (auto simp: pend_def flds)
  have a: "a \<in> pend st" using assms(2) by (force simp: pend_def)
  have unused: "sk_filter_ptr k \<noteq> Some a" if "socks st s = Some k" for s k
    using assms(1) that a unfolding finv_at_def referenced_def by blast
  have chg: "charge ?st (sk_filter_ptr k) = charge st (sk_filter_ptr k)" if "socks st s = Some k" for s k
    using unused [OF that] by (auto simp: charge_def flds split: option.split)
  have "counted None ?st" using assms(1) by (auto simp: finv_at_def counted_def flds pend)
  moreover have "referenced ?st" using assms(1) unused by (fastforce simp: finv_at_def referenced_def flds pend)
  moreover have "flight_ok None ?st" by (simp add: flight_ok_def)
  moreover have "deferred ?st"
    using assms(1) by (auto simp: finv_at_def deferred_def flds pend distinct_map_filter)
  moreover have "protected_readers ?st"
    using assms unfolding finv_at_def protected_readers_def flds by fastforce
  moreover have "accounted None ?st"
    using assms(1) chg by (auto simp: finv_at_def accounted_def owed_def flds)
  ultimately show ?thesis by (simp add: finv_at_def)
qed

lemma opt_alloc_finv:
  assumes "finv st" and k: "socks st s = Some k"
  shows "\<exists>st'. fop_exec om (Opt_alloc s block sz) st = Some st' \<and> finv st'"
proof -
  have acc: "sk_omem_alloc k = sum_list (sk_optmem k) + charge st (sk_filter_ptr k) + owed None s st"
    using assms by (simp add: finv_at_def accounted_def)
  from sock_kmalloc_cases [of om block sz k] show ?thesis
  proof
    assume "sock_kmalloc om block sz k = (None, k)"
    moreover have "put_sock s k st = st" using k by (simp add: put_sock_def fun_upd_idem)
    ultimately show ?thesis using assms by simp
  next
    assume "\<exists>a. block = Some a \<and> sock_kmalloc om block sz k = (Some a, k\<lparr>sk_omem_alloc := sk_omem_alloc k + sz\<rparr>)"
    then show ?thesis using assms acc
      by (auto intro!: put_sock_no_filter_finv simp: algebra_simps)
  qed
qed

lemma opt_free_finv:
  assumes "finv st" and k: "socks st s = Some k" "sz \<in> set (sk_optmem k)"
  shows "\<exists>st'. fop_exec om (Opt_free s sz) st = Some st' \<and> finv st'"
proof -
  have acc: "sk_omem_alloc k = sum_list (sk_optmem k) + charge st (sk_filter_ptr k) + owed None s st"
    using assms by (simp add: finv_at_def accounted_def)
  let ?k = "k\<lparr>sk_omem_alloc := sk_omem_alloc k - sz, sk_optmem := remove1 sz (sk_optmem k)\<rparr>"
  have "finv (put_sock s ?k st)"
    using assms acc sum_list_map_remove1 [of sz "sk_optmem k" id]
    by (intro put_sock_no_filter_finv) (auto simp: algebra_simps)
  then show ?thesis using k by (simp add: omem_sub_def put_sock_def)
qed

lemma fop_finv:
  assumes "finv st" and "fop_enabled c st"
  shows "\<exists>st'. fop_exec om c st = Some st' \<and> finv st'"
proof (cases c)
  case (Alloc s)
  then show ?thesis using assms
    by (auto intro!: put_sock_no_filter_finv simp: charge_def owed_def)
next
  case (Attach block user km fprog s)
  then show ?thesis using attach_finv [OF assms(1) assms(2) [unfolded Attach]]
    by (simp only: fop_exec.simps) force
next
  case (Detach s)
  then obtain k where "socks st s = Some k" using assms(2) by auto
  then show ?thesis using detach_finv [OF assms(1)] Detach by fastforce
next
  case (Clone n ok s)
  then obtain k where k: "socks st s = Some k" using assms(2) by auto
  show ?thesis
  proof (cases n)
    case None
    then show ?thesis using Clone k assms(1) by (simp add: sk_clone_def)
  next
    case (Some b)
    then have "socks st b = None" "b \<noteq> 0" using assms(2) Clone by auto
    from clone_finv [OF assms(1) k this] obtain r st' where
      "sk_clone (Some b) ok s st = Some (r, st')" "finv st'" by blast
    then show ?thesis using Clone Some by simp
  qed
next
  case (Free s)
  then obtain k where "socks st s = Some k" using assms(2) by auto
  then show ?thesis using free_finv [OF assms(1)] Free by fastforce
next
  case (Opt_alloc s block sz)
  then show ?thesis using opt_alloc_finv [OF assms(1)] assms(2) by auto
next
  case (Opt_free s sz)
  then obtain k where "socks st s = Some k" "sz \<in> set (sk_optmem k)"
    using assms(2) by (auto split: option.splits)
  then show ?thesis unfolding Opt_free by (rule opt_free_finv [OF assms(1)])
next
  case (Enter r s)
  then show ?thesis using enter_finv [OF assms(1)] assms(2) by auto
next
  case (Leave r)
  then show ?thesis using leave_finv [OF assms(1)] assms(2) by auto
next
  case (Rcu_callback a)
  then show ?thesis using callback_finv [OF assms(1)] assms(2) by auto
qed

lemma freach_finv: "freach om st \<Longrightarrow> finv st"
proof (induction rule: freach.induct)
  case freach_init
  then show ?case by (simp add: finv_at_def finv_parts fstate0_def pend_def)
next
  case (freach_step st c st')
  then show ?case using fop_finv [of st c om] by auto
qed

lemma sock_upd_commute:
  "(k :: sock)\<lparr>sk_filter_ptr := p, sk_omem_alloc := m\<rparr> = k\<lparr>sk_omem_alloc := m, sk_filter_ptr := p\<rparr>"
  by (cases k) simp

lemma sk_attach_filter_result:
  assumes "finv st" and "fop_enabled (Attach block user km fprog s) st" and k: "socks st s = Some k"
    and "sk_attach_filter om block user km fprog s st = Some (r, st')"
  shows "case r of
      Inl e \<Rightarrow> socks st' = socks st
    | Inr _ \<Rightarrow> (\<exists>a p q m. block = Some a \<and> user = Some p \<and> sk_chk_filter km p = Inr q \<and>
        kheap st' a = Some \<lparr>refcnt = 1, flen = ucast (fp_len fprog), insns = q\<rparr> \<and>
        socks st' = (socks st)(s \<mapsto> k\<lparr>sk_filter_ptr := Some a, sk_omem_alloc := m\<rparr>))"
proof -
  let ?sz = "8 * ucast (fp_len fprog) + 16 :: u32"
  let ?k = "k\<lparr>sk_omem_alloc := sk_omem_alloc k + ?sz\<rparr>"
  let ?f = "\<lambda>p. \<lparr>refcnt = 1, flen = ucast (fp_len fprog), insns = p\<rparr>"
  have len: "sk_filter_len (?f p) = ?sz" for p by (simp add: sk_filter_len_def)
  consider (null) "fp_filter fprog = 0"
    | (nomem) "fp_filter fprog \<noteq> 0" "sock_kmalloc om block ?sz k = (None, k)"
    | (mem) a where "fp_filter fprog \<noteq> 0" "block = Some a" "sock_kmalloc om block ?sz k = (Some a, ?k)"
    using sock_kmalloc_cases [of om block ?sz k] by blast
  then show ?thesis
  proof cases
    case mem
    have a: "kheap st a = None" using assms(2) mem(2) by simp
    show ?thesis
    proof (cases user)
      case None
      then show ?thesis using assms(4) k mem
        by (auto simp: sk_attach_filter_def sock_kfree_s_def kfree_def omem_sub_def put_sock_def fun_upd_idem)
    next
      case (Some p)
      show ?thesis
      proof (cases "sk_chk_filter km p")
        case (Inl e)
        then have "sk_filter_uncharge s a (put_filter a (?f p) (put_sock s ?k st)) = Some st'" "r = Inl e"
          using assms(4) k mem Some by (auto simp: sk_attach_filter_def Let_def)
        then show ?thesis using uncharge_eq [of "put_filter a (?f p) (put_sock s ?k st)" a "?f p" s ?k] k len
          by (auto simp: fun_upd_idem)
      next
        case (Inr q)
        let ?st = "put_sock s (?k\<lparr>sk_filter_ptr := Some a\<rparr>)
            (put_filter a (?f q) (put_filter a (?f p) (put_sock s ?k st)))"
        show ?thesis
        proof (cases "sk_filter_ptr k")
          case None
          then have "r = Inr ()" "st' = ?st"
            using assms(4) k mem Some Inr by (auto simp: sk_attach_filter_def Let_def)
          then show ?thesis using k mem Some Inr by (auto simp: sock_upd_commute)
        next
          case ptr: (Some old)
          then obtain g where g: "kheap st old = Some g"
            using assms(1) k unfolding finv_at_def referenced_def by blast
          have "old \<noteq> a" using g a by auto
          moreover have "sk_filter_uncharge s old ?st = Some st'" "r = Inr ()"
            using assms(4) k mem Some Inr ptr by (auto simp: sk_attach_filter_def Let_def)
          ultimately show ?thesis
            using uncharge_eq [of ?st old g s "?k\<lparr>sk_filter_ptr := Some a\<rparr>"] g mem Some Inr by auto
        qed
      qed
    qed
  qed (use assms(4) k in \<open>auto simp: sk_attach_filter_def put_sock_def fun_upd_idem\<close>)
qed

section \<open>A concrete history\<close>

fun fop_run :: "u32 \<Rightarrow> fop list \<Rightarrow> fstate \<Rightarrow> fstate option" where
  "fop_run om [] st = Some st"
| "fop_run om (c # cs) st =
     (if fop_enabled c st then (case fop_exec om c st of None \<Rightarrow> None | Some st' \<Rightarrow> fop_run om cs st')
      else None)"

lemma fop_run_freach: "freach om st \<Longrightarrow> fop_run om cs st = Some st' \<Longrightarrow> freach om st'"
  by (induction cs arbitrary: st) (auto split: if_splits option.splits intro: freach_step)

text \<open>A socket gets the filter \<^verbatim>\<open>ret #96\<close>, is cloned, and a packet arrives on the clone while the
  original replaces its filter.\<close>

definition ret_filter :: "sock_filter list" where
  "ret_filter = [\<lparr>sf_code = 6, sf_jt = 0, sf_jf = 0, sf_k = 96\<rparr>]"

definition demo_prog :: sock_fprog where
  "demo_prog = \<lparr>fp_len = 1, fp_filter = 0x8000\<rparr>"

definition demo_ops :: "fop list" where
  "demo_ops = [Alloc 0x10, Opt_alloc 0x10 (Some 0x80) 40, Attach (Some 0x100) (Some ret_filter) True demo_prog 0x10,
     Clone (Some 0x20) True 0x10, Enter 0 0x20, Attach (Some 0x200) (Some ret_filter) True demo_prog 0x10]"

definition demo_state :: fstate where
  "demo_state = the (fop_run 10240 demo_ops fstate0)"

lemma demo_runs: "fop_run 10240 demo_ops fstate0 = Some demo_state"
proof -
  have "fop_run 10240 demo_ops fstate0 \<noteq> None" by code_simp
  then show ?thesis by (auto simp: demo_state_def)
qed

lemma demo_reachable: "freach 10240 demo_state"
  by (rule fop_run_freach [OF freach_init demo_runs])

section \<open>Properties\<close>

text \<open>C12. No operation on sockets and filters ever touches freed memory: in every state
  reachable by any interleaving of attaching, detaching, cloning, freeing, option
  allocation, packet reception and deferred frees, every operation whose caller keeps its
  side of the contract finds the socket and the filter it dereferences alive.\<close>

theorem filter_ops_memory_safe:
  assumes "freach om st" and "fop_enabled c st"
  shows "\<exists>st'. fop_exec om c st = Some st'"
  using fop_finv [OF freach_finv [OF assms(1)] assms(2)] by blast

theorem filter_ops_memory_safe_witness:
  "fop_enabled (Leave 0) demo_state \<and> (\<exists>st'. fop_exec 10240 (Leave 0) demo_state = Some st')"
proof -
  have "fop_enabled (Leave 0) demo_state" by code_simp
  then show ?thesis using filter_ops_memory_safe [OF demo_reachable] by blast
qed

text \<open>C20. Reference counts and option memory are exact: a filter that is not waiting to be
  freed is referenced by exactly as many sockets as its count says, and by at least one
  (nothing leaks), and each socket's option-memory counter is the sum of the option blocks
  held by other code and the size of its filter.\<close>

theorem filter_accounting_exact:
  assumes "freach om st"
  shows "(\<forall>a f. kheap st a = Some f \<and> a \<notin> fst ` set (rcu_cbs st) \<longrightarrow>
       unat (refcnt f) = card {s. \<exists>k. socks st s = Some k \<and> sk_filter_ptr k = Some a} \<and> refcnt f \<noteq> 0) \<and>
    (\<forall>s k. socks st s = Some k \<longrightarrow> sk_omem_alloc k = sum_list (sk_optmem k) +
       (case sk_filter_ptr k of None \<Rightarrow> 0 | Some a \<Rightarrow> sk_filter_len (the (kheap st a))))"
proof (intro conjI allI impI; (elim conjE)?)
  note inv = freach_finv [OF assms]
  fix a f assume a: "kheap st a = Some f" "a \<notin> fst ` set (rcu_cbs st)"
  then have *: "unat (refcnt f) = card (refs st a) + in_flight None a \<and> 0 < card (refs st a) + in_flight None a"
    using inv by (intro countedD) (auto simp: finv_at_def pend_def)
  then show "unat (refcnt f) = card {s. \<exists>k. socks st s = Some k \<and> sk_filter_ptr k = Some a}"
    by (simp add: refs_def in_flight_def)
  show "refcnt f \<noteq> 0" using * by auto
next
  note inv = freach_finv [OF assms]
  fix s k assume k: "socks st s = Some k"
  have "kheap st a \<noteq> None" if "sk_filter_ptr k = Some a" for a
    using inv k that unfolding finv_at_def referenced_def by blast
  then show "sk_omem_alloc k = sum_list (sk_optmem k) +
      (case sk_filter_ptr k of None \<Rightarrow> 0 | Some a \<Rightarrow> sk_filter_len (the (kheap st a)))"
    using inv k by (auto simp: finv_at_def accounted_def owed_def charge_def split: option.splits)
qed

theorem filter_accounting_exact_witness:
  "map_option refcnt (kheap demo_state 0x100) = Some 1 \<and>
   card {s. \<exists>k. socks demo_state s = Some k \<and> sk_filter_ptr k = Some 0x100} = 1 \<and>
   map_option sk_omem_alloc (socks demo_state 0x10) = Some 64"
proof -
  have "map_option refcnt (kheap demo_state 0x100) = Some 1" and cbs: "rcu_cbs demo_state = []"
    and omem: "map_option sk_omem_alloc (socks demo_state 0x10) = Some 64"
    by code_simp+
  then obtain f where f: "kheap demo_state 0x100 = Some f" "refcnt f = 1" by auto
  then show ?thesis
    using conjunct1 [OF filter_accounting_exact [OF demo_reachable], rule_format, of "0x100" f] cbs omem
    by simp
qed

text \<open>C32. Attaching is atomic: when \<^const>\<open>sk_attach_filter\<close> reports an error, every socket keeps its filter
  and its option-memory counter; when it succeeds, the socket points to a fresh filter that
  holds the program as rewritten by the checker with a count of one, and no other socket
  changed.\<close>

theorem sk_attach_filter_atomic:
  assumes "freach om st" and "fop_enabled (Attach block user km fprog s) st" and "socks st s = Some k"
    and "sk_attach_filter om block user km fprog s st = Some (r, st')"
  shows "case r of
      Inl e \<Rightarrow> socks st' = socks st
    | Inr _ \<Rightarrow> (\<exists>a p q m. block = Some a \<and> user = Some p \<and> sk_chk_filter km p = Inr q \<and>
        kheap st' a = Some \<lparr>refcnt = 1, flen = ucast (fp_len fprog), insns = q\<rparr> \<and>
        socks st' = (socks st)(s \<mapsto> k\<lparr>sk_filter_ptr := Some a, sk_omem_alloc := m\<rparr>))"
  by (rule sk_attach_filter_result [OF freach_finv [OF assms(1)] assms(2-4)])

theorem sk_attach_filter_atomic_witness:
  "\<exists>st'. sk_attach_filter 10240 (Some 0x300) (Some []) True (demo_prog\<lparr>fp_len := 0\<rparr>) 0x20 demo_state
       = Some (Inl EINVAL, st') \<and> socks st' = socks demo_state"
proof -
  let ?res = "sk_attach_filter 10240 (Some 0x300) (Some []) True (demo_prog\<lparr>fp_len := 0\<rparr>) 0x20 demo_state"
  have "map_option fst ?res = Some (Inl EINVAL)" by code_simp
  then obtain st' where res: "?res = Some (Inl EINVAL, st')" by auto
  have en: "fop_enabled (Attach (Some 0x300) (Some []) True (demo_prog\<lparr>fp_len := 0\<rparr>) 0x20) demo_state"
    by code_simp
  then obtain k where "socks demo_state 0x20 = Some k" by auto
  from sk_attach_filter_atomic [OF demo_reachable en this res] res show ?thesis by auto
qed

text \<open>C33. A freed socket leaks no filter memory: the amount \<^verbatim>\<open>__sk_free\<close> reports as leaked option
  memory is exactly what other protocol code has not returned, so it is zero when that code
  freed its blocks.\<close>

theorem sk_free_leaks_no_filter:
  assumes "freach om st" and "socks st s = Some k"
  shows "\<exists>st'. sk_free_final s st = Some (sum_list (sk_optmem k), st')"
  using free_finv [OF freach_finv [OF assms(1)] assms(2)] by blast

theorem sk_free_leaks_no_filter_witness:
  "map_option fst (sk_free_final 0x20 demo_state) = Some 0 \<and>
   map_option fst (sk_free_final 0x10 demo_state) = Some 40"
proof -
  have "map_option sk_optmem (socks demo_state 0x20) = Some []"
    "map_option sk_optmem (socks demo_state 0x10) = Some [40]" by code_simp+
  then obtain k k' where "socks demo_state 0x20 = Some k" "sk_optmem k = []"
    "socks demo_state 0x10 = Some k'" "sk_optmem k' = [40]" by auto
  then show ?thesis
    using sk_free_leaks_no_filter [OF demo_reachable, of "0x20" k]
      sk_free_leaks_no_filter [OF demo_reachable, of "0x10" k'] by auto
qed

end
