(* ===== verification/Ring_Buffer.thy ===== *)
theory Ring_Buffer
  imports Kernel_Prelude
begin

text \<open>
  Copies into and out of circular buffers.  Kernel ring buffers move a block with two
  \<^verbatim>\<open>memcpy\<close> calls, one up to the end of the area and one from its start.  This theory gives
  checked block copies, the logical contents of a ring, and the lemmas by which a two-part
  copy is one logical copy.
\<close>

section \<open>Checked block copies\<close>

definition memcpy_to :: "nat \<Rightarrow> 'a list \<Rightarrow> 'a list \<Rightarrow> 'a list option" where
  "memcpy_to off src area =
     (if off + length src \<le> length area
      then Some (take off area @ src @ drop (off + length src) area) else None)"

definition memcpy_from :: "nat \<Rightarrow> nat \<Rightarrow> 'a list \<Rightarrow> 'a list option" where
  "memcpy_from off n area = (if off + n \<le> length area then Some (take n (drop off area)) else None)"

text \<open>The logical contents: \<open>n\<close> cells from \<open>start\<close>, going round at \<open>N\<close>.\<close>

definition ring_read :: "'a list \<Rightarrow> nat \<Rightarrow> nat \<Rightarrow> nat \<Rightarrow> 'a list" where
  "ring_read area N start n = map (\<lambda>j. area ! ((start + j) mod N)) [0..<n]"

section \<open>Lemmas\<close>

lemma memcpy_to_nth:
  assumes "memcpy_to off src area = Some area'"
  shows "length area' = length area" and "i < length area \<Longrightarrow>
    area' ! i = (if off \<le> i \<and> i < off + length src then src ! (i - off) else area ! i)"
  using assms
  by (auto simp: memcpy_to_def nth_append min_def add.commute not_less split: if_splits)

lemma length_ring_read [simp]: "length (ring_read area N start n) = n"
  by (simp add: ring_read_def)

lemma ring_read_0 [simp]: "ring_read area N start 0 = []"
  by (simp add: ring_read_def)

lemma ring_read_append:
  "ring_read area N start (m + n) = ring_read area N start m @ ring_read area N (start + m) n"
  by (rule nth_equalityI) (auto simp: ring_read_def nth_append add.assoc)

lemma ring_read_mod [simp]: "ring_read area N (start mod N) n = ring_read area N start n"
  by (simp add: ring_read_def mod_add_left_eq)

lemma take_ring_read: "m \<le> n \<Longrightarrow> take m (ring_read area N start n) = ring_read area N start m"
  by (simp add: ring_read_def take_map)

lemma drop_ring_read: "drop m (ring_read area N start n) = ring_read area N (start + m) (n - m)"
  by (rule nth_equalityI) (auto simp: ring_read_def add.assoc)

lemma ring_read_cong:
  assumes "\<And>j. j < n \<Longrightarrow> area' ! ((start + j) mod N) = area ! ((start + j) mod N)"
  shows "ring_read area' N start n = ring_read area N start n"
  using assms by (simp add: ring_read_def)

lemma ring_read_straight:
  assumes "start + n \<le> N" and "N \<le> length area"
  shows "ring_read area N start n = take n (drop start area)"
  using assms by (intro nth_equalityI) (auto simp: ring_read_def)

text \<open>Reading in two parts.\<close>

lemma ring_read_two_parts:
  assumes "start < N" and "n \<le> N" and "N \<le> length area" and "l = min n (N - start)"
  shows "memcpy_from start l area = Some (take l (drop start area))"
    and "memcpy_from 0 (n - l) area = Some (take (n - l) area)"
    and "take l (drop start area) @ take (n - l) area = ring_read area N start n"
proof -
  show "memcpy_from start l area = Some (take l (drop start area))"
    "memcpy_from 0 (n - l) area = Some (take (n - l) area)"
    using assms by (auto simp: memcpy_from_def)
  have "ring_read area N start n = ring_read area N start l @ ring_read area N (start + l) (n - l)"
    using ring_read_append [of area N start l "n - l"] assms(4) by simp
  also have "ring_read area N start l = take l (drop start area)"
    using assms by (intro ring_read_straight) auto
  also have "ring_read area N (start + l) (n - l) = take (n - l) area"
  proof (cases "n \<le> N - start")
    case True
    then show ?thesis using assms by simp
  next
    case False
    then have "start + l = N" using assms by simp
    then show ?thesis
      using assms ring_read_mod [of area N N "n - l"] ring_read_straight [of 0 "n - l" N area] by simp
  qed
  finally show "take l (drop start area) @ take (n - l) area = ring_read area N start n" ..
qed

text \<open>Writing in two parts: what each cell holds afterwards, by its distance from \<open>start\<close>.\<close>

lemma ring_distance:
  assumes "a < N" and "b < (N::nat)"
  shows "(a + N - b) mod N = (if b \<le> a then a - b else a + N - b)"
  using assms by (auto simp: le_mod_geq)

lemma ring_write_two_parts:
  assumes "start < N" and "length src \<le> N" and "N \<le> length area" and "l = min (length src) (N - start)"
    and "memcpy_to start (take l src) area = Some area1"
    and "memcpy_to 0 (drop l src) area1 = Some area2"
  shows "length area2 = length area"
    and "i < N \<Longrightarrow> area2 ! i = (let d = (i + N - start) mod N in if d < length src then src ! d else area ! i)"
proof -
  show len: "length area2 = length area"
    using memcpy_to_nth(1) [OF assms(5)] memcpy_to_nth(1) [OF assms(6)] by simp
  assume i: "i < N"
  have 1: "area1 ! i = (if start \<le> i \<and> i < start + l then src ! (i - start) else area ! i)"
    using memcpy_to_nth(2) [OF assms(5), of i] nth_take [of "i - start" l src] i assms(1,3,4)
    by (auto simp: less_diff_conv2)
  have 2: "area2 ! i = (if i < length src - l then src ! (l + i) else area1 ! i)"
    using memcpy_to_nth(2) [OF assms(6), of i] memcpy_to_nth(1) [OF assms(5)] i assms(3,4) by auto
  show "area2 ! i = (let d = (i + N - start) mod N in if d < length src then src ! d else area ! i)"
    unfolding Let_def ring_distance [OF i assms(1)] 1 2
    using i assms(1,2,4) by (auto simp: min_def add.commute)
qed

lemma ring_write_parts_fit:
  assumes "start < N" and "length src \<le> N" and "N \<le> length area" and "l = min (length src) (N - start)"
  shows "\<exists>area1 area2. memcpy_to start (take l src) area = Some area1 \<and>
     memcpy_to 0 (drop l src) area1 = Some area2"
  using assms by (auto simp: memcpy_to_def min_def)

lemma ring_offset_distance:
  assumes "0 < N" and "a < N" and "b \<le> (N::nat)"
  shows "((o' + a) mod N + N - (o' + b) mod N) mod N = (if b \<le> a then a - b else (N + a - b))"
proof -
  have "int (((o' + a) mod N + N - (o' + b) mod N) mod N)
      = ((int o' + int a) mod int N + int N - (int o' + int b) mod int N) mod int N"
    using order.strict_implies_order [OF mod_less_divisor [OF assms(1), of "o' + b"]]
    by (simp add: of_nat_mod of_nat_diff trans_le_add2)
  also have "\<dots> = ((int o' + int a) mod int N - (int o' + int b) mod int N + int N) mod int N"
    by (simp only: diff_add_eq)
  also have "\<dots> = (int o' + int a - (int o' + int b)) mod int N"
    by (simp only: mod_add_self2 mod_diff_eq)
  also have "\<dots> = (int a - int b) mod int N" by simp
  also have "\<dots> = int (if b \<le> a then a - b else N + a - b)"
  proof (cases "b \<le> a")
    case True
    then show ?thesis using assms by (simp add: of_nat_diff)
  next
    case False
    then have "(int a - int b) mod int N = (int a - int b + int N) mod int N" by simp
    also have "\<dots> = int a - int b + int N" using False assms by (intro mod_pos_pos_trivial) auto
    finally show ?thesis using False assms by (simp add: of_nat_diff)
  qed
  finally show ?thesis by (simp only: of_nat_eq_iff)
qed

text \<open>Appending to a ring: with \<open>n\<close> cells in use from \<open>o'\<close>, writing behind them in two parts
  extends the logical contents.\<close>

lemma ring_append:
  assumes "0 < N" and "N \<le> length area" and "n + length src \<le> N"
    and "start = (o' + n) mod N" and "l = min (length src) (N - start)"
    and "memcpy_to start (take l src) area = Some area1"
    and "memcpy_to 0 (drop l src) area1 = Some area2"
  shows "length area2 = length area"
    and "ring_read area2 N o' (n + length src) = ring_read area N o' n @ src"
proof -
  have start: "start < N" and src: "length src \<le> N" using assms by auto
  note w = ring_write_two_parts [OF start src assms(2,5-7)]
  show "length area2 = length area" by (rule w(1))
  show "ring_read area2 N o' (n + length src) = ring_read area N o' n @ src"
  proof (rule nth_equalityI)
    fix j assume "j < length (ring_read area2 N o' (n + length src))"
    then have j: "j < n + length src" by simp
    then have d: "((o' + j) mod N + N - start) mod N = (if n \<le> j then j - n else N + j - n)"
      unfolding assms(4) using assms(1,3) by (intro ring_offset_distance) auto
    have "area2 ! ((o' + j) mod N) =
        (let d = ((o' + j) mod N + N - start) mod N in if d < length src then src ! d else area ! ((o' + j) mod N))"
      using assms(1) by (intro w(2)) simp
    then show "ring_read area2 N o' (n + length src) ! j = (ring_read area N o' n @ src) ! j"
      using d j assms(3) by (auto simp: ring_read_def nth_append Let_def)
  qed simp
qed

end
