(* ===== verification/Bitops.thy ===== *)
theory Bitops
  imports Kernel_Prelude
begin

text \<open>
  Bit searching and powers of two: \<^verbatim>\<open>constant_fls\<close>, \<^verbatim>\<open>fls\<close> and \<^verbatim>\<open>ffs\<close> of
  \<^verbatim>\<open>arch/arm/include/asm/bitops.h\<close> (the run-time \<^verbatim>\<open>fls\<close> is one \<^verbatim>\<open>clz\<close> instruction that
  computes the same function) and the power-of-two helpers of \<^verbatim>\<open>include/linux/log2.h\<close>.
\<close>

section \<open>Definitions\<close>

text \<open>One halving step of \<^verbatim>\<open>constant_fls\<close>: shift the word up by \<open>k\<close> when its top \<open>k\<close> bits are
  clear.\<close>

definition fls_stage :: "u32 \<Rightarrow> nat \<Rightarrow> u32 \<times> nat \<Rightarrow> u32 \<times> nat" where
  "fls_stage hi n xr = (case xr of (x, r) \<Rightarrow>
     if x AND hi = 0 then (push_bit n x, r - n) else (x, r))"

definition constant_fls :: "u32 \<Rightarrow> nat" where
  "constant_fls x =
     (if x = 0 then 0
      else snd (fls_stage 0x80000000 1 (fls_stage 0xc0000000 2 (fls_stage 0xf0000000 4
        (fls_stage 0xff000000 8 (fls_stage 0xffff0000 16 (x, 32)))))))"

definition fls :: "u32 \<Rightarrow> nat" where
  "fls x = constant_fls x"

definition ffs :: "u32 \<Rightarrow> nat" where
  "ffs x = fls (x AND - x)"

definition is_power_of_2 :: "u32 \<Rightarrow> bool" where
  "is_power_of_2 n \<longleftrightarrow> n \<noteq> 0 \<and> n AND (n - 1) = 0"

text \<open>\<^verbatim>\<open>__rounddown_pow_of_two(0)\<close> shifts by minus one, which the header calls undefined; the
  caller has to exclude it.\<close>

definition rounddown_pow_of_two :: "u32 \<Rightarrow> u32 option" where
  "rounddown_pow_of_two n = (if n = 0 then None else Some (push_bit (fls n - 1) 1))"

definition roundup_pow_of_two :: "u32 \<Rightarrow> u32 option" where
  "roundup_pow_of_two n = (let s = fls (n - 1) in if s < 32 then Some (push_bit s 1) else None)"

section \<open>Lemmas\<close>

lemma and_not_mask_zero:
  fixes x :: "'a::len word"
  assumes "m \<le> LENGTH('a)"
  shows "x AND NOT (mask m) = 0 \<longleftrightarrow> unat x < 2 ^ m"
proof -
  have "x AND NOT (mask m) = 0 \<longleftrightarrow> take_bit m x = x"
    by (auto simp: bit_eq_iff bit_simps)
  also have "\<dots> \<longleftrightarrow> take_bit m (unat x) = unat x"
    by (simp add: word_unat_eq_iff unsigned_take_bit_eq)
  also have "\<dots> \<longleftrightarrow> unat x < 2 ^ m" by (rule take_bit_nat_eq_self_iff)
  finally show ?thesis .
qed

lemma unat_pow2:
  assumes "n < 32"
  shows "unat (2 ^ n :: u32) = 2 ^ n"
proof -
  have "(2::nat) ^ n < 2 ^ 32" using assms by (intro power_strict_increasing) auto
  then have "unat (word_of_nat (2 ^ n) :: u32) = 2 ^ n" by (intro unat_word_of_nat_small) simp
  then show ?thesis by simp
qed

lemma fls_stage_inv:
  assumes hi: "hi = NOT (mask (32 - k))" and k: "0 < k" "2 * k \<le> 32"
    and x: "2 ^ (32 - 2 * k) \<le> unat x" "unat x = n * 2 ^ (32 - r)" and r: "2 * k \<le> r" "r \<le> 32"
    and st: "fls_stage hi k (x, r) = (x', r')"
  shows "2 ^ (32 - k) \<le> unat x'" "unat x' = n * 2 ^ (32 - r')" "k \<le> r'" "r' \<le> 32"
proof -
  show "k \<le> r'" "r' \<le> 32" using st r by (auto simp: fls_stage_def split: if_splits)
  have bits: "x AND hi = 0 \<longleftrightarrow> unat x < 2 ^ (32 - k)"
    unfolding hi by (rule and_not_mask_zero) simp
  have "2 ^ (32 - k) \<le> unat x' \<and> unat x' = n * 2 ^ (32 - r')"
  proof (cases "unat x < 2 ^ (32 - k)")
    case True
    then have st': "x' = push_bit k x" "r' = r - k" using st bits by (auto simp: fls_stage_def)
    have pow: "2 ^ (32 - k) * 2 ^ k = (2 ^ 32 :: nat)" using k by (simp flip: power_add)
    have "unat x * 2 ^ k < 2 ^ (32 - k) * 2 ^ k" using True by simp
    then have u: "unat x' = unat x * 2 ^ k"
      using pow unat_pow2 [of k] k by (simp add: st' push_bit_eq_mult unat_word_ariths)
    have "(2::nat) ^ (32 - k) = 2 ^ (32 - 2 * k) * 2 ^ k" using k by (simp flip: power_add)
    moreover have "n * 2 ^ (32 - r) * 2 ^ k = n * 2 ^ (32 - (r - k))"
      using r by (simp add: mult.assoc flip: power_add)
    ultimately show ?thesis using u x st' by simp
  next
    case False
    then show ?thesis using st bits x by (simp add: fls_stage_def)
  qed
  then show "2 ^ (32 - k) \<le> unat x'" "unat x' = n * 2 ^ (32 - r')" by auto
qed

lemma fls_stage_masks:
  "(0xffff0000::u32) = NOT (mask (32 - 16))" "(0xff000000::u32) = NOT (mask (32 - 8))"
  "(0xf0000000::u32) = NOT (mask (32 - 4))" "(0xc0000000::u32) = NOT (mask (32 - 2))"
  "(0x80000000::u32) = NOT (mask (32 - 1))"
  by (simp_all add: mask_eq_exp_minus_1)

lemma fls_bounds:
  assumes "x \<noteq> 0"
  shows "0 < fls x" "fls x \<le> 32" "2 ^ (fls x - 1) \<le> unat x" "unat x < 2 ^ fls x"
proof -
  obtain x1 r1 where 1: "fls_stage 0xffff0000 16 (x, 32) = (x1, r1)" by fastforce
  obtain x2 r2 where 2: "fls_stage 0xff000000 8 (x1, r1) = (x2, r2)" by fastforce
  obtain x3 r3 where 3: "fls_stage 0xf0000000 4 (x2, r2) = (x3, r3)" by fastforce
  obtain x4 r4 where 4: "fls_stage 0xc0000000 2 (x3, r3) = (x4, r4)" by fastforce
  obtain x5 r5 where 5: "fls_stage 0x80000000 1 (x4, r4) = (x5, r5)" by fastforce
  have fls: "fls x = r5"
    using assms unfolding fls_def constant_fls_def 1 2 3 4 5 by simp
  have "0 < unat x" using assms by (simp add: unat_gt_0)
  then have i0: "2 ^ (32 - 2 * 16) \<le> unat x" "unat x = unat x * 2 ^ (32 - 32)" by auto
  note i1 = fls_stage_inv [OF fls_stage_masks(1) _ _ i0 _ _ 1, simplified]
  note i2 = fls_stage_inv [OF fls_stage_masks(2) _ _ _ i1(2) _ i1(4) 2]
  have i2: "2 ^ (32 - 8) \<le> unat x2" "unat x2 = unat x * 2 ^ (32 - r2)" "8 \<le> r2" "r2 \<le> 32"
    using i2 i1 by simp_all
  note i3 = fls_stage_inv [OF fls_stage_masks(3) _ _ _ i2(2) _ i2(4) 3]
  have i3: "2 ^ (32 - 4) \<le> unat x3" "unat x3 = unat x * 2 ^ (32 - r3)" "4 \<le> r3" "r3 \<le> 32"
    using i3 i2 by simp_all
  note i4 = fls_stage_inv [OF fls_stage_masks(4) _ _ _ i3(2) _ i3(4) 4]
  have i4: "2 ^ (32 - 2) \<le> unat x4" "unat x4 = unat x * 2 ^ (32 - r4)" "2 \<le> r4" "r4 \<le> 32"
    using i4 i3 by simp_all
  note i5 = fls_stage_inv [OF fls_stage_masks(5) _ _ _ i4(2) _ i4(4) 5]
  have i5: "2 ^ (32 - 1) \<le> unat x5" "unat x5 = unat x * 2 ^ (32 - r5)" "1 \<le> r5" "r5 \<le> 32"
    using i5 i4 by simp_all
  have hi: "unat x * 2 ^ (32 - r5) < 2 ^ r5 * 2 ^ (32 - r5)"
    using unsigned_less [of x5, where 'a = nat] i5(2,4) by (simp flip: power_add)
  have "(2::nat) ^ (32 - 1) = 2 ^ (r5 - 1) * 2 ^ (32 - r5)" using i5 by (simp flip: power_add)
  then have lo: "2 ^ (r5 - 1) * 2 ^ (32 - r5) \<le> unat x * 2 ^ (32 - r5)" using i5(1,2) by simp
  show "0 < fls x" "fls x \<le> 32" "2 ^ (fls x - 1) \<le> unat x" "unat x < 2 ^ fls x"
    using i5 hi lo by (simp_all add: fls)
qed

lemma fls_0 [simp]: "fls 0 = 0"
  by (simp add: fls_def constant_fls_def)

lemma is_power_of_2_iff: "is_power_of_2 n \<longleftrightarrow> (\<exists>k < 32. n = 2 ^ k)"
proof
  assume "\<exists>k < 32. n = 2 ^ k"
  then obtain k where k: "k < 32" "n = 2 ^ k" by blast
  have "n AND (n - 1) = n AND mask k" by (simp add: k mask_eq_exp_minus_1)
  also have "\<dots> = 0" by (rule bit_word_eqI) (simp add: k bit_simps)
  finally show "is_power_of_2 n" using k by (simp add: is_power_of_2_def)
next
  assume p: "is_power_of_2 n"
  then have n: "n \<noteq> 0" "n AND (n - 1) = 0" by (auto simp: is_power_of_2_def)
  let ?k = "fls n - 1"
  note b = fls_bounds [OF n(1)]
  have k: "?k < 32" using b by simp
  have hi: "unat n < 2 * 2 ^ ?k" using b(1,4) by (simp flip: power_Suc)
  have "n = 2 ^ ?k"
  proof (rule ccontr)
    assume "n \<noteq> 2 ^ ?k"
    then have "unat n \<noteq> 2 ^ ?k" using unat_pow2 [OF k] by (simp add: word_unat_eq_iff)
    then have "2 ^ ?k \<le> unat n - 1" "unat n - 1 < 2 * 2 ^ ?k" using b(3) hi by simp_all
    moreover have "m div 2 ^ ?k = 1" if "2 ^ ?k \<le> m" "m < 2 * 2 ^ ?k" for m :: nat
      using that by (intro div_nat_eqI) auto
    ultimately have "bit (unat n) ?k" "bit (unat n - 1) ?k"
      using b(3) hi by (simp_all add: bit_iff_odd)
    then have "bit n ?k" "bit (n - 1) ?k"
      using unat_minus_one [OF n(1)] k bit_unsigned_iff [of n ?k, where 'a = nat]
        bit_unsigned_iff [of "n - 1" ?k, where 'a = nat] by simp_all
    then show False using n(2) by (metis bit_0_eq bit_and_iff bot_apply bot_bool_def)
  qed
  then show "\<exists>k < 32. n = 2 ^ k" using k by blast
qed

lemma rounddown_pow_of_two_bounds:
  assumes "rounddown_pow_of_two n = Some m"
  shows "is_power_of_2 m" "unat m \<le> unat n" "unat n < 2 * unat m"
proof -
  have n: "n \<noteq> 0" and m: "m = 2 ^ (fls n - 1)"
    using assms by (auto simp: rounddown_pow_of_two_def push_bit_eq_mult split: if_splits)
  note b = fls_bounds [OF n]
  then have k: "fls n - 1 < 32" by simp
  show "is_power_of_2 m" using k m by (auto simp: is_power_of_2_iff)
  show "unat m \<le> unat n" "unat n < 2 * unat m"
    using b m unat_pow2 [OF k] by (simp_all flip: power_Suc)
qed

end
