(* ===== verification/Kfifo.thy ===== *)
theory Kfifo
  imports Ring_Buffer Bitops
begin

text \<open>
  The generic kernel FIFO, \<^verbatim>\<open>kernel/kfifo.c\<close>: a power-of-two ring of fixed-size elements whose
  free-running 32-bit indices wrap around, the plain and user-space copies, and the
  variable-length records with a one or two byte length header.  Scatter-gather
  preparation is not modelled.

  A copy outside the buffer, or a read beyond the caller's source block, is the result
  \<open>None\<close>.
\<close>

section \<open>State\<close>

record kfifo =
  kf_in :: u32
  kf_out :: u32
  kf_mask :: u32
  kf_esize :: u32
  kf_data :: "u8 list"

definition kfifo_unused :: "kfifo \<Rightarrow> u32" where
  "kfifo_unused f = (kf_mask f + 1) - (kf_in f - kf_out f)"

section \<open>Allocation\<close>

text \<open>The size as a power of two; \<open>None\<close> where \<^verbatim>\<open>rounddown_pow_of_two\<close> is undefined.\<close>

definition kfifo_round :: "u32 \<Rightarrow> u32 option" where
  "kfifo_round sz = (if is_power_of_2 sz then Some sz else rounddown_pow_of_two sz)"

text \<open>\<open>block\<close> is the area \<^verbatim>\<open>kmalloc\<close> returns for the requested number of bytes.\<close>

definition kfifo_alloc :: "(u32 \<Rightarrow> u8 list option) \<Rightarrow> u32 \<Rightarrow> u32 \<Rightarrow> (unit kres \<times> kfifo) option" where
  "kfifo_alloc kmalloc sz es = (case kfifo_round sz of
     None \<Rightarrow> None
   | Some sz' \<Rightarrow>
       (let f = \<lparr>kf_in = 0, kf_out = 0, kf_mask = 0, kf_esize = es, kf_data = []\<rparr> in
        if sz' < 2 then Some (Inl EINVAL, f)
        else (case kmalloc (sz' * es) of
            None \<Rightarrow> Some (Inl ENOMEM, f)
          | Some block \<Rightarrow> Some (Inr (), f\<lparr>kf_data := block, kf_mask := sz' - 1\<rparr>))))"

definition kfifo_init :: "u8 list \<Rightarrow> u32 \<Rightarrow> u32 \<Rightarrow> (unit kres \<times> kfifo) option" where
  "kfifo_init buffer sz es =
     (if es = 0 then None
      else (case kfifo_round (sz div es) of
        None \<Rightarrow> None
      | Some sz' \<Rightarrow>
         (let f = \<lparr>kf_in = 0, kf_out = 0, kf_mask = 0, kf_esize = es, kf_data = buffer\<rparr> in
          if sz' < 2 then Some (Inl EINVAL, f)
          else Some (Inr (), f\<lparr>kf_mask := sz' - 1\<rparr>))))"

definition kfifo_free :: "kfifo \<Rightarrow> kfifo" where
  "kfifo_free f = \<lparr>kf_in = 0, kf_out = 0, kf_mask = 0, kf_esize = 0, kf_data = []\<rparr>"

section \<open>Copies\<close>

text \<open>The common prologue of the copy routines: offset, length and first part in bytes.\<close>

definition kfifo_span :: "kfifo \<Rightarrow> u32 \<Rightarrow> u32 \<Rightarrow> u32 \<times> u32 \<times> u32" where
  "kfifo_span f len off =
     (let sz = kf_mask f + 1; es = kf_esize f; off = off AND kf_mask f;
          (off, sz, len) = (if es \<noteq> 1 then (off * es, sz * es, len * es) else (off, sz, len))
      in (off, len, min len (sz - off)))"

definition kfifo_copy_in :: "kfifo \<Rightarrow> u8 list \<Rightarrow> u32 \<Rightarrow> u32 \<Rightarrow> kfifo option" where
  "kfifo_copy_in f src len off = (case kfifo_span f len off of (off, len, l) \<Rightarrow>
     (case memcpy_from 0 (unat l) src of None \<Rightarrow> None | Some a \<Rightarrow>
     (case memcpy_to (unat off) a (kf_data f) of None \<Rightarrow> None | Some d \<Rightarrow>
     (case memcpy_from (unat l) (unat (len - l)) src of None \<Rightarrow> None | Some b \<Rightarrow>
     (case memcpy_to 0 b d of None \<Rightarrow> None | Some d' \<Rightarrow> Some (f\<lparr>kf_data := d'\<rparr>))))))"

definition kfifo_copy_out :: "kfifo \<Rightarrow> u32 \<Rightarrow> u32 \<Rightarrow> u8 list option" where
  "kfifo_copy_out f len off = (case kfifo_span f len off of (off, len, l) \<Rightarrow>
     (case memcpy_from (unat off) (unat l) (kf_data f) of None \<Rightarrow> None | Some a \<Rightarrow>
     (case memcpy_from 0 (unat (len - l)) (kf_data f) of None \<Rightarrow> None | Some b \<Rightarrow> Some (a @ b))))"

definition kfifo_in :: "kfifo \<Rightarrow> u8 list \<Rightarrow> u32 \<Rightarrow> (u32 \<times> kfifo) option" where
  "kfifo_in f buf len =
     (let l = kfifo_unused f; len = (if len > l then l else len) in
      case kfifo_copy_in f buf len (kf_in f) of
        None \<Rightarrow> None
      | Some f' \<Rightarrow> Some (len, f'\<lparr>kf_in := kf_in f' + len\<rparr>))"

definition kfifo_out_peek :: "kfifo \<Rightarrow> u32 \<Rightarrow> (u32 \<times> u8 list) option" where
  "kfifo_out_peek f len =
     (let l = kf_in f - kf_out f; len = (if len > l then l else len) in
      map_option (Pair len) (kfifo_copy_out f len (kf_out f)))"

definition kfifo_out :: "kfifo \<Rightarrow> u32 \<Rightarrow> (u32 \<times> u8 list \<times> kfifo) option" where
  "kfifo_out f len = (case kfifo_out_peek f len of
     None \<Rightarrow> None
   | Some (len, bs) \<Rightarrow> Some (len, bs, f\<lparr>kf_out := kf_out f + len\<rparr>))"

section \<open>User-space copies\<close>

text \<open>\<^verbatim>\<open>copy_from_user\<close> reads what is accessible of the user's buffer, pads the destination with
  zero bytes and returns the number of bytes it could not copy.  \<^verbatim>\<open>copy_to_user\<close> stops at
  the end of the writable user area of \<open>cap\<close> bytes.\<close>

definition copy_from_user :: "u8 list \<Rightarrow> nat \<Rightarrow> nat \<Rightarrow> u8 list \<times> nat" where
  "copy_from_user ubuf p n =
     (let got = take n (drop p ubuf) in (got @ replicate (n - length got) 0, n - length got))"

definition copy_to_user :: "nat \<Rightarrow> nat \<Rightarrow> u8 list \<Rightarrow> u8 list \<times> nat" where
  "copy_to_user cap p bs = (take (cap - p) bs, length bs - (cap - p))"

definition div_round_up :: "u32 \<Rightarrow> u32 \<Rightarrow> u32" where
  "div_round_up n d = (n + d - 1) div d"

text \<open>The results are the fifo, the number of elements not copied, and \<^verbatim>\<open>*copied\<close>.\<close>

definition kfifo_copy_from_user :: "kfifo \<Rightarrow> u8 list \<Rightarrow> u32 \<Rightarrow> u32 \<Rightarrow> (kfifo \<times> u32 \<times> u32) option" where
  "kfifo_copy_from_user f ubuf len off = (case kfifo_span f len off of (off, len, l) \<Rightarrow>
     (case copy_from_user ubuf 0 (unat l) of (a, r) \<Rightarrow>
     (case memcpy_to (unat off) a (kf_data f) of None \<Rightarrow> None | Some d \<Rightarrow>
       (if r \<noteq> 0 then
          (let ret = div_round_up (word_of_nat r + len - l) (kf_esize f) in
           Some (f\<lparr>kf_data := d\<rparr>, ret, len - ret))
        else
          (case copy_from_user ubuf (unat l) (unat (len - l)) of (b, r') \<Rightarrow>
          (case memcpy_to 0 b d of None \<Rightarrow> None | Some d' \<Rightarrow>
            (let ret = (if r' \<noteq> 0 then div_round_up (word_of_nat r') (kf_esize f) else 0) in
             Some (f\<lparr>kf_data := d'\<rparr>, ret, len - ret))))))))"

definition kfifo_from_user :: "kfifo \<Rightarrow> u8 list \<Rightarrow> u32 \<Rightarrow> (unit kres \<times> u32 \<times> kfifo) option" where
  "kfifo_from_user f ubuf len =
     (let es = kf_esize f; len = (if es \<noteq> 1 then len div es else len);
          l = kfifo_unused f; len = (if len > l then l else len) in
      case kfifo_copy_from_user f ubuf len (kf_in f) of
        None \<Rightarrow> None
      | Some (f', ret, copied) \<Rightarrow>
          (if ret \<noteq> 0 then Some (Inl EFAULT, copied, f'\<lparr>kf_in := kf_in f' + (len - ret)\<rparr>)
           else Some (Inr (), copied, f'\<lparr>kf_in := kf_in f' + len\<rparr>)))"

text \<open>The first component is what reached the user's area.\<close>

definition kfifo_copy_to_user :: "kfifo \<Rightarrow> nat \<Rightarrow> u32 \<Rightarrow> u32 \<Rightarrow> (u8 list \<times> u32 \<times> u32) option" where
  "kfifo_copy_to_user f cap len off = (case kfifo_span f len off of (off, len, l) \<Rightarrow>
     (case memcpy_from (unat off) (unat l) (kf_data f) of None \<Rightarrow> None | Some a \<Rightarrow>
     (case copy_to_user cap 0 a of (ua, r) \<Rightarrow>
       (if r \<noteq> 0 then
          (let ret = div_round_up (word_of_nat r + len - l) (kf_esize f) in Some (ua, ret, len - ret))
        else
          (case memcpy_from 0 (unat (len - l)) (kf_data f) of None \<Rightarrow> None | Some b \<Rightarrow>
          (case copy_to_user cap (unat l) b of (ub, r') \<Rightarrow>
            (let ret = (if r' \<noteq> 0 then div_round_up (word_of_nat r') (kf_esize f) else 0) in
             Some (ua @ ub, ret, len - ret))))))))"

definition kfifo_to_user :: "kfifo \<Rightarrow> nat \<Rightarrow> u32 \<Rightarrow> (unit kres \<times> u8 list \<times> u32 \<times> kfifo) option" where
  "kfifo_to_user f cap len =
     (let es = kf_esize f; len = (if es \<noteq> 1 then len div es else len);
          l = kf_in f - kf_out f; len = (if len > l then l else len) in
      case kfifo_copy_to_user f cap len (kf_out f) of
        None \<Rightarrow> None
      | Some (bs, ret, copied) \<Rightarrow>
          (if ret \<noteq> 0 then Some (Inl EFAULT, bs, copied, f\<lparr>kf_out := kf_out f + (len - ret)\<rparr>)
           else Some (Inr (), bs, copied, f\<lparr>kf_out := kf_out f + len\<rparr>)))"

section \<open>Records\<close>

definition kfifo_max_r :: "u32 \<Rightarrow> nat \<Rightarrow> u32" where
  "kfifo_max_r len recsize =
     (let m = push_bit (recsize * 8) 1 - 1 in if len > m then m else len)"

definition kfifo_peek :: "kfifo \<Rightarrow> u32 \<Rightarrow> u8 option" where
  "kfifo_peek f pos =
     (let i = unat (pos AND kf_mask f) in if i < length (kf_data f) then Some (kf_data f ! i) else None)"

definition kfifo_poke :: "kfifo \<Rightarrow> u32 \<Rightarrow> u32 \<Rightarrow> kfifo option" where
  "kfifo_poke f pos val =
     (let i = unat (pos AND kf_mask f) in
      if i < length (kf_data f) then Some (f\<lparr>kf_data := (kf_data f)[i := ucast val]\<rparr>) else None)"

definition kfifo_peek_n :: "kfifo \<Rightarrow> nat \<Rightarrow> u32 option" where
  "kfifo_peek_n f recsize = (case kfifo_peek f (kf_out f) of
     None \<Rightarrow> None
   | Some b0 \<Rightarrow>
       if recsize - 1 \<noteq> 0 then
         (case kfifo_peek f (kf_out f + 1) of
            None \<Rightarrow> None
          | Some b1 \<Rightarrow> Some (ucast b0 OR push_bit 8 (ucast b1)))
       else Some (ucast b0))"

definition kfifo_poke_n :: "kfifo \<Rightarrow> u32 \<Rightarrow> nat \<Rightarrow> kfifo option" where
  "kfifo_poke_n f n recsize = (case kfifo_poke f (kf_in f) n of
     None \<Rightarrow> None
   | Some f' \<Rightarrow> if recsize > 1 then kfifo_poke f' (kf_in f + 1) (drop_bit 8 n) else Some f')"

definition kfifo_in_r :: "kfifo \<Rightarrow> u8 list \<Rightarrow> u32 \<Rightarrow> nat \<Rightarrow> (u32 \<times> kfifo) option" where
  "kfifo_in_r f buf len recsize =
     (if len + word_of_nat recsize > kfifo_unused f then Some (0, f)
      else (case kfifo_poke_n f len recsize of
          None \<Rightarrow> None
        | Some f1 \<Rightarrow>
           (case kfifo_copy_in f1 buf len (kf_in f1 + word_of_nat recsize) of
              None \<Rightarrow> None
            | Some f2 \<Rightarrow> Some (len, f2\<lparr>kf_in := kf_in f2 + (len + word_of_nat recsize)\<rparr>))))"

definition kfifo_out_copy_r :: "kfifo \<Rightarrow> u32 \<Rightarrow> nat \<Rightarrow> (u32 \<times> u32 \<times> u8 list) option" where
  "kfifo_out_copy_r f len recsize = (case kfifo_peek_n f recsize of
     None \<Rightarrow> None
   | Some n \<Rightarrow>
       (let len = (if len > n then n else len) in
        map_option (\<lambda>bs. (n, len, bs)) (kfifo_copy_out f len (kf_out f + word_of_nat recsize))))"

definition kfifo_out_r :: "kfifo \<Rightarrow> u32 \<Rightarrow> nat \<Rightarrow> (u32 \<times> u8 list \<times> kfifo) option" where
  "kfifo_out_r f len recsize =
     (if kf_in f = kf_out f then Some (0, [], f)
      else (case kfifo_out_copy_r f len recsize of
          None \<Rightarrow> None
        | Some (n, len, bs) \<Rightarrow> Some (len, bs, f\<lparr>kf_out := kf_out f + (n + word_of_nat recsize)\<rparr>)))"

definition kfifo_out_peek_r :: "kfifo \<Rightarrow> u32 \<Rightarrow> nat \<Rightarrow> (u32 \<times> u8 list) option" where
  "kfifo_out_peek_r f len recsize =
     (if kf_in f = kf_out f then Some (0, [])
      else map_option (\<lambda>(n, len, bs). (len, bs)) (kfifo_out_copy_r f len recsize))"

definition kfifo_len_r :: "kfifo \<Rightarrow> nat \<Rightarrow> u32 option" where
  "kfifo_len_r f recsize = kfifo_peek_n f recsize"

definition kfifo_skip_r :: "kfifo \<Rightarrow> nat \<Rightarrow> kfifo option" where
  "kfifo_skip_r f recsize = (case kfifo_peek_n f recsize of
     None \<Rightarrow> None
   | Some n \<Rightarrow> Some (f\<lparr>kf_out := kf_out f + (n + word_of_nat recsize)\<rparr>))"

definition kfifo_from_user_r :: "kfifo \<Rightarrow> u8 list \<Rightarrow> u32 \<Rightarrow> nat \<Rightarrow> (unit kres \<times> u32 \<times> kfifo) option" where
  "kfifo_from_user_r f ubuf len recsize =
     (let len = kfifo_max_r len recsize in
      if len + word_of_nat recsize > kfifo_unused f then Some (Inr (), 0, f)
      else (case kfifo_poke_n f len recsize of
          None \<Rightarrow> None
        | Some f1 \<Rightarrow>
           (case kfifo_copy_from_user f1 ubuf len (kf_in f1 + word_of_nat recsize) of
              None \<Rightarrow> None
            | Some (f2, ret, copied) \<Rightarrow>
                if ret \<noteq> 0 then Some (Inl EFAULT, 0, f2)
                else Some (Inr (), copied, f2\<lparr>kf_in := kf_in f2 + (len + word_of_nat recsize)\<rparr>))))"

definition kfifo_to_user_r :: "kfifo \<Rightarrow> nat \<Rightarrow> u32 \<Rightarrow> nat \<Rightarrow> (unit kres \<times> u8 list \<times> u32 \<times> kfifo) option" where
  "kfifo_to_user_r f cap len recsize =
     (if kf_in f = kf_out f then Some (Inr (), [], 0, f)
      else (case kfifo_peek_n f recsize of
          None \<Rightarrow> None
        | Some n \<Rightarrow>
           (let len = (if len > n then n else len) in
            case kfifo_copy_to_user f cap len (kf_out f + word_of_nat recsize) of
              None \<Rightarrow> None
            | Some (bs, ret, copied) \<Rightarrow>
                if ret \<noteq> 0 then Some (Inl EFAULT, bs, 0, f)
                else Some (Inr (), bs, copied, f\<lparr>kf_out := kf_out f + (n + word_of_nat recsize)\<rparr>))))"

section \<open>Contents and well-formedness\<close>

definition kf_size :: "kfifo \<Rightarrow> nat" where
  "kf_size f = unat (kf_mask f) + 1"

definition kf_es :: "kfifo \<Rightarrow> nat" where
  "kf_es f = unat (kf_esize f)"

definition kf_used :: "kfifo \<Rightarrow> nat" where
  "kf_used f = unat (kf_in f - kf_out f)"

definition kf_start :: "kfifo \<Rightarrow> nat" where
  "kf_start f = (unat (kf_out f) mod kf_size f) * kf_es f"

text \<open>The bytes in the fifo, oldest first.\<close>

definition kf_bytes :: "kfifo \<Rightarrow> u8 list" where
  "kf_bytes f = ring_read (kf_data f) (kf_size f * kf_es f) (kf_start f) (kf_used f * kf_es f)"

text \<open>No kernel object spans more than half of the address space.\<close>

definition kfifo_area_wf :: "kfifo \<Rightarrow> bool" where
  "kfifo_area_wf f \<longleftrightarrow> is_power_of_2 (kf_mask f + 1) \<and> kf_mask f \<noteq> 0 \<and> 0 < kf_es f \<and>
     kf_size f * kf_es f \<le> 2 ^ 31 \<and> kf_size f * kf_es f \<le> length (kf_data f)"

definition kfifo_wf :: "kfifo \<Rightarrow> bool" where
  "kfifo_wf f \<longleftrightarrow> kfifo_area_wf f \<and> kf_used f \<le> kf_size f"

lemmas kf_defs = kf_size_def kf_es_def kf_used_def kf_start_def

lemma kfifo_mask:
  assumes "kfifo_area_wf f"
  obtains k where "0 < k" "k < 32" "kf_mask f = mask k" "kf_size f = 2 ^ k"
proof -
  obtain k where k: "k < 32" "kf_mask f + 1 = 2 ^ k"
    using assms by (auto simp: kfifo_area_wf_def is_power_of_2_iff)
  then have m: "kf_mask f = mask k" by (simp add: mask_eq_exp_minus_1 eq_diff_eq)
  moreover have "0 < k" using m assms by (cases k) (auto simp: kfifo_area_wf_def)
  moreover have "kf_size f = 2 ^ k"
    using k m unat_pow2 [of k] unat_minus_one [of "2 ^ k :: u32"]
    by (simp add: kf_size_def mask_eq_exp_minus_1)
  ultimately show ?thesis using that k by blast
qed

lemma and_mask_mod: "unat (x AND mask k :: u32) = unat x mod 2 ^ k"
  unfolding take_bit_eq_mask [symmetric] unsigned_take_bit_eq by (simp add: take_bit_eq_mod)

lemma kf_size_less:
  assumes "kfifo_area_wf f"
  shows "kf_size f < 2 ^ 32"
proof (rule kfifo_mask [OF assms])
  fix k assume "k < 32" "kf_size f = 2 ^ k"
  then show ?thesis using power_strict_increasing [of k 32 "2 :: nat"] by simp
qed

lemma kf_start_advance:
  "((unat (kf_out f) + cnt) mod kf_size f) * kf_es f = (kf_start f + cnt * kf_es f) mod (kf_size f * kf_es f)"
proof -
  have "(kf_start f + cnt * kf_es f) mod (kf_size f * kf_es f)
      = ((unat (kf_out f) mod kf_size f + cnt) * kf_es f) mod (kf_size f * kf_es f)"
    by (simp only: kf_start_def add_mult_distrib)
  also have "\<dots> = ((unat (kf_out f) mod kf_size f + cnt) mod kf_size f) * kf_es f"
    by (rule mod_mult_mult2)
  finally show ?thesis by (simp only: mod_add_left_eq)
qed

lemma unat_add_mod:
  assumes "k \<le> 32"
  shows "unat (x + y :: u32) mod 2 ^ k = (unat x + unat y) mod 2 ^ k"
proof -
  have "(2::nat) ^ k dvd 2 ^ 32" using assms by (rule le_imp_power_dvd)
  then show ?thesis by (simp add: unat_word_ariths mod_mod_cancel)
qed

lemma unat_mult_no_wrap:
  fixes a b :: "'a::len word"
  assumes "unat a * unat b < 2 ^ LENGTH('a)"
  shows "unat (a * b) = unat a * unat b"
  using assms by (simp add: unat_word_ariths)

lemma kfifo_span_eq:
  assumes "kfifo_area_wf f" and "unat len \<le> kf_size f"
  obtains a b c where "kfifo_span f len off = (a, b, c)"
    "unat a = (unat off mod kf_size f) * kf_es f" "unat b = unat len * kf_es f"
    "unat c = min (unat b) (kf_size f * kf_es f - unat a)" "unat (b - c) = unat b - unat c"
    "unat a < kf_size f * kf_es f"
proof -
  obtain k where k: "k < 32" "kf_mask f = mask k" "kf_size f = 2 ^ k"
    using kfifo_mask [OF assms(1)] by metis
  have es: "0 < unat (kf_esize f)" and fit: "2 ^ k * unat (kf_esize f) < 2 ^ 32"
    using assms(1) k by (auto simp: kfifo_area_wf_def kf_es_def)
  have sz: "kf_mask f + 1 = 2 ^ k" by (simp add: k mask_eq_exp_minus_1)
  let ?a = "(off AND mask k) * kf_esize f" and ?b = "len * kf_esize f" and ?s = "2 ^ k * kf_esize f"
  have "unat off mod 2 ^ k * unat (kf_esize f) < 2 ^ 32"
    by (rule le_less_trans [OF _ fit]) simp
  then have a: "unat ?a = (unat off mod 2 ^ k) * unat (kf_esize f)"
    by (subst unat_mult_no_wrap) (simp_all add: and_mask_mod)
  have "unat len * unat (kf_esize f) < 2 ^ 32"
    by (rule le_less_trans [OF _ fit]) (use assms(2) k in simp)
  then have b: "unat ?b = unat len * unat (kf_esize f)"
    by (subst unat_mult_no_wrap) simp_all
  have s: "unat ?s = 2 ^ k * unat (kf_esize f)"
    using fit k by (subst unat_mult_no_wrap) (simp_all add: unat_pow2)
  have less: "unat ?a < unat ?s" using a s es by simp
  then have d: "unat (?s - ?a) = unat ?s - unat ?a"
    by (intro unat_sub_no_wrap) (simp add: word_le_nat_alt)
  let ?c = "min ?b (?s - ?a)"
  have c: "unat ?c = min (unat ?b) (unat ?s - unat ?a)"
    using d by (auto simp: min_def word_le_nat_alt)
  have bc: "unat (?b - ?c) = unat ?b - unat ?c"
    by (rule unat_sub_no_wrap) simp
  have "kfifo_span f len off = (?a, ?b, ?c)"
    unfolding kfifo_span_def Let_def sz 
    by (cases "kf_esize f = 1") (simp_all only: k(2) prod.case mult_1_right if_True if_False simp_thms)
  then show ?thesis
    by (rule that) (simp_all only: a b c bc s less k(3) kf_es_def less [unfolded a s])
qed

lemma kfifo_span_at:
  assumes wf: "kfifo_area_wf f" and fit: "cnt + unat len \<le> kf_size f"
    and off: "off = kf_out f + word_of_nat cnt"
  obtains a b c where "kfifo_span f len off = (a, b, c)"
    "unat a = (kf_start f + cnt * kf_es f) mod (kf_size f * kf_es f)" "unat b = unat len * kf_es f"
    "unat c = min (unat b) (kf_size f * kf_es f - unat a)" "unat (b - c) = unat b - unat c"
    "unat a < kf_size f * kf_es f" "b = len * kf_esize f"
proof -
  let ?N = "kf_size f * kf_es f"
  obtain k where k: "k < 32" "kf_mask f = mask k" "kf_size f = 2 ^ k"
    using kfifo_mask [OF wf] by metis
  obtain a b c where span: "kfifo_span f len off = (a, b, c)"
    "unat a = (unat off mod kf_size f) * kf_es f" "unat b = unat len * kf_es f"
    "unat c = min (unat b) (?N - unat a)" "unat (b - c) = unat b - unat c" "unat a < ?N"
    using kfifo_span_eq [OF wf, of len off] fit by auto
  have "cnt < 2 ^ 32" using fit kf_size_less [OF wf] by simp
  then have "unat off mod kf_size f = (unat (kf_out f) + cnt) mod kf_size f"
    using unat_add_mod [of k "kf_out f" "word_of_nat cnt"] k by (simp add: off unat_of_nat)
  then have "unat a = (kf_start f + cnt * kf_es f) mod ?N"
    using span(2) kf_start_advance [of f cnt] by simp
  moreover have "b = len * kf_esize f"
    using span(1) unfolding kfifo_span_def Let_def by (cases "kf_esize f = 1") simp_all
  ultimately show ?thesis using that span(1,3-6) by blast
qed

lemma kfifo_copy_in_append:
  assumes wf: "kfifo_area_wf f" and fit: "cnt + unat len \<le> kf_size f"
    and off: "off = kf_out f + word_of_nat cnt" and src: "unat len * kf_es f \<le> length src"
  obtains d where "kfifo_copy_in f src len off = Some (f\<lparr>kf_data := d\<rparr>)"
    "length d = length (kf_data f)"
    "ring_read d (kf_size f * kf_es f) (kf_start f) ((cnt + unat len) * kf_es f) =
       ring_read (kf_data f) (kf_size f * kf_es f) (kf_start f) (cnt * kf_es f) @ take (unat len * kf_es f) src"
proof -
  let ?N = "kf_size f * kf_es f" and ?src = "take (unat len * kf_es f) src"
  obtain a b c where span: "kfifo_span f len off = (a, b, c)" and
    start: "unat a = (kf_start f + cnt * kf_es f) mod ?N" and
    span': "unat b = unat len * kf_es f" "unat c = min (unat b) (?N - unat a)"
    "unat (b - c) = unat b - unat c" "unat a < ?N"
    by (rule kfifo_span_at [OF wf fit off])
  have N: "0 < ?N" "?N \<le> length (kf_data f)" using wf by (auto simp: kfifo_area_wf_def kf_size_def)
  have len: "length ?src = unat b" using src span'(1) by simp
  have c: "unat c = min (length ?src) (?N - unat a)" using span'(2) len by simp
  have le: "length ?src \<le> ?N" using fit len span'(1) by simp
  obtain d1 d2 where d: "memcpy_to (unat a) (take (unat c) ?src) (kf_data f) = Some d1"
    "memcpy_to 0 (drop (unat c) ?src) d1 = Some d2"
    using ring_write_parts_fit [OF span'(4) le N(2) c] by blast
  have cb: "unat c \<le> unat b" using span'(2) by simp
  have f1: "memcpy_from 0 (unat c) src = Some (take (unat c) ?src)"
    using src cb span'(1) by (simp add: memcpy_from_def min_def)
  have f2: "memcpy_from (unat c) (unat (b - c)) src = Some (drop (unat c) ?src)"
    using src cb span'(1,3) by (simp add: memcpy_from_def drop_take)
  have "kfifo_copy_in f src len off = Some (f\<lparr>kf_data := d2\<rparr>)"
    using span f1 f2 d by (simp add: kfifo_copy_in_def)
  moreover have "cnt * kf_es f + length ?src \<le> ?N"
    using fit len span'(1) by (simp flip: add_mult_distrib)
  from ring_append [OF N this start c d]
  have "length d2 = length (kf_data f)"
    "ring_read d2 ?N (kf_start f) (cnt * kf_es f + length ?src) =
       ring_read (kf_data f) ?N (kf_start f) (cnt * kf_es f) @ ?src" .
  ultimately show ?thesis using that len span'(1) by (simp add: add_mult_distrib)
qed

lemma kfifo_copy_out_read:
  assumes wf: "kfifo_area_wf f" and fit: "cnt + unat len \<le> kf_size f"
    and off: "off = kf_out f + word_of_nat cnt"
  shows "kfifo_copy_out f len off =
     Some (ring_read (kf_data f) (kf_size f * kf_es f) (kf_start f + cnt * kf_es f) (unat len * kf_es f))"
proof -
  let ?N = "kf_size f * kf_es f"
  obtain a b c where span: "kfifo_span f len off = (a, b, c)" and
    start: "unat a = (kf_start f + cnt * kf_es f) mod ?N" and
    span': "unat b = unat len * kf_es f" "unat c = min (unat b) (?N - unat a)"
    "unat (b - c) = unat b - unat c" "unat a < ?N"
    by (rule kfifo_span_at [OF wf fit off])
  have N: "?N \<le> length (kf_data f)" using wf by (auto simp: kfifo_area_wf_def)
  have le: "unat b \<le> ?N" using fit span'(1) by simp
  note r = ring_read_two_parts [OF span'(4) le N span'(2)]
  then show ?thesis using span span'(1,3) by (simp add: kfifo_copy_out_def start)
qed

lemma kfifo_unused_eq:
  assumes "kfifo_wf f"
  shows "unat (kfifo_unused f) = kf_size f - kf_used f"
proof -
  have wf: "kfifo_area_wf f" and used: "kf_used f \<le> kf_size f" using assms by (auto simp: kfifo_wf_def)
  obtain k where k: "k < 32" "kf_mask f = mask k" "kf_size f = 2 ^ k"
    using kfifo_mask [OF wf] by metis
  have sz: "kf_mask f + 1 = 2 ^ k" by (simp add: k mask_eq_exp_minus_1)
  have "kf_in f - kf_out f \<le> 2 ^ k"
    using used k unat_pow2 [OF k(1)] by (simp add: word_le_nat_alt kf_used_def)
  then show ?thesis
    unfolding kfifo_unused_def sz by (simp add: unat_sub_no_wrap unat_pow2 k kf_used_def)
qed

lemma kf_simps [simp]:
  "kf_size (f\<lparr>kf_data := d\<rparr>) = kf_size f" "kf_es (f\<lparr>kf_data := d\<rparr>) = kf_es f"
  "kf_used (f\<lparr>kf_data := d\<rparr>) = kf_used f" "kf_start (f\<lparr>kf_data := d\<rparr>) = kf_start f"
  "kf_size (f\<lparr>kf_in := i\<rparr>) = kf_size f" "kf_es (f\<lparr>kf_in := i\<rparr>) = kf_es f"
  "kf_start (f\<lparr>kf_in := i\<rparr>) = kf_start f"
  "kf_size (f\<lparr>kf_out := i\<rparr>) = kf_size f" "kf_es (f\<lparr>kf_out := i\<rparr>) = kf_es f"
  "length d = length (kf_data f) \<Longrightarrow> kfifo_area_wf (f\<lparr>kf_data := d\<rparr>) = kfifo_area_wf f"
  "kfifo_area_wf (f\<lparr>kf_in := i\<rparr>) = kfifo_area_wf f"
  "kfifo_area_wf (f\<lparr>kf_out := i\<rparr>) = kfifo_area_wf f"
  by (simp_all add: kf_defs kfifo_area_wf_def)

lemma kf_used_push:
  assumes "kfifo_area_wf f" and "kf_used f + unat n \<le> kf_size f"
  shows "kf_used (f\<lparr>kf_in := kf_in f + n\<rparr>) = kf_used f + unat n"
proof -
  have eq: "kf_in f + n - kf_out f = (kf_in f - kf_out f) + n" by simp
  have "unat ((kf_in f - kf_out f) + n) = unat (kf_in f - kf_out f) + unat n"
    using assms(2) kf_size_less [OF assms(1)] by (intro unat_add_no_wrap) (simp add: kf_used_def)
  then show ?thesis by (simp add: kf_used_def eq)
qed

lemma kf_used_pull:
  assumes "unat n \<le> kf_used f"
  shows "kf_used (f\<lparr>kf_out := kf_out f + n\<rparr>) = kf_used f - unat n"
proof -
  have eq: "kf_in f - (kf_out f + n) = (kf_in f - kf_out f) - n" by simp
  have "unat ((kf_in f - kf_out f) - n) = unat (kf_in f - kf_out f) - unat n"
    using assms by (intro unat_sub_no_wrap) (simp add: kf_used_def word_le_nat_alt)
  then show ?thesis by (simp add: kf_used_def eq)
qed

lemma kf_start_pull:
  assumes "kfifo_area_wf f"
  shows "kf_start (f\<lparr>kf_out := kf_out f + n\<rparr>) = (kf_start f + unat n * kf_es f) mod (kf_size f * kf_es f)"
proof (rule kfifo_mask [OF assms])
  fix k assume "k < 32" "kf_size f = 2 ^ k"
  then show ?thesis
    using unat_add_mod [of k "kf_out f" n] kf_start_advance [of f "unat n"] by (simp add: kf_start_def)
qed

lemma kf_bytes_pull:
  assumes "kfifo_area_wf f" and "unat n \<le> kf_used f"
  shows "kf_bytes (f\<lparr>kf_out := kf_out f + n\<rparr>) = drop (unat n * kf_es f) (kf_bytes f)"
  using assms
  by (simp add: kf_bytes_def kf_used_pull kf_start_pull drop_ring_read diff_mult_distrib)

lemma length_kf_bytes [simp]: "length (kf_bytes f) = kf_used f * kf_es f"
  by (simp add: kf_bytes_def)

lemma kfifo_in_ok:
  assumes "kfifo_wf f" and "unat len * kf_es f \<le> length buf"
  shows "\<exists>n f'. kfifo_in f buf len = Some (n, f') \<and> kfifo_wf f' \<and>
     unat n = min (unat len) (kf_size f - kf_used f) \<and>
     kf_bytes f' = kf_bytes f @ take (unat n * kf_es f) buf \<and>
     kf_size f' = kf_size f \<and> kf_es f' = kf_es f"
proof -
  have wf: "kfifo_area_wf f" and used: "kf_used f \<le> kf_size f" using assms by (auto simp: kfifo_wf_def)
  let ?n = "if len > kfifo_unused f then kfifo_unused f else len"
  have n: "unat ?n = min (unat len) (kf_size f - kf_used f)"
    using kfifo_unused_eq [OF assms(1)] by (auto simp: word_less_nat_alt min_def)
  have fit: "kf_used f + unat ?n \<le> kf_size f" using n used by simp
  have "unat ?n \<le> unat len" using n by simp
  then have src: "unat ?n * kf_es f \<le> length buf" using assms(2) mult_le_mono1 order.trans by blast
  have off: "kf_in f = kf_out f + word_of_nat (kf_used f)" by (simp add: kf_used_def)
  obtain d where d: "kfifo_copy_in f buf ?n (kf_in f) = Some (f\<lparr>kf_data := d\<rparr>)"
    "length d = length (kf_data f)"
    "ring_read d (kf_size f * kf_es f) (kf_start f) ((kf_used f + unat ?n) * kf_es f) =
       kf_bytes f @ take (unat ?n * kf_es f) buf"
    using kfifo_copy_in_append [OF wf fit off src] unfolding kf_bytes_def by blast
  let ?f = "f\<lparr>kf_data := d, kf_in := kf_in f + ?n\<rparr>"
  have used': "kf_used ?f = kf_used f + unat ?n"
    using kf_used_push [of "f\<lparr>kf_data := d\<rparr>" ?n] wf fit d(2) by simp
  have "kfifo_in f buf len = Some (?n, ?f)" using d(1) by (simp add: kfifo_in_def Let_def)
  moreover have "kfifo_wf ?f" using wf d(2) fit used' by (simp add: kfifo_wf_def)
  moreover have "kf_bytes ?f = kf_bytes f @ take (unat ?n * kf_es f) buf"
    using d(3) used' by (simp add: kf_bytes_def [of ?f])
  ultimately show ?thesis using n by auto
qed

lemma kfifo_out_ok:
  assumes "kfifo_wf f"
  shows "\<exists>n bs f'. kfifo_out f len = Some (n, bs, f') \<and> kfifo_wf f' \<and>
     unat n = min (unat len) (kf_used f) \<and> kf_bytes f = bs @ kf_bytes f' \<and>
     length bs = unat n * kf_es f \<and> kf_size f' = kf_size f \<and> kf_es f' = kf_es f"
proof -
  have wf: "kfifo_area_wf f" and used: "kf_used f \<le> kf_size f" using assms by (auto simp: kfifo_wf_def)
  define n where "n = (if len > kf_in f - kf_out f then kf_in f - kf_out f else len)"
  have n: "unat n = min (unat len) (kf_used f)"
    by (auto simp: word_less_nat_alt min_def kf_used_def n_def)
  let ?bs = "ring_read (kf_data f) (kf_size f * kf_es f) (kf_start f) (unat n * kf_es f)"
  have bs: "kfifo_copy_out f n (kf_out f) = Some ?bs"
    using kfifo_copy_out_read [OF wf, of 0 n "kf_out f"] n used by simp
  have take: "?bs = take (unat n * kf_es f) (kf_bytes f)"
    using n by (simp add: kf_bytes_def take_ring_read)
  let ?f = "f\<lparr>kf_out := kf_out f + n\<rparr>"
  have "kfifo_out f len = Some (n, ?bs, ?f)"
    using bs by (simp add: kfifo_out_def kfifo_out_peek_def Let_def n_def)
  moreover have "kfifo_wf ?f" using wf used n by (simp add: kfifo_wf_def kf_used_pull)
  moreover have "kf_bytes f = ?bs @ kf_bytes ?f"
    unfolding take using n wf by (simp only: kf_bytes_pull min.cobounded2 append_take_drop_id)
  moreover have "length ?bs = unat n * kf_es f" by (rule length_ring_read)
  ultimately show ?thesis using n by (intro exI [of _ n] exI [of _ ?bs] exI [of _ ?f] conjI) simp_all
qed

section \<open>First in, first out\<close>

text \<open>A history of puts and gets on any byte queue: what was accepted, what was delivered.\<close>

datatype 'a fifo_op = Put "'a list" | Get nat

fun fifo_run :: "('q \<Rightarrow> 'a list \<Rightarrow> (nat \<times> 'q) option) \<Rightarrow> ('q \<Rightarrow> nat \<Rightarrow> ('a list \<times> 'q) option)
    \<Rightarrow> 'a fifo_op list \<Rightarrow> 'q \<Rightarrow> ('a list \<times> 'a list \<times> 'q) option" where
  "fifo_run put get [] q = Some ([], [], q)"
| "fifo_run put get (Put xs # ops) q = (case put q xs of
     None \<Rightarrow> None
   | Some (n, q') \<Rightarrow> map_option (\<lambda>(acc, del, q''). (take n xs @ acc, del, q'')) (fifo_run put get ops q'))"
| "fifo_run put get (Get n # ops) q = (case get q n of
     None \<Rightarrow> None
   | Some (ys, q') \<Rightarrow> map_option (\<lambda>(acc, del, q''). (acc, ys @ del, q'')) (fifo_run put get ops q'))"

locale bounded_fifo =
  fixes wf :: "'q \<Rightarrow> bool" and contents :: "'q \<Rightarrow> 'a list" and grain :: "'q \<Rightarrow> nat"
    and put :: "'q \<Rightarrow> 'a list \<Rightarrow> (nat \<times> 'q) option" and get :: "'q \<Rightarrow> nat \<Rightarrow> ('a list \<times> 'q) option"
  assumes put_law: "wf q \<Longrightarrow> grain q dvd length xs \<Longrightarrow>
      \<exists>n q'. put q xs = Some (n, q') \<and> wf q' \<and> grain q' = grain q \<and> contents q' = contents q @ take n xs"
    and get_law: "wf q \<Longrightarrow>
      \<exists>ys q'. get q n = Some (ys, q') \<and> wf q' \<and> grain q' = grain q \<and> contents q = ys @ contents q'"
begin

lemma stream:
  assumes "wf q" and "\<And>xs. Put xs \<in> set ops \<Longrightarrow> grain q dvd length xs"
  shows "\<exists>acc del q'. fifo_run put get ops q = Some (acc, del, q') \<and> wf q' \<and>
     contents q @ acc = del @ contents q'"
  using assms
proof (induction ops arbitrary: q)
  case Nil
  then show ?case by simp
next
  case (Cons c ops)
  show ?case
  proof (cases c)
    case (Put xs)
    then obtain n q1 where 1: "put q xs = Some (n, q1)" "wf q1" "grain q1 = grain q"
      "contents q1 = contents q @ take n xs"
      using put_law [OF Cons.prems(1), of xs] Cons.prems(2) by auto
    with Cons.IH [of q1] Cons.prems(2) obtain acc del q' where
      "fifo_run put get ops q1 = Some (acc, del, q')" "wf q'" "contents q1 @ acc = del @ contents q'"
      by auto
    then show ?thesis using 1 Put by auto
  next
    case (Get n)
    obtain ys q1 where 1: "get q n = Some (ys, q1)" "wf q1" "grain q1 = grain q"
      "contents q = ys @ contents q1"
      using get_law [OF Cons.prems(1), of n] by auto
    with Cons.IH [of q1] Cons.prems(2) obtain acc del q' where
      "fifo_run put get ops q1 = Some (acc, del, q')" "wf q'" "contents q1 @ acc = del @ contents q'"
      by auto
    then show ?thesis using 1 Get by auto
  qed
qed

end

definition kfifo_put :: "kfifo \<Rightarrow> u8 list \<Rightarrow> (nat \<times> kfifo) option" where
  "kfifo_put f bs =
     map_option (\<lambda>(n, f'). (unat n * kf_es f, f')) (kfifo_in f bs (word_of_nat (length bs div kf_es f)))"

definition kfifo_get :: "kfifo \<Rightarrow> nat \<Rightarrow> (u8 list \<times> kfifo) option" where
  "kfifo_get f n = map_option snd (kfifo_out f (word_of_nat n))"

lemma kfifo_put_law:
  assumes "kfifo_wf f"
  shows "\<exists>n f'. kfifo_put f bs = Some (n, f') \<and> kfifo_wf f' \<and> kf_es f' = kf_es f \<and>
     kf_bytes f' = kf_bytes f @ take n bs"
proof -
  let ?len = "word_of_nat (length bs div kf_es f) :: u32"
  have "unat ?len \<le> length bs div kf_es f" by (simp add: unat_of_nat)
  then have "unat ?len * kf_es f \<le> length bs"
    using div_times_less_eq_dividend mult_le_mono1 order.trans by blast
  from kfifo_in_ok [OF assms this] show ?thesis by (auto simp: kfifo_put_def)
qed

interpretation kf: bounded_fifo kfifo_wf kf_bytes kf_es kfifo_put kfifo_get
proof
  show "\<exists>n q'. kfifo_put q xs = Some (n, q') \<and> kfifo_wf q' \<and> kf_es q' = kf_es q \<and>
      kf_bytes q' = kf_bytes q @ take n xs" if "kfifo_wf q" for q xs
    using kfifo_put_law [OF that] .
  show "\<exists>ys q'. kfifo_get q n = Some (ys, q') \<and> kfifo_wf q' \<and> kf_es q' = kf_es q \<and>
      kf_bytes q = ys @ kf_bytes q'" if "kfifo_wf q" for q n
    using kfifo_out_ok [OF that, of "word_of_nat n"] by (auto simp: kfifo_get_def)
qed

section \<open>Records\<close>

definition rec_header :: "nat \<Rightarrow> nat \<Rightarrow> u8 list" where
  "rec_header recsize n = map (\<lambda>i. word_of_nat (n div 256 ^ i)) [0..<recsize]"

definition rec_bytes :: "nat \<Rightarrow> u8 list \<Rightarrow> u8 list" where
  "rec_bytes recsize x = rec_header recsize (length x) @ x"

text \<open>The fifo holds exactly the records \<open>xs\<close>, oldest first.\<close>

definition holds_records :: "nat \<Rightarrow> kfifo \<Rightarrow> u8 list list \<Rightarrow> bool" where
  "holds_records recsize f xs \<longleftrightarrow> kfifo_wf f \<and> kf_esize f = 1 \<and> recsize \<in> {1, 2} \<and>
     kf_bytes f = concat (map (rec_bytes recsize) xs) \<and> (\<forall>x \<in> set xs. length x < 256 ^ recsize)"

lemma kfifo_poke_copy:
  assumes "kfifo_area_wf f" and "kf_esize f = 1"
  shows "kfifo_poke f pos v = kfifo_copy_in f [ucast v] 1 pos"
proof -
  have es: "kf_es f = 1" using assms(2) by (simp add: kf_es_def)
  have "1 \<le> kf_size f" by (simp add: kf_size_def)
  then obtain a b c where span: "kfifo_span f 1 pos = (a, b, c)"
    "unat a = (unat pos mod kf_size f) * kf_es f" "unat b = unat (1 :: u32) * kf_es f"
    "unat c = min (unat b) (kf_size f * kf_es f - unat a)" "unat (b - c) = unat b - unat c"
    "unat a < kf_size f * kf_es f"
    using kfifo_span_eq [OF assms(1), of 1 pos] by auto
  obtain k where k: "kf_mask f = mask k" "kf_size f = 2 ^ k" using kfifo_mask [OF assms(1)] by metis
  have a: "unat (pos AND kf_mask f) = unat a" using span(2) es k by (simp add: and_mask_mod)
  have "kf_size f \<le> length (kf_data f)" using assms(1) es by (simp add: kfifo_area_wf_def)
  then have i: "unat a < length (kf_data f)" using span(6) es by simp
  have "unat c = 1" "unat (b - c) = 0" using span es by auto
  then show ?thesis
    using i span(1)
    by (simp add: kfifo_poke_def a kfifo_copy_in_def memcpy_from_def memcpy_to_def Let_def
        upd_conv_take_nth_drop)
qed

lemma kfifo_peek_nth:
  assumes "kfifo_area_wf f" and "kf_esize f = 1" and "i < kf_used f"
  shows "kfifo_peek f (kf_out f + word_of_nat i) = Some (kf_bytes f ! i)"
proof (rule kfifo_mask [OF assms(1)])
  fix k assume k: "k < 32" "kf_mask f = mask k" "kf_size f = 2 ^ k"
  have es: "kf_es f = 1" using assms(2) by (simp add: kf_es_def)
  have "unat (word_of_nat i :: u32) = i"
    using assms(3) unsigned_less [of "kf_in f - kf_out f", where 'a = nat]
    by (intro unat_word_of_nat_small) (simp add: kf_used_def)
  then have pos: "unat ((kf_out f + word_of_nat i) AND kf_mask f) = (unat (kf_out f) + i) mod kf_size f"
    using unat_add_mod [of k "kf_out f" "word_of_nat i"] k by (simp add: and_mask_mod)
  have "kf_size f \<le> length (kf_data f)" using assms(1) es by (simp add: kfifo_area_wf_def)
  moreover have "(unat (kf_out f) + i) mod kf_size f < kf_size f" by (simp add: kf_size_def)
  ultimately show ?thesis
    using assms(3) es
    by (simp add: kfifo_peek_def pos kf_bytes_def ring_read_def kf_start_def mod_add_left_eq Let_def)
qed

lemma ucast_of_nat_unat: "ucast (w :: 'a::len word) = (word_of_nat (unat w) :: 'b::len word)"
  by (simp add: word_unat_eq_iff unsigned_ucast_eq unat_of_nat take_bit_eq_mod)

lemma length_rec_header [simp]: "length (rec_header recsize n) = recsize"
  by (simp add: rec_header_def)

lemma rec_header_cases:
  "rec_header 1 n = [word_of_nat n]" "rec_header 2 n = [word_of_nat n, word_of_nat (n div 256)]"
  by (simp_all add: rec_header_def upt_rec)

text \<open>Writing the header is a copy of the header bytes.\<close>

lemma kfifo_poke_n_append:
  assumes wf: "kfifo_wf f" "kf_esize f = 1" and rs: "recsize \<in> {1, 2}"
    and fit: "kf_used f + recsize \<le> kf_size f"
  obtains d where "kfifo_poke_n f n recsize = Some (f\<lparr>kf_data := d\<rparr>)" "length d = length (kf_data f)"
    "ring_read d (kf_size f) (kf_start f) (kf_used f + recsize) = kf_bytes f @ rec_header recsize (unat n)"
proof -
  have area: "kfifo_area_wf f" using wf(1) by (simp add: kfifo_wf_def)
  have es: "kf_es f = 1" using wf(2) by (simp add: kf_es_def)
  have off: "kf_in f = kf_out f + word_of_nat (kf_used f)" by (simp add: kf_used_def)
  have fit1: "kf_used f + unat (1 :: u32) \<le> kf_size f" using fit rs by auto
  obtain d1 where d1: "kfifo_copy_in f [ucast n] 1 (kf_in f) = Some (f\<lparr>kf_data := d1\<rparr>)"
    "length d1 = length (kf_data f)"
    "ring_read d1 (kf_size f) (kf_start f) (kf_used f + 1) = kf_bytes f @ [ucast n]"
    using kfifo_copy_in_append [OF area fit1 off, of "[ucast n]"] es by (auto simp: kf_bytes_def)
  have b0: "ucast n = (word_of_nat (unat n) :: u8)" by (rule ucast_of_nat_unat)
  show ?thesis
  proof (cases "recsize = 1")
    case True
    then have "kfifo_poke_n f n recsize = Some (f\<lparr>kf_data := d1\<rparr>)"
      using d1(1) by (simp add: kfifo_poke_n_def kfifo_poke_copy [OF area wf(2)])
    moreover have "ring_read d1 (kf_size f) (kf_start f) (kf_used f + recsize) =
        kf_bytes f @ rec_header recsize (unat n)"
      unfolding True rec_header_cases(1) d1(3) b0 ..
    ultimately show ?thesis using that d1(2) by blast
  next
    case False
    then have two: "recsize = 2" using rs by simp
    let ?f = "f\<lparr>kf_data := d1\<rparr>"
    have area1: "kfifo_area_wf ?f" using area d1(2) by simp
    have off1: "kf_in f + 1 = kf_out ?f + word_of_nat (kf_used f + 1)"
      using off by (simp add: add.assoc)
    have fit2: "kf_used f + 1 + unat (1 :: u32) \<le> kf_size ?f" using fit two by simp
    obtain d2 where d2: "kfifo_copy_in ?f [ucast (drop_bit 8 n)] 1 (kf_in f + 1) = Some (?f\<lparr>kf_data := d2\<rparr>)"
      "length d2 = length (kf_data ?f)"
      "ring_read d2 (kf_size f) (kf_start f) (kf_used f + 2) =
         ring_read d1 (kf_size f) (kf_start f) (kf_used f + 1) @ [ucast (drop_bit 8 n)]"
      using kfifo_copy_in_append [OF area1 fit2 off1, of "[ucast (drop_bit 8 n)]"] es by auto
    have "ucast (drop_bit 8 n) = (word_of_nat (unat (drop_bit 8 n)) :: u8)" by (rule ucast_of_nat_unat)
    also have "unat (drop_bit 8 n) = unat n div 256"
      using unsigned_less [of n, where 'a = nat]
      unfolding unsigned_drop_bit_eq by (simp add: drop_bit_eq_div take_bit_eq_mod)
    finally have b1: "ucast (drop_bit 8 n) = (word_of_nat (unat n div 256) :: u8)" .
    have "kfifo_poke_n f n recsize = Some (f\<lparr>kf_data := d2\<rparr>)"
      using d1(1) d2(1) two kfifo_poke_copy [OF area wf(2)] kfifo_poke_copy [OF area1] wf(2)
      by (simp add: kfifo_poke_n_def)
    moreover have "length d2 = length (kf_data f)" using d1(2) d2(2) by simp
    moreover have "ring_read d2 (kf_size f) (kf_start f) (kf_used f + recsize) =
        kf_bytes f @ rec_header recsize (unat n)"
      unfolding two rec_header_cases(2) d2(3) d1(3) b0 b1 by simp
    ultimately show ?thesis by (rule that)
  qed
qed

lemma kfifo_in_r_ok:
  assumes "kfifo_wf f" "kf_esize f = 1" and rs: "recsize \<in> {1, 2}"
    and x: "length x = unat len" and len: "unat len < 256 ^ recsize"
  shows "\<exists>n f'. kfifo_in_r f x len recsize = Some (n, f') \<and>
     (if kf_used f + unat len + recsize \<le> kf_size f
      then n = len \<and> kfifo_wf f' \<and> kf_esize f' = 1 \<and> kf_bytes f' = kf_bytes f @ rec_bytes recsize x
      else n = 0 \<and> f' = f)"
proof -
  have area: "kfifo_area_wf f" and used: "kf_used f \<le> kf_size f" using assms(1) by (auto simp: kfifo_wf_def)
  have es: "kf_es f = 1" using assms(2) by (simp add: kf_es_def)
  have sum: "unat (len + word_of_nat recsize) = unat len + recsize"
    using rs len by (subst unat_add_no_wrap) (auto simp: unat_of_nat)
  have full: "len + word_of_nat recsize > kfifo_unused f \<longleftrightarrow> \<not> kf_used f + unat len + recsize \<le> kf_size f"
    using sum kfifo_unused_eq [OF assms(1)] used by (auto simp: word_less_nat_alt)
  show ?thesis
  proof (cases "kf_used f + unat len + recsize \<le> kf_size f")
    case False
    then show ?thesis using full by (simp add: kfifo_in_r_def)
  next
    case True
    then have "kf_used f + recsize \<le> kf_size f" by simp
    then obtain d1 where d1: "kfifo_poke_n f len recsize = Some (f\<lparr>kf_data := d1\<rparr>)"
      "length d1 = length (kf_data f)"
      "ring_read d1 (kf_size f) (kf_start f) (kf_used f + recsize) = kf_bytes f @ rec_header recsize (unat len)"
      using kfifo_poke_n_append [OF assms(1,2) rs, of len] by blast
    let ?f = "f\<lparr>kf_data := d1\<rparr>"
    have area1: "kfifo_area_wf ?f" using area d1(2) by simp
    have fit: "kf_used f + recsize + unat len \<le> kf_size ?f" using True by simp
    have off: "kf_in ?f + word_of_nat recsize = kf_out ?f + word_of_nat (kf_used f + recsize)"
      by (simp add: kf_used_def)
    obtain d2 where d2: "kfifo_copy_in ?f x len (kf_in ?f + word_of_nat recsize) = Some (?f\<lparr>kf_data := d2\<rparr>)"
      "length d2 = length (kf_data ?f)"
      "ring_read d2 (kf_size f) (kf_start f) (kf_used f + recsize + unat len) =
         ring_read d1 (kf_size f) (kf_start f) (kf_used f + recsize) @ x"
      using kfifo_copy_in_append [OF area1 fit off, of x] es x by auto
    let ?g = "f\<lparr>kf_data := d2, kf_in := kf_in f + (len + word_of_nat recsize)\<rparr>"
    have area2: "kfifo_area_wf (f\<lparr>kf_data := d2\<rparr>)" using area d1(2) d2(2) by simp
    have used': "kf_used ?g = kf_used f + (unat len + recsize)"
      using kf_used_push [OF area2, of "len + word_of_nat recsize"] sum True by simp
    have "kfifo_in_r f x len recsize = Some (len, ?g)"
      using True full d1(1) d2(1) by (simp add: kfifo_in_r_def)
    moreover have "kfifo_wf ?g" using area2 used' True by (simp add: kfifo_wf_def)
    moreover have "kf_bytes ?g = kf_bytes f @ rec_bytes recsize x"
    proof -
      have "kf_used ?g = kf_used f + recsize + unat len" using used' by simp
      then show ?thesis
        unfolding kf_bytes_def [of ?g] using d1(3) d2(3) es x by (simp add: rec_bytes_def)
    qed
    ultimately show ?thesis using True assms(2) by simp
  qed
qed

lemma kfifo_peek_n_header:
  assumes "kfifo_wf f" "kf_esize f = 1" and rs: "recsize \<in> {1, 2}"
    and bytes: "kf_bytes f = rec_header recsize n @ rest" and n: "n < 256 ^ recsize"
  shows "kfifo_peek_n f recsize = Some (word_of_nat n)"
proof -
  have area: "kfifo_area_wf f" using assms(1) by (simp add: kfifo_wf_def)
  have es: "kf_es f = 1" using assms(2) by (simp add: kf_es_def)
  have used: "recsize \<le> kf_used f" using arg_cong [OF bytes, of length] es by simp
  note peek = kfifo_peek_nth [OF area assms(2)]
  show ?thesis
  proof (cases "recsize = 1")
    case True
    have "ucast (word_of_nat n :: u8) = (word_of_nat n :: u32)"
      using n True by (simp add: word_unat_eq_iff unsigned_ucast_eq unat_of_nat take_bit_eq_mod)
    then show ?thesis
      using peek [of 0] used bytes True by (simp add: kfifo_peek_n_def rec_header_def)
  next
    case False
    then have two: "recsize = 2" using rs by simp
    let ?x = "word_of_nat n :: u32"
    have x: "unat ?x = n" using n two by (intro unat_word_of_nat_small) simp
    have "ucast (word_of_nat n :: u8) = take_bit 8 ?x"
      unfolding word_unat_eq_iff unsigned_take_bit_eq unsigned_ucast_eq x
      by (simp add: unat_of_nat take_bit_eq_mod)
    moreover have "ucast (word_of_nat (n div 256) :: u8) = drop_bit 8 ?x"
      unfolding word_unat_eq_iff unsigned_drop_bit_eq unsigned_ucast_eq x
      using n two by (simp add: unat_of_nat take_bit_eq_mod drop_bit_eq_div)
    moreover have "take_bit 8 ?x OR push_bit 8 (drop_bit 8 ?x) = ?x"
      by (rule bit_word_eqI) (auto simp: bit_simps)
    ultimately have "ucast (word_of_nat n :: u8) OR push_bit 8 (ucast (word_of_nat (n div 256) :: u8)) = ?x"
      by (simp only:)
    then show ?thesis
      using peek [of 0] peek [of 1] used bytes two rec_header_cases(2) [of n]
      by (simp add: kfifo_peek_n_def)
  qed
qed

lemma kfifo_out_r_ok:
  assumes "kfifo_wf f" "kf_esize f = 1" and rs: "recsize \<in> {1, 2}"
    and bytes: "kf_bytes f = rec_bytes recsize x @ rest" and x: "length x < 256 ^ recsize"
  shows "\<exists>f'. kfifo_out_r f len recsize = Some (min len (word_of_nat (length x)), take (unat len) x, f') \<and>
     kfifo_wf f' \<and> kf_esize f' = 1 \<and> kf_bytes f' = rest"
proof -
  have area: "kfifo_area_wf f" and used: "kf_used f \<le> kf_size f" using assms(1) by (auto simp: kfifo_wf_def)
  have es: "kf_es f = 1" using assms(2) by (simp add: kf_es_def)
  let ?n = "word_of_nat (length x) :: u32"
  have big: "(256::nat) ^ recsize < 2 ^ 32" using rs by auto
  have n: "unat ?n = length x" using x big by (intro unat_word_of_nat_small) simp
  have have_all: "recsize + length x \<le> kf_used f"
    using arg_cong [OF bytes, of length] es by (simp add: rec_bytes_def)
  then have nonempty: "kf_in f \<noteq> kf_out f" using rs by (auto simp: kf_used_def)
  have peek: "kfifo_peek_n f recsize = Some ?n"
    using kfifo_peek_n_header [OF assms(1,2) rs, of "length x" "x @ rest"] bytes x by (simp add: rec_bytes_def)
  let ?l = "if len > ?n then ?n else len"
  have l: "?l = min len ?n" by (auto simp: min_def)
  have ul: "unat ?l = min (unat len) (length x)"
    using n by (auto simp: min_def word_less_nat_alt)
  have fit: "recsize + unat ?l \<le> kf_size f" using have_all used ul by simp
  have "kfifo_copy_out f ?l (kf_out f + word_of_nat recsize) =
      Some (ring_read (kf_data f) (kf_size f) (kf_start f + recsize) (unat ?l))"
    using kfifo_copy_out_read [OF area fit refl] es by simp
  also have "ring_read (kf_data f) (kf_size f) (kf_start f + recsize) (unat ?l) =
      take (unat ?l) (drop recsize (kf_bytes f))"
    using have_all ul es by (simp add: kf_bytes_def drop_ring_read take_ring_read)
  also have "\<dots> = take (unat len) x" by (simp add: bytes rec_bytes_def ul min_def)
  finally have copy: "kfifo_copy_out f ?l (kf_out f + word_of_nat recsize) = Some (take (unat len) x)" .
  have sum: "unat (?n + word_of_nat recsize) = length x + recsize"
    using n x big rs by (subst unat_add_no_wrap) (auto simp: unat_of_nat)
  then have pull: "unat (?n + word_of_nat recsize) \<le> kf_used f" using have_all by simp
  let ?f = "f\<lparr>kf_out := kf_out f + (?n + word_of_nat recsize)\<rparr>"
  have "kfifo_out_r f len recsize = Some (min len ?n, take (unat len) x, ?f)"
    using nonempty peek copy unfolding kfifo_out_r_def kfifo_out_copy_r_def Let_def
    by (simp only: if_False option.case option.map prod.case l)
  moreover have "kfifo_wf ?f" using area used pull by (simp add: kfifo_wf_def kf_used_pull)
  moreover have "kf_bytes ?f = rest"
    using kf_bytes_pull [OF area pull] es bytes by (simp add: sum rec_bytes_def)
  ultimately show ?thesis using assms(2) by simp
qed

section \<open>User-space input\<close>

lemma div_round_up_rest:
  assumes "0 < (e::nat)" and "g \<le> n * e"
  shows "n - (n * e - g + e - 1) div e = g div e"
proof -
  define q r where "q = g div e" and "r = g mod e"
  have g: "g = q * e + r" "r < e" using assms by (simp_all add: q_def r_def)
  have "q \<le> n" using assms less_eq_div_iff_mult_less_eq q_def by (metis div_le_mono nonzero_mult_div_cancel_right less_not_refl2)
  then obtain m where m: "n = m + q" by (metis add.commute le_Suc_ex)
  have me: "n * e - g = m * e - r" "r \<le> m * e" using assms(2) g by (simp_all add: m add_mult_distrib)
  have "(m * e - r + e - 1) div e = m"
    using me(2) g(2) by (intro div_nat_eqI) (simp_all add: mult.commute)
  then show ?thesis using me(1) m by (simp add: q_def)
qed

lemma div_round_up_eq:
  assumes "unat a + unat d \<le> 2 ^ 32" and "d \<noteq> 0"
  shows "unat (div_round_up a d) = (unat a + unat d - 1) div unat d"
proof -
  have d: "0 < unat d" using assms(2) by (simp add: unat_gt_0)
  have "unat (a + (d - 1)) = unat a + (unat d - 1)"
    using assms d by (subst unat_add_no_wrap) (simp_all add: unat_minus_one)
  moreover have "a + d - 1 = a + (d - 1)" by simp
  ultimately show ?thesis using d by (simp only: div_round_up_def unat_div) simp
qed

text \<open>One user copy: \<open>good\<close> bytes of the request are accessible.\<close>

lemma kfifo_copy_from_user_append:
  assumes wf: "kfifo_area_wf f" and fit: "cnt + unat len \<le> kf_size f"
    and off: "off = kf_out f + word_of_nat cnt"
    and good: "good = min (unat len * kf_es f) (length ubuf)"
  obtains d ret copied where "kfifo_copy_from_user f ubuf len off = Some (f\<lparr>kf_data := d\<rparr>, ret, copied)"
    "length d = length (kf_data f)" "unat len - unat ret = good div kf_es f"
    "unat ret \<le> unat len" "ret = 0 \<longleftrightarrow> good = unat len * kf_es f"
    "copied = len * kf_esize f - ret"
    "ring_read d (kf_size f * kf_es f) (kf_start f) (cnt * kf_es f + good) =
       ring_read (kf_data f) (kf_size f * kf_es f) (kf_start f) (cnt * kf_es f) @ take good ubuf"
proof -
  let ?N = "kf_size f * kf_es f" and ?e = "kf_es f" and ?n = "unat len"
  let ?R = "ring_read (kf_data f) ?N (kf_start f) (cnt * ?e)"
  obtain a b c where span: "kfifo_span f len off = (a, b, c)" and
    start: "unat a = (kf_start f + cnt * ?e) mod ?N" and
    b: "unat b = ?n * ?e" and c: "unat c = min (unat b) (?N - unat a)" and
    bc: "unat (b - c) = unat b - unat c" and a: "unat a < ?N" and bw: "b = len * kf_esize f"
    by (rule kfifo_span_at [OF wf fit off])
  have N: "0 < ?N" "?N \<le> length (kf_data f)" "?N \<le> 2 ^ 31" and e: "0 < ?e"
    using wf by (auto simp: kfifo_area_wf_def kf_size_def)
  have "?e \<le> ?N" by (simp add: kf_size_def)
  then have e31: "?e \<le> 2 ^ 31" using N(3) by (rule order.trans)
  have es0: "kf_esize f \<noteq> 0" using e by (auto simp: kf_es_def)
  have "(cnt + ?n) * ?e \<le> ?N" using fit by simp
  then have room: "cnt * ?e + unat b \<le> ?N" by (simp add: b add_mult_distrib)
  then have b31: "unat b \<le> 2 ^ 31" using N(3) by simp
  have cb: "unat c \<le> unat b" "unat c \<le> ?N - unat a" using c by simp_all
  have good': "good = min (unat b) (length ubuf)" by (simp add: good b)
  have rounded: "?n - unat (div_round_up x (kf_esize f)) = good div ?e \<and>
      unat (div_round_up x (kf_esize f)) \<le> ?n \<and> (div_round_up x (kf_esize f) = 0 \<longleftrightarrow> good = unat b)"
    if "unat x = unat b - good" for x
  proof -
    have dr: "unat (div_round_up x (kf_esize f)) = (?n * ?e - good + ?e - 1) div ?e"
      using div_round_up_eq [OF _ es0, of x] that b31 e31 b by (simp add: kf_es_def)
    moreover have "(?n * ?e - good + ?e - 1) div ?e \<le> ?n"
      using e by (intro less_Suc_eq_le [THEN iffD1] div_less_iff_less_mult [THEN iffD2]) auto
    moreover have "(?n * ?e - good + ?e - 1) div ?e = 0 \<longleftrightarrow> good = unat b"
      using e good' b by (auto simp: div_eq_0_iff)
    ultimately show ?thesis
      using div_round_up_rest [OF e, of good ?n] good' b unat_eq_zero [of "div_round_up x (kf_esize f)"] by simp
  qed
  show ?thesis
  proof (cases "unat c \<le> length ubuf")
    case False
    define A :: "u8 list" where "A = take (unat c) ubuf @ replicate (unat c - length ubuf) 0"
    have cfu: "copy_from_user ubuf 0 (unat c) = (A, unat c - length ubuf)"
      using False by (simp add: copy_from_user_def Let_def A_def)
    have lenA: "length A = unat c" using False by (simp add: A_def)
    have "unat a + length A \<le> length (kf_data f)" unfolding lenA using N(2) cb(2) a by linarith
    then obtain d where d: "memcpy_to (unat a) A (kf_data f) = Some d"
      unfolding memcpy_to_def by (simp only: if_True)
    have "cnt * ?e + length A \<le> ?N" using room cb lenA by simp
    from ring_append [OF N(1,2) this start, of "unat c" d d] lenA cb d
    have ring: "length d = length (kf_data f)"
      "ring_read d ?N (kf_start f) (cnt * ?e + unat c) = ?R @ A"
      by (simp_all add: memcpy_to_def [of 0])
    have takeA: "take (length ubuf) A = ubuf" using False by (simp add: A_def)
    let ?x = "word_of_nat (unat c - length ubuf) + b - c"
    have x: "unat ?x = unat b - good"
    proof -
      have "unat (word_of_nat (unat c - length ubuf) :: u32) = unat c - length ubuf"
        using b31 cb by (intro unat_word_of_nat_small) simp
      then have "unat (word_of_nat (unat c - length ubuf) + (b - c)) = unat c - length ubuf + (unat b - unat c)"
        using bc b31 cb False by (subst unat_add_no_wrap) simp_all
      then show ?thesis using False cb good' by (simp add: add_diff_eq)
    qed
    have g: "good = length ubuf" "good \<le> unat c" using False cb good' by simp_all
    have "kfifo_copy_from_user f ubuf len off =
        Some (f\<lparr>kf_data := d\<rparr>, div_round_up ?x (kf_esize f), b - div_round_up ?x (kf_esize f))"
      using span cfu d False by (simp add: kfifo_copy_from_user_def Let_def)
    moreover have "ring_read d ?N (kf_start f) (cnt * ?e + good) = ?R @ take good ubuf"
      using arg_cong [OF ring(2), of "take (cnt * ?e + good)"] g takeA by (simp add: take_ring_read)
    ultimately show ?thesis using that ring(1) rounded [OF x] b bw by simp
  next
    case True
    let ?B = "take (unat b - unat c) (drop (unat c) ubuf) @ replicate (unat b - good) 0"
    have cfu: "copy_from_user ubuf 0 (unat c) = (take (unat c) ubuf, 0)"
      using True by (simp add: copy_from_user_def Let_def)
    have cfu': "copy_from_user ubuf (unat c) (unat (b - c)) = (?B, unat b - good)"
      using True cb good' by (simp add: copy_from_user_def Let_def bc min_def)
    let ?src = "take (unat c) ubuf @ ?B"
    have src: "length ?src = unat b" using True cb good' by auto
    then have fitb: "cnt * ?e + length ?src \<le> ?N" using room by simp
    have cs: "unat c = min (length ?src) (?N - unat a)" using src c by simp
    have "length ?src \<le> ?N" using fitb by simp
    from ring_write_parts_fit [OF a this N(2) cs] obtain d1 d where
      d0: "memcpy_to (unat a) (take (unat c) ?src) (kf_data f) = Some d1"
      "memcpy_to 0 (drop (unat c) ?src) d1 = Some d" by blast
    have d: "memcpy_to (unat a) (take (unat c) ubuf) (kf_data f) = Some d1" "memcpy_to 0 ?B d1 = Some d"
      using d0 True by simp_all
    note ring = ring_append [OF N(1,2) fitb start cs d0]
    let ?ret = "if unat b - good \<noteq> 0 then div_round_up (word_of_nat (unat b - good)) (kf_esize f) else 0"
    have "kfifo_copy_from_user f ubuf len off = Some (f\<lparr>kf_data := d\<rparr>, ?ret, b - ?ret)"
      unfolding kfifo_copy_from_user_def span prod.case cfu d(1) option.case cfu' d(2) Let_def by simp
    moreover have "unat (word_of_nat (unat b - good) :: u32) = unat b - good"
      using b31 by (intro unat_word_of_nat_small) simp
    from rounded [OF this] have "?n - unat ?ret = good div ?e" "unat ?ret \<le> ?n" "?ret = 0 \<longleftrightarrow> good = unat b"
      using good' b e by (auto simp: min_def)
    moreover have "ring_read d ?N (kf_start f) (cnt * ?e + good) = ?R @ take good ubuf"
    proof -
      have "take good ?src = take good ubuf"
        using True cb good' take_add [of "unat c" "unat b - unat c" ubuf] by (auto simp: min_def)
      moreover have "good \<le> unat b" using good' by simp
      moreover have "ring_read d ?N (kf_start f) (cnt * ?e + unat b) = ?R @ ?src" using ring(2) by (simp only: src)
      then have "take (cnt * ?e + good) (ring_read d ?N (kf_start f) (cnt * ?e + unat b)) = take (cnt * ?e + good) (?R @ ?src)"
        by (simp only:)
      ultimately show ?thesis by (simp add: take_ring_read min_absorb1 del: take_append) (simp only: take_append length_ring_read, simp)
    qed
    ultimately show ?thesis using that ring(1) b bw by simp
  qed
qed

lemma kfifo_from_user_ok:
  assumes "kfifo_wf f" and n_def: "n = min (unat len div kf_es f) (kf_size f - kf_used f)"
    and good_def: "good = min (n * kf_es f) (length ubuf)"
  shows "\<exists>r copied f'. kfifo_from_user f ubuf len = Some (r, copied, f') \<and> kfifo_wf f' \<and>
     kf_bytes f' = kf_bytes f @ take (good div kf_es f * kf_es f) ubuf \<and>
     r = (if good = n * kf_es f then Inr () else Inl EFAULT) \<and> unat copied = n * kf_es f - (n - good div kf_es f)"
proof -
  have wf: "kfifo_area_wf f" and used: "kf_used f \<le> kf_size f" using assms(1) by (auto simp: kfifo_wf_def)
  have e: "0 < kf_es f" using wf by (simp add: kfifo_area_wf_def)
  define len1 where "len1 = (if kf_esize f \<noteq> 1 then len div kf_esize f else len)"
  define len2 where "len2 = (if len1 > kfifo_unused f then kfifo_unused f else len1)"
  have "unat len1 = unat len div kf_es f" by (simp add: len1_def unat_div kf_es_def)
  then have n: "unat len2 = n"
    using kfifo_unused_eq [OF assms(1)] by (auto simp: len2_def n_def min_def word_less_nat_alt)
  have fit: "kf_used f + unat len2 \<le> kf_size f" using n used by (simp add: n_def)
  have off: "kf_in f = kf_out f + word_of_nat (kf_used f)" by (simp add: kf_used_def)
  have good: "good = min (unat len2 * kf_es f) (length ubuf)" by (simp add: good_def n)
  obtain d ret copied where d: "kfifo_copy_from_user f ubuf len2 (kf_in f) = Some (f\<lparr>kf_data := d\<rparr>, ret, copied)"
    "length d = length (kf_data f)" "unat len2 - unat ret = good div kf_es f"
    "unat ret \<le> unat len2" "ret = 0 \<longleftrightarrow> good = unat len2 * kf_es f" "copied = len2 * kf_esize f - ret"
    "ring_read d (kf_size f * kf_es f) (kf_start f) (kf_used f * kf_es f + good) =
       ring_read (kf_data f) (kf_size f * kf_es f) (kf_start f) (kf_used f * kf_es f) @ take good ubuf"
    by (rule kfifo_copy_from_user_append [OF wf fit off good])
  define m where "m = (if ret \<noteq> 0 then len2 - ret else len2)"
  have "ret \<le> len2" using d(4) by (simp add: word_le_nat_alt)
  then have m: "unat m = good div kf_es f" using d(3) by (auto simp: m_def unat_sub_no_wrap)
  let ?g = "f\<lparr>kf_data := d, kf_in := kf_in f + m\<rparr>"
  have area: "kfifo_area_wf (f\<lparr>kf_data := d\<rparr>)" using wf d(2) by simp
  have "unat m \<le> unat len2" using m d(3) by simp
  then have fit': "kf_used f + unat m \<le> kf_size f" using fit by simp
  then have used': "kf_used ?g = kf_used f + unat m"
    using kf_used_push [OF area, of m] by simp
  have "kf_bytes ?g = take ((kf_used f + unat m) * kf_es f)
      (ring_read d (kf_size f * kf_es f) (kf_start f) (kf_used f * kf_es f + good))"
    by (subst take_ring_read) (simp_all add: kf_bytes_def used' m add_mult_distrib)
  then have "kf_bytes ?g = kf_bytes f @ take (good div kf_es f * kf_es f) ubuf"
    unfolding d(7) by (simp add: kf_bytes_def m add_mult_distrib)
  moreover have "kfifo_wf ?g" using area fit' used' by (simp add: kfifo_wf_def)
  moreover have "kfifo_from_user f ubuf len =
      Some (if ret \<noteq> 0 then Inl EFAULT else Inr (), copied, ?g)"
    unfolding kfifo_from_user_def Let_def len1_def [symmetric] len2_def [symmetric] d(1) m_def
    by simp
  moreover have "unat copied = n * kf_es f - (n - good div kf_es f)"
  proof -
    have "n * kf_es f \<le> kf_size f * kf_es f" using fit n by simp
    also have "\<dots> \<le> 2 ^ 31" using wf by (simp add: kfifo_area_wf_def)
    finally have bytes: "unat (len2 * kf_esize f) = n * kf_es f"
      using n by (subst unat_mult_no_wrap) (simp_all add: kf_es_def)
    have "n \<le> n * kf_es f" using e by simp
    then have "unat ret \<le> unat (len2 * kf_esize f)" using d(4) n by (simp only: bytes)
    then have "unat copied = n * kf_es f - unat ret"
      unfolding d(6) by (subst unat_sub_no_wrap) (simp_all only: bytes word_le_nat_alt)
    then show ?thesis using d(3,4) n by simp
  qed
  ultimately show ?thesis using d(5) n by auto
qed

text \<open>Bytes asked for less elements missing is the number of bytes stored only if nothing is missing or elements are
  single bytes.\<close>

lemma count_right:
  assumes "0 < (e :: nat)" and "good \<le> n * e"
  shows "n * e - (n - good div e) = good div e * e \<longleftrightarrow> good = n * e \<or> e = 1"
proof -
  define q where "q = good div e"
  have q: "q \<le> n" using assms by (simp add: q_def div_le_mono less_eq_div_iff_mult_less_eq div_le_dividend order.trans [OF div_le_mono [OF assms(2)]])
  have whole: "good = n * e \<longleftrightarrow> q = n"
  proof
    assume "q = n"
    then have "n * e \<le> good" using div_times_less_eq_dividend [of good e] by (simp add: q_def)
    then show "good = n * e" using assms(2) by simp
  qed (use assms(1) in \<open>simp add: q_def\<close>)
  obtain m where m: "n = q + m" using q le_Suc_ex by blast
  have "m \<le> m * e" using assms(1) by simp
  then have "q * e + m * e - m = q * e \<longleftrightarrow> m * e = m" by linarith
  then have "n * e - (n - q) = q * e \<longleftrightarrow> m * e = m" by (simp only: m add_mult_distrib add_diff_cancel_left')
  also have "\<dots> \<longleftrightarrow> m = 0 \<or> e = 1" by (metis mult_cancel1 mult.right_neutral)
  also have "\<dots> \<longleftrightarrow> good = n * e \<or> e = 1" using whole m by auto
  finally show ?thesis by (simp only: q_def)
qed

section \<open>Properties\<close>

text \<open>C23. The kernel FIFO is a queue: over any sequence of puts and gets, of any sizes and with
  the free-running indices wrapping around, no call fails, and the bytes accepted are
  delivered exactly once and in order: the initial contents followed by everything accepted is
  everything delivered followed by the final contents.\<close>

theorem kfifo_is_fifo:
  assumes "kfifo_wf f" and "\<And>bs. Put bs \<in> set ops \<Longrightarrow> kf_es f dvd length bs"
  shows "\<exists>acc del f'. fifo_run kfifo_put kfifo_get ops f = Some (acc, del, f') \<and> kfifo_wf f' \<and>
     kf_bytes f @ acc = del @ kf_bytes f'"
  using assms by (rule kf.stream)

text \<open>A fifo of two-byte elements whose indices are about to wrap around.\<close>

definition demo_fifo :: kfifo where
  "demo_fifo = \<lparr>kf_in = 0xFFFFFFFF, kf_out = 0xFFFFFFFE, kf_mask = 3, kf_esize = 2,
     kf_data = [0, 0, 0, 0, 7, 8, 0, 0]\<rparr>"

lemmas kf_eval = kf_defs kf_bytes_def ring_read_def upt_rec kfifo_wf_def kfifo_area_wf_def is_power_of_2_def

lemma demo_fifo_wf: "kfifo_wf demo_fifo"
  by (simp add: demo_fifo_def kf_eval)

lemma demo_fifo_values:
  "kf_bytes demo_fifo = [7, 8]" "kf_es demo_fifo = 2" "kf_size demo_fifo = 4" "kf_used demo_fifo = 1"
  by (simp_all add: demo_fifo_def kf_eval)

theorem kfifo_is_fifo_witness:
  "\<exists>acc del f'. fifo_run kfifo_put kfifo_get [Put [1, 2, 3, 4, 5, 6, 9, 9], Get 3] demo_fifo = Some (acc, del, f') \<and>
     [7, 8] @ acc = del @ kf_bytes f'"
proof -
  show ?thesis
    using kfifo_is_fifo [OF demo_fifo_wf, of "[Put [1, 2, 3, 4, 5, 6, 9, 9], Get 3]"] demo_fifo_values
    by auto
qed

text \<open>\<^const>\<open>kfifo_in\<close> stores as many elements as fit, behind the stored ones, and
  \<^const>\<open>kfifo_out\<close> delivers as many as are there: a short count means a full or an empty fifo.\<close>

theorem kfifo_counts:
  assumes "kfifo_wf f" and "unat len * kf_es f \<le> length buf"
  shows "\<exists>n f' m bs f''. kfifo_in f buf len = Some (n, f') \<and> kfifo_wf f' \<and>
     unat n = min (unat len) (kf_size f - kf_used f) \<and> kf_bytes f' = kf_bytes f @ take (unat n * kf_es f) buf \<and>
     kfifo_out f len = Some (m, bs, f'') \<and> kfifo_wf f'' \<and>
     unat m = min (unat len) (kf_used f) \<and> bs = take (unat m * kf_es f) (kf_bytes f) \<and>
     kf_bytes f'' = drop (unat m * kf_es f) (kf_bytes f)"
proof -
  obtain n f' where "kfifo_in f buf len = Some (n, f')" "kfifo_wf f'"
    "unat n = min (unat len) (kf_size f - kf_used f)" "kf_bytes f' = kf_bytes f @ take (unat n * kf_es f) buf"
    using kfifo_in_ok [OF assms] by blast
  moreover obtain m bs f'' where "kfifo_out f len = Some (m, bs, f'')" "kfifo_wf f''"
    "unat m = min (unat len) (kf_used f)" "kf_bytes f = bs @ kf_bytes f''" "length bs = unat m * kf_es f"
    using kfifo_out_ok [OF assms(1)] by blast
  ultimately show ?thesis by (metis append_eq_conv_conj)
qed

theorem kfifo_counts_witness:
  "\<exists>n f'. kfifo_in demo_fifo [1, 2, 3, 4, 5, 6, 9, 9] 4 = Some (n, f') \<and> unat n = 3 \<and>
     kf_bytes f' = [7, 8, 1, 2, 3, 4, 5, 6]"
proof -
  have "unat (4 :: u32) * kf_es demo_fifo \<le> length [1, 2, 3, 4, 5, 6, 9, 9 :: u8]"
    by (simp add: demo_fifo_values)
  from kfifo_counts [OF demo_fifo_wf this] show ?thesis by (auto simp: demo_fifo_values)
qed

text \<open>C26. Record fifos keep record boundaries: a record that fits is appended whole, one that does
  not is refused without a trace, and taking a record delivers its first bytes up to the
  caller's limit and removes all of it.\<close>

theorem kfifo_records:
  assumes "holds_records recsize f xs"
  shows "(length x = unat len \<and> length x < 256 ^ recsize \<longrightarrow>
       (\<exists>n f'. kfifo_in_r f x len recsize = Some (n, f') \<and>
          (if kf_used f + length x + recsize \<le> kf_size f
           then n = len \<and> holds_records recsize f' (xs @ [x]) else n = 0 \<and> f' = f))) \<and>
     (xs = y # ys \<longrightarrow>
       (\<exists>f'. kfifo_out_r f len recsize = Some (min len (word_of_nat (length y)), take (unat len) y, f') \<and>
          holds_records recsize f' ys))"
proof (intro conjI impI)
  assume x: "length x = unat len \<and> length x < 256 ^ recsize"
  then show "\<exists>n f'. kfifo_in_r f x len recsize = Some (n, f') \<and>
      (if kf_used f + length x + recsize \<le> kf_size f
       then n = len \<and> holds_records recsize f' (xs @ [x]) else n = 0 \<and> f' = f)"
    using kfifo_in_r_ok [of f recsize x len] assms by (auto simp: holds_records_def split: if_splits)
next
  assume "xs = y # ys"
  then show "\<exists>f'. kfifo_out_r f len recsize = Some (min len (word_of_nat (length y)), take (unat len) y, f') \<and>
      holds_records recsize f' ys"
    using kfifo_out_r_ok [of f recsize y "concat (map (rec_bytes recsize) ys)" len] assms
    by (auto simp: holds_records_def)
qed

definition demo_records :: kfifo where
  "demo_records = \<lparr>kf_in = 3, kf_out = 0xFFFFFFFF, kf_mask = 7, kf_esize = 1,
     kf_data = [0, 50, 51, 0, 0, 0, 0, 2]\<rparr>"

theorem kfifo_records_witness:
  "\<exists>f'. kfifo_out_r demo_records 1 2 = Some (1, [50], f') \<and> kf_bytes f' = []"
proof -
  have "holds_records 2 demo_records [[50, 51]]"
    by (simp add: holds_records_def demo_records_def kf_eval rec_bytes_def rec_header_def)
  then have "\<exists>f'. kfifo_out_r demo_records 1 2 = Some (min 1 (word_of_nat (length [50, 51 :: u8])),
      take (unat (1 :: u32)) [50, 51], f') \<and> holds_records 2 f' []"
    using kfifo_records [of 2 demo_records "[[50, 51]]"] by blast
  then show ?thesis by (auto simp: holds_records_def)
qed

text \<open>C29. Filling a fifo from user space: the whole elements the user's buffer can supply are
  stored, in order and behind the stored ones, and the call reports a fault exactly when
  some requested element that would have fitted could not be read.\<close>

theorem kfifo_from_user_stores:
  assumes "kfifo_wf f" and "n = min (unat len div kf_es f) (kf_size f - kf_used f)"
    and "good = min (n * kf_es f) (length ubuf)"
  shows "\<exists>r copied f'. kfifo_from_user f ubuf len = Some (r, copied, f') \<and> kfifo_wf f' \<and>
     kf_bytes f' = kf_bytes f @ take (good div kf_es f * kf_es f) ubuf \<and>
     (if good = n * kf_es f then r = Inr () \<and> unat copied = n * kf_es f else r = Inl EFAULT)"
proof -
  have "0 < kf_es f" using assms(1) by (simp add: kfifo_wf_def kfifo_area_wf_def)
  moreover obtain r copied f' where "kfifo_from_user f ubuf len = Some (r, copied, f')" "kfifo_wf f'"
    "kf_bytes f' = kf_bytes f @ take (good div kf_es f * kf_es f) ubuf"
    "r = (if good = n * kf_es f then Inr () else Inl EFAULT)" "unat copied = n * kf_es f - (n - good div kf_es f)"
    using kfifo_from_user_ok [OF assms] by blast
  ultimately show ?thesis by (cases "good = n * kf_es f") simp_all
qed

theorem kfifo_from_user_stores_witness:
  "\<exists>copied f'. kfifo_from_user demo_fifo [1, 2, 3] 6 = Some (Inl EFAULT, copied, f') \<and>
     kf_bytes f' = [7, 8, 1, 2]"
proof -
  have n: "(3::nat) = min (unat (6 :: u32) div kf_es demo_fifo) (kf_size demo_fifo - kf_used demo_fifo)"
    and good: "(3::nat) = min (3 * kf_es demo_fifo) (length [1, 2, 3 :: u8])"
    by (simp_all add: demo_fifo_values)
  from kfifo_from_user_stores [OF demo_fifo_wf n good] show ?thesis
    by (auto simp: demo_fifo_values split: if_splits)
qed

text \<open>C40. The byte count that filling from user space reports: for a request of \<open>n\<close> elements of which only
  the whole ones within the first \<open>good\<close> accessible bytes can be stored, it is the number of bytes asked for less the
  number of elements missing, and so it is the number of bytes stored exactly when there was no fault or the
  elements are single bytes.  For larger elements \<^verbatim>\<open>*copied\<close> is too large after every fault.\<close>

theorem kfifo_copied_miscounts:
  assumes "kfifo_wf f" and "n = min (unat len div kf_es f) (kf_size f - kf_used f)"
    and "good = min (n * kf_es f) (length ubuf)"
  shows "\<exists>r copied f'. kfifo_from_user f ubuf len = Some (r, copied, f') \<and>
     unat copied = n * kf_es f - (n - good div kf_es f) \<and>
     (unat copied = length (kf_bytes f') - length (kf_bytes f) \<longleftrightarrow> r = Inr () \<or> kf_es f = 1)"
proof -
  have e: "0 < kf_es f" using assms(1) by (simp add: kfifo_wf_def kfifo_area_wf_def)
  obtain r copied f' where f: "kfifo_from_user f ubuf len = Some (r, copied, f')"
    "kf_bytes f' = kf_bytes f @ take (good div kf_es f * kf_es f) ubuf"
    "r = (if good = n * kf_es f then Inr () else Inl EFAULT)" "unat copied = n * kf_es f - (n - good div kf_es f)"
    using kfifo_from_user_ok [OF assms] by blast
  have "good div kf_es f * kf_es f \<le> length ubuf" using div_times_less_eq_dividend [of good "kf_es f"] assms(3) by linarith
  then have stored: "length (kf_bytes f') - length (kf_bytes f) = good div kf_es f * kf_es f" by (simp add: f(2))
  have "n * kf_es f - (n - good div kf_es f) = good div kf_es f * kf_es f \<longleftrightarrow> good = n * kf_es f \<or> kf_es f = 1"
    by (rule count_right [OF e]) (simp add: assms(3))
  then show ?thesis using f(1,3,4) stored by auto
qed

theorem kfifo_copied_miscounts_witness:
  "\<exists>copied f'. kfifo_from_user demo_fifo [1, 2, 3] 6 = Some (Inl EFAULT, copied, f') \<and> unat copied = 4 \<and>
     unat copied \<noteq> length (kf_bytes f') - length (kf_bytes demo_fifo)"
proof -
  have n: "(3::nat) = min (unat (6 :: u32) div kf_es demo_fifo) (kf_size demo_fifo - kf_used demo_fifo)"
    and good: "(3::nat) = min (3 * kf_es demo_fifo) (length [1, 2, 3 :: u8])"
    by (simp_all add: demo_fifo_values)
  obtain r copied f' where f: "kfifo_from_user demo_fifo [1, 2, 3] 6 = Some (r, copied, f')" "unat copied = 4"
    "unat copied = length (kf_bytes f') - length (kf_bytes demo_fifo) \<longleftrightarrow> r = Inr ()"
    using kfifo_copied_miscounts [OF demo_fifo_wf n good] by (auto simp: demo_fifo_values)
  have "fst (the (kfifo_from_user demo_fifo [1, 2, 3] 6)) = Inl EFAULT"
    by (simp add: demo_fifo_def kf_eval kfifo_from_user_def kfifo_unused_def kfifo_copy_from_user_def
        kfifo_span_def copy_from_user_def memcpy_to_def div_round_up_def Let_def)
  then have "r = Inl EFAULT" using f(1) by simp
  then show ?thesis using f by (metis sum.distinct(1))
qed

end
