(* ===== verification/Crc.thy ===== *)
theory Crc
  imports Crc_Tables
begin

text \<open>
  Cyclic redundancy checks: \<^verbatim>\<open>lib/crc16.c\<close>, \<^verbatim>\<open>lib/crc-ccitt.c\<close>, \<^verbatim>\<open>lib/crc-itu-t.c\<close>,
  \<^verbatim>\<open>lib/crc-t10dif.c\<close> and \<^verbatim>\<open>lib/crc7.c\<close>.  The reference is polynomial division one bit at a time,
  low bit first (reflected) or high bit first; the table-driven routines of the kernel are
  shown equal to it.
\<close>

section \<open>Division one bit at a time\<close>

definition le_step :: "'a::len word \<Rightarrow> 'a word \<Rightarrow> 'a word" where
  "le_step poly c = drop_bit 1 c XOR (if bit c 0 then poly else 0)"

definition be_step :: "'a::len word \<Rightarrow> 'a word \<Rightarrow> 'a word" where
  "be_step poly c = push_bit 1 c XOR (if bit c (LENGTH('a) - 1) then poly else 0)"

definition le_byte :: "'a::len word \<Rightarrow> 'a word \<Rightarrow> u8 \<Rightarrow> 'a word" where
  "le_byte poly c b = (le_step poly ^^ 8) (c XOR ucast b)"

definition be_byte :: "'a::len word \<Rightarrow> 'a word \<Rightarrow> u8 \<Rightarrow> 'a word" where
  "be_byte poly c b = (be_step poly ^^ 8) (c XOR push_bit (LENGTH('a) - 8) (ucast b))"

definition le_crc :: "'a::len word \<Rightarrow> 'a word \<Rightarrow> u8 list \<Rightarrow> 'a word" where
  "le_crc poly = foldl (le_byte poly)"

definition be_crc :: "'a::len word \<Rightarrow> 'a word \<Rightarrow> u8 list \<Rightarrow> 'a word" where
  "be_crc poly = foldl (be_byte poly)"

definition le_table :: "'a::len word \<Rightarrow> 'a word list" where
  "le_table poly = map (\<lambda>i. (le_step poly ^^ 8) (word_of_nat i)) [0..<256]"

definition be_table :: "'a::len word \<Rightarrow> 'a word list" where
  "be_table poly = map (\<lambda>i. (be_step poly ^^ 8) (push_bit (LENGTH('a) - 8) (word_of_nat i))) [0..<256]"

section \<open>The kernel's routines\<close>

definition crc16_byte :: "u16 \<Rightarrow> u8 \<Rightarrow> u16" where
  "crc16_byte crc data = drop_bit 8 crc XOR crc16_table ! unat ((crc XOR ucast data) AND 0xff)"

fun crc16 :: "u16 \<Rightarrow> u8 list \<Rightarrow> u16" where
  "crc16 crc [] = crc"
| "crc16 crc (b # buffer) = crc16 (crc16_byte crc b) buffer"

definition crc_ccitt_byte :: "u16 \<Rightarrow> u8 \<Rightarrow> u16" where
  "crc_ccitt_byte crc c = drop_bit 8 crc XOR crc_ccitt_table ! unat ((crc XOR ucast c) AND 0xff)"

fun crc_ccitt :: "u16 \<Rightarrow> u8 list \<Rightarrow> u16" where
  "crc_ccitt crc [] = crc"
| "crc_ccitt crc (b # buffer) = crc_ccitt (crc_ccitt_byte crc b) buffer"

definition crc_itu_t_byte :: "u16 \<Rightarrow> u8 \<Rightarrow> u16" where
  "crc_itu_t_byte crc data = push_bit 8 crc XOR crc_itu_t_table ! unat ((drop_bit 8 crc XOR ucast data) AND 0xff)"

fun crc_itu_t :: "u16 \<Rightarrow> u8 list \<Rightarrow> u16" where
  "crc_itu_t crc [] = crc"
| "crc_itu_t crc (b # buffer) = crc_itu_t (crc_itu_t_byte crc b) buffer"

fun crc_t10dif_loop :: "u16 \<Rightarrow> u8 list \<Rightarrow> u16" where
  "crc_t10dif_loop crc [] = crc"
| "crc_t10dif_loop crc (b # buffer) =
     crc_t10dif_loop (push_bit 8 crc XOR t10_dif_crc_table ! unat ((drop_bit 8 crc XOR ucast b) AND 0xff)) buffer"

definition crc_t10dif :: "u8 list \<Rightarrow> u16" where
  "crc_t10dif buffer = crc_t10dif_loop 0 buffer"

text \<open>The index of \<^verbatim>\<open>crc7_byte\<close> is an \<^verbatim>\<open>int\<close> and not masked: a previous value of more than seven
  bits reads outside the table.\<close>

definition crc7_byte :: "u8 \<Rightarrow> u8 \<Rightarrow> u8 option" where
  "crc7_byte crc data =
     (let i = unat ((push_bit 1 (ucast crc) XOR ucast data) :: u32) in
      if i < 256 then Some (crc7_syndrome_table ! i) else None)"

fun crc7 :: "u8 \<Rightarrow> u8 list \<Rightarrow> u8 option" where
  "crc7 crc [] = Some crc"
| "crc7 crc (b # buffer) = (case crc7_byte crc b of None \<Rightarrow> None | Some crc' \<Rightarrow> crc7 crc' buffer)"

section \<open>Linearity\<close>

lemma le_step_xor: "le_step poly (a XOR b) = le_step poly a XOR le_step poly b"
  by (rule bit_word_eqI) (auto simp: le_step_def bit_simps)

lemma be_step_xor: "be_step poly (a XOR b) = be_step poly a XOR be_step poly b"
  by (rule bit_word_eqI) (auto simp: be_step_def bit_simps)

lemma le_steps_xor: "(le_step poly ^^ n) (a XOR b) = (le_step poly ^^ n) a XOR (le_step poly ^^ n) b"
  by (induction n) (simp_all add: le_step_xor)

lemma be_steps_xor: "(be_step poly ^^ n) (a XOR b) = (be_step poly ^^ n) a XOR (be_step poly ^^ n) b"
  by (induction n) (simp_all add: be_step_xor)

lemma le_steps_shift: "take_bit n c = 0 \<Longrightarrow> (le_step poly ^^ n) c = drop_bit n c"
proof (induction n arbitrary: c)
  case (Suc n)
  have low: "\<not> bit c i" if "i \<le> n" for i
    using arg_cong [OF Suc.prems, of "\<lambda>w. bit w i"] that by (simp add: bit_simps)
  then have "le_step poly c = drop_bit 1 c" by (simp add: le_step_def)
  moreover have "take_bit n (drop_bit 1 c) = 0"
    by (rule bit_word_eqI) (use low in \<open>auto simp: bit_simps\<close>)
  ultimately show ?case
    using Suc.IH [of "drop_bit 1 c"] by (simp add: funpow_Suc_right del: funpow.simps)
qed simp

lemma be_steps_shift:
  fixes c :: "'a::len word"
  assumes "n \<le> LENGTH('a)" and "drop_bit (LENGTH('a) - n) c = 0"
  shows "(be_step poly ^^ n) c = push_bit n c"
  using assms
proof (induction n arbitrary: c)
  case (Suc n)
  have high: "\<not> bit c (LENGTH('a) - Suc n + i)" if "i \<le> n" for i
    using arg_cong [OF Suc.prems(2), of "\<lambda>w. bit w i"] that by (simp add: bit_simps)
  have top: "\<not> bit c i" if "LENGTH('a) - Suc n \<le> i" for i
    using high [of "i - (LENGTH('a) - Suc n)"] that Suc.prems(1)
    by (cases "i < LENGTH('a)") (auto dest: bit_imp_le_length)
  then have "be_step poly c = push_bit 1 c" by (simp add: be_step_def)
  moreover have "drop_bit (LENGTH('a) - n) (push_bit 1 c) = 0"
  proof (rule bit_word_eqI)
    fix i assume "i < LENGTH('a)"
    show "bit (drop_bit (LENGTH('a) - n) (push_bit 1 c)) i = bit (0 :: 'a word) i"
      using top [of "LENGTH('a) - n + i - 1"] Suc.prems(1)
      unfolding bit_drop_bit_eq comp_def bit_push_bit_iff by simp
  qed
  ultimately show ?case
    using Suc.IH [of "push_bit 1 c"] Suc.prems(1) by (simp add: funpow_Suc_right del: funpow.simps)
qed simp

section \<open>Table lookups are eight division steps\<close>

lemma ff_mask: "(0xff :: 'a::len word) = mask 8"
  by (simp add: mask_eq_exp_minus_1)

lemma unat_and_ff: "unat (c AND 0xff :: 'a::len word) < 256"
proof -
  have "unat (c AND mask 8) = take_bit 8 (unat c)"
    unfolding take_bit_eq_mask [symmetric] by (rule unsigned_take_bit_eq)
  also have "\<dots> < 2 ^ 8" by (rule take_bit_nat_less_exp)
  finally show ?thesis by (simp add: ff_mask)
qed

locale reflected_crc =
  fixes poly :: "'a::len word" and table :: "'a word list"
  assumes width: "8 \<le> LENGTH('a)" and table: "table = le_table poly"
begin

lemma lookup: "table ! unat (c AND 0xff) = (le_step poly ^^ 8) (c AND 0xff)"
  using unat_and_ff [of c] by (simp add: table le_table_def)

lemma steps_by_table: "(le_step poly ^^ 8) c = drop_bit 8 c XOR table ! unat (c AND 0xff)"
proof -
  let ?high = "c AND NOT (mask 8)"
  have "c = (c AND 0xff) XOR ?high" by (rule bit_word_eqI) (auto simp: ff_mask bit_simps)
  then have "(le_step poly ^^ 8) c = (le_step poly ^^ 8) (c AND 0xff) XOR (le_step poly ^^ 8) ?high"
    by (metis le_steps_xor)
  moreover have "take_bit 8 ?high = 0" by (rule bit_word_eqI) (auto simp: bit_simps)
  moreover have "drop_bit 8 ?high = drop_bit 8 c"
    by (rule bit_word_eqI) (auto simp: bit_simps dest: bit_imp_le_length)
  ultimately show ?thesis using le_steps_shift [of 8 ?high poly] by (simp add: lookup ac_simps)
qed

lemma byte_by_table: "le_byte poly c b = drop_bit 8 c XOR table ! unat ((c XOR ucast b) AND 0xff)"
proof -
  have "drop_bit 8 (c XOR ucast b) = drop_bit 8 c"
    by (rule bit_word_eqI) (auto simp: bit_simps dest: bit_imp_le_length)
  then show ?thesis by (simp add: le_byte_def steps_by_table)
qed

end

locale forward_crc =
  fixes poly :: "'a::len word" and table :: "'a word list"
  assumes width: "8 \<le> LENGTH('a)" and table: "table = be_table poly"
begin

lemma steps_by_table: "(be_step poly ^^ 8) c = push_bit 8 c XOR table ! unat (drop_bit (LENGTH('a) - 8) c)"
proof -
  let ?d = "LENGTH('a) - 8"
  let ?top = "push_bit ?d (drop_bit ?d c)" and ?rest = "take_bit ?d c"
  have "c = ?top XOR ?rest" by (rule bit_word_eqI) (auto simp: bit_simps)
  then have "(be_step poly ^^ 8) c = (be_step poly ^^ 8) ?top XOR (be_step poly ^^ 8) ?rest"
    by (metis be_steps_xor)
  moreover have "drop_bit ?d ?rest = 0" by (rule bit_word_eqI) (auto simp: bit_simps)
  then have "(be_step poly ^^ 8) ?rest = push_bit 8 ?rest"
    using width by (intro be_steps_shift) auto
  moreover have "push_bit 8 ?rest = push_bit 8 c"
    by (rule bit_word_eqI) (use width in \<open>auto simp: bit_simps\<close>)
  moreover have "unat (drop_bit ?d c) < 256"
  proof -
    have "unat c < 2 ^ (?d + 8)" using unsigned_less [of c, where 'a = nat] width by simp
    then have "unat c div 2 ^ ?d < 2 ^ 8" by (simp add: power_add less_mult_imp_div_less mult.commute)
    moreover have "unat (drop_bit ?d c) = unat c div 2 ^ ?d"
      unfolding unsigned_drop_bit_eq by (simp add: drop_bit_eq_div take_bit_nat_eq_self)
    ultimately show ?thesis by simp
  qed
  then have "table ! unat (drop_bit ?d c) = (be_step poly ^^ 8) ?top"
    by (simp add: table be_table_def)
  ultimately show ?thesis by (simp add: ac_simps)
qed

lemma byte_by_table:
  "be_byte poly c b = push_bit 8 c XOR table ! unat ((drop_bit (LENGTH('a) - 8) c XOR ucast b) AND 0xff)"
proof -
  let ?d = "LENGTH('a) - 8"
  have "push_bit 8 (c XOR push_bit ?d (ucast b)) = push_bit 8 c"
    by (rule bit_word_eqI) (use width in \<open>auto simp: bit_simps dest: bit_imp_le_length\<close>)
  moreover have "drop_bit ?d (c XOR push_bit ?d (ucast b)) = (drop_bit ?d c XOR ucast b) AND 0xff"
    by (rule bit_word_eqI) (use width in \<open>auto simp: ff_mask bit_simps dest: bit_imp_le_length\<close>)
  ultimately show ?thesis by (simp add: be_byte_def steps_by_table)
qed

end

section \<open>The tables\<close>

text \<open>Division steps are linear, so a table is determined by its entries at the powers of two.\<close>

fun xor_table :: "'a::len word list \<Rightarrow> 'a word list \<Rightarrow> 'a word list" where
  "xor_table [] tab = tab"
| "xor_table (v # vs) tab = xor_table vs (tab @ map (\<lambda>x. v XOR x) tab)"

lemma xor_table_snoc: "xor_table (vs @ [v]) tab = xor_table vs tab @ map (\<lambda>x. v XOR x) (xor_table vs tab)"
  by (induction vs tab rule: xor_table.induct) simp_all

lemma word_of_nat_pow_xor:
  assumes "i < 2 ^ n" and "n < LENGTH('a::len)"
  shows "(word_of_nat (2 ^ n + i) :: 'a word) = 2 ^ n XOR word_of_nat i"
proof -
  have "take_bit n i = i" using assms(1) by (rule take_bit_nat_eq_self)
  then have "k < n" if "bit i k" for k using that by (metis bit_take_bit_iff)
  then have "(2 ^ n :: 'a word) AND word_of_nat i = 0"
    by (intro bit_word_eqI) (auto simp: bit_simps)
  then show ?thesis by (simp add: disjunctive_add_eq_xor)
qed

lemma xor_table_linear:
  fixes f :: "'a::len word \<Rightarrow> 'b::len word"
  assumes lin: "\<And>a b. f (a XOR b) = f a XOR f b" and "n \<le> LENGTH('a)"
  shows "xor_table (map (\<lambda>k. f (2 ^ k)) [0..<n]) [0] = map (\<lambda>i. f (word_of_nat i)) [0..<2 ^ n]"
  using assms(2)
proof (induction n)
  case 0
  then show ?case using lin [of 0 0] by simp
next
  case (Suc n)
  have "map (\<lambda>i. f (2 ^ n) XOR f (word_of_nat i)) [0..<2 ^ n] = map (\<lambda>i. f (word_of_nat i)) [2 ^ n..<2 * 2 ^ n]"
    using Suc.prems
    by (intro nth_equalityI) (simp_all add: word_of_nat_pow_xor lin flip: of_nat_add)
  moreover have "[0..<2 * 2 ^ n] = [0..<2 ^ n] @ [2 ^ n..<2 * 2 ^ n]"
    by (metis le_add2 mult_2 upt_add_eq_append zero_le)
  ultimately show ?case using Suc by (simp add: xor_table_snoc comp_def)
qed

lemma le_table_basis: "8 \<le> LENGTH('a::len) \<Longrightarrow>
    le_table (poly :: 'a word) = xor_table (map (\<lambda>k. (le_step poly ^^ 8) (2 ^ k)) [0..<8]) [0]"
  using xor_table_linear [of "le_step poly ^^ 8" 8, OF le_steps_xor] by (simp add: le_table_def)

lemma be_table_basis: "8 \<le> LENGTH('a::len) \<Longrightarrow>
    be_table (poly :: 'a word) =
      xor_table (map (\<lambda>k. (be_step poly ^^ 8) (push_bit (LENGTH('a) - 8) (2 ^ k))) [0..<8]) [0]"
  using xor_table_linear [of "\<lambda>w. (be_step poly ^^ 8) (push_bit (LENGTH('a) - 8) w)" 8]
  by (simp add: be_table_def be_steps_xor push_bit_xor)

lemma crc16_table_ok: "crc16_table = le_table 0xA001"
proof -
  have "map (\<lambda>k. (le_step (0xA001 :: u16) ^^ 8) (2 ^ k)) [0..<8] =
      [0xc0c1, 0xc181, 0xc301, 0xc601, 0xcc01, 0xd801, 0xf001, 0xa001]" by code_simp
  then show ?thesis by (simp add: le_table_basis crc16_table_def)
qed

lemma crc_ccitt_table_ok: "crc_ccitt_table = le_table 0x8408"
proof -
  have "map (\<lambda>k. (le_step (0x8408 :: u16) ^^ 8) (2 ^ k)) [0..<8] =
      [0x1189, 0x2312, 0x4624, 0x8c48, 0x1081, 0x2102, 0x4204, 0x8408]" by code_simp
  then show ?thesis by (simp add: le_table_basis crc_ccitt_table_def)
qed

lemma crc_itu_t_table_ok: "crc_itu_t_table = be_table 0x1021"
proof -
  have "map (\<lambda>k. (be_step (0x1021 :: u16) ^^ 8) (push_bit 8 (2 ^ k))) [0..<8] =
      [0x1021, 0x2042, 0x4084, 0x8108, 0x1231, 0x2462, 0x48c4, 0x9188]" by code_simp
  then show ?thesis by (simp add: be_table_basis crc_itu_t_table_def)
qed

lemma t10_dif_crc_table_ok: "t10_dif_crc_table = be_table 0x8BB7"
proof -
  have "map (\<lambda>k. (be_step (0x8BB7 :: u16) ^^ 8) (push_bit 8 (2 ^ k))) [0..<8] =
      [0x8bb7, 0x9cd9, 0xb205, 0xefbd, 0x54cd, 0xa99a, 0xd883, 0x3ab1]" by code_simp
  then show ?thesis by (simp add: be_table_basis t10_dif_crc_table_def)
qed

lemma map_drop_bit_xor_table:
  "map (drop_bit n) (xor_table vs tab) = xor_table (map (drop_bit n) vs) (map (drop_bit n) tab)"
  by (induction vs tab rule: xor_table.induct) (simp_all add: comp_def drop_bit_xor)

lemma crc7_table_ok: "crc7_syndrome_table = map (drop_bit 1) (be_table 0x12)"
proof -
  have width: "8 \<le> LENGTH(8)" by simp
  have basis: "map (\<lambda>k. (be_step (0x12 :: u8) ^^ 8) (push_bit (LENGTH(8) - 8) (2 ^ k))) [0..<8] =
      [0x12, 0x24, 0x48, 0x90, 0x32, 0x64, 0xc8, 0x82]" by code_simp
  have "map (drop_bit 1) (be_table (0x12 :: u8)) =
      xor_table (map (drop_bit 1) [0x12, 0x24, 0x48, 0x90, 0x32, 0x64, 0xc8, 0x82]) (map (drop_bit 1) [0])"
    unfolding be_table_basis [OF width] basis map_drop_bit_xor_table ..
  also have "map (drop_bit 1) [0x12, 0x24, 0x48, 0x90, 0x32, 0x64, 0xc8, 0x82 :: u8] = [0x09, 0x12, 0x24, 0x48, 0x19, 0x32, 0x64, 0x41]" by code_simp
  finally show ?thesis by (simp add: crc7_syndrome_table_def)
qed

interpretation crc16: reflected_crc "0xA001 :: u16" crc16_table
  by unfold_locales (simp_all add: crc16_table_ok)

interpretation ccitt: reflected_crc "0x8408 :: u16" crc_ccitt_table
  by unfold_locales (simp_all add: crc_ccitt_table_ok)

interpretation itu_t: forward_crc "0x1021 :: u16" crc_itu_t_table
  by unfold_locales (simp_all add: crc_itu_t_table_ok)

interpretation t10dif: forward_crc "0x8BB7 :: u16" t10_dif_crc_table
  by unfold_locales (simp_all add: t10_dif_crc_table_ok)

interpretation crc7: forward_crc "0x12 :: u8" "be_table 0x12"
  by unfold_locales simp_all

lemma crc16_eq: "crc16 crc bs = le_crc 0xA001 crc bs"
  by (induction crc bs rule: crc16.induct) (simp_all add: le_crc_def crc16_byte_def crc16.byte_by_table)

lemma crc_ccitt_eq: "crc_ccitt crc bs = le_crc 0x8408 crc bs"
  by (induction crc bs rule: crc_ccitt.induct) (simp_all add: le_crc_def crc_ccitt_byte_def ccitt.byte_by_table)

lemma crc_itu_t_eq: "crc_itu_t crc bs = be_crc 0x1021 crc bs"
  by (induction crc bs rule: crc_itu_t.induct) (simp_all add: be_crc_def crc_itu_t_byte_def itu_t.byte_by_table)

lemma crc_t10dif_eq: "crc_t10dif bs = be_crc 0x8BB7 0 bs"
proof -
  have "crc_t10dif_loop crc bs = be_crc 0x8BB7 crc bs" for crc
    by (induction crc bs rule: crc_t10dif_loop.induct) (simp_all add: be_crc_def t10dif.byte_by_table)
  then show ?thesis by (simp add: crc_t10dif_def)
qed

lemma be_step_even: "\<not> bit poly 0 \<Longrightarrow> \<not> bit (be_step poly c) 0"
  unfolding be_step_def bit_xor_iff bit_push_bit_iff by simp

lemma be_byte_even: "\<not> bit poly 0 \<Longrightarrow> \<not> bit (be_byte poly c b) 0"
proof -
  assume even: "\<not> bit poly 0"
  have eight: "(8::nat) = Suc 7" by simp
  show ?thesis unfolding be_byte_def eight funpow.simps comp_def by (rule be_step_even [OF even])
qed

text \<open>The seven-bit check value is kept in the upper bits of an eight-bit register.\<close>

lemma crc7_byte_eq:
  assumes "\<not> bit r 0"
  shows "crc7_byte (drop_bit 1 r) b = Some (drop_bit 1 (be_byte 0x12 r b))"
proof -
  have "push_bit 1 (ucast (drop_bit 1 r)) = (ucast r :: u32)"
  proof (rule bit_word_eqI)
    fix n assume "n < LENGTH(32)"
    then show "bit (push_bit 1 (ucast (drop_bit 1 r)) :: u32) n = bit (ucast r :: u32) n"
      unfolding bit_push_bit_iff bit_unsigned_iff bit_drop_bit_eq comp_def
      using assms by (cases n) (auto dest: bit_imp_le_length)
  qed
  then have idx: "push_bit 1 (ucast (drop_bit 1 r)) XOR ucast b = (ucast (r XOR b) :: u32)"
    by (simp only:) (rule bit_word_eqI, auto simp: bit_simps)
  have u: "unat (ucast (r XOR b) :: u32) = unat (r XOR b)"
    using unsigned_less [of "r XOR b", where 'a = nat] by (intro unat_ucast_small) simp
  have i: "unat (r XOR b) < 256" using unsigned_less [of "r XOR b", where 'a = nat] by simp
  have "be_byte 0x12 r b = (be_step 0x12 ^^ 8) (r XOR b)" by (simp add: be_byte_def)
  also have "\<dots> = be_table 0x12 ! unat (r XOR b)"
    using i by (simp add: be_table_def)
  finally have "crc7_syndrome_table ! unat (r XOR b) = drop_bit 1 (be_byte 0x12 r b)"
    using i by (simp only: crc7_table_ok nth_map be_table_def length_map length_upt)
  then show ?thesis unfolding crc7_byte_def Let_def idx u using i by simp
qed

lemma crc7_eq:
  assumes "\<not> bit r 0"
  shows "crc7 (drop_bit 1 r) bs = Some (drop_bit 1 (be_crc 0x12 r bs))"
  using assms
proof (induction bs arbitrary: r)
  case (Cons b bs)
  have "\<not> bit (be_byte (0x12 :: u8) r b) 0" by (rule be_byte_even) simp
  then show ?case using Cons.IH [of "be_byte 0x12 r b"] crc7_byte_eq [OF Cons.prems, of b]
    by (simp add: be_crc_def)
qed (simp add: be_crc_def)

section \<open>Error detection\<close>

text \<open>A block of at most the register's width as one register value.\<close>

fun le_pack :: "u8 list \<Rightarrow> 'a::len word" where
  "le_pack [] = 0"
| "le_pack (b # bs) = ucast b XOR push_bit 8 (le_pack bs)"

fun be_pack :: "u8 list \<Rightarrow> 'a::len word" where
  "be_pack [] = 0"
| "be_pack (b # bs) = push_bit (LENGTH('a) - 8) (ucast b) XOR drop_bit 8 (be_pack bs)"

lemma le_pack_bound: "8 * length bs \<le> i \<Longrightarrow> \<not> bit (le_pack bs :: 'a::len word) i"
proof (induction bs arbitrary: i)
  case (Cons b bs)
  then show ?case using Cons.IH [of "i - 8"] by (auto simp: bit_simps dest: bit_imp_le_length)
qed simp

lemma be_pack_bound:
  "i + 8 * length bs < LENGTH('a) \<Longrightarrow> \<not> bit (be_pack bs :: 'a::len word) i"
proof (induction bs arbitrary: i)
  case (Cons b bs)
  then show ?case using Cons.IH [of "8 + i"] by (auto simp: bit_simps dest: bit_imp_le_length)
qed simp

lemma le_pack_bit: "bit (le_pack bs :: 'a::len word) i \<Longrightarrow> i < 8 * length bs"
  by (meson le_pack_bound not_less)

lemma be_pack_bit: "bit (be_pack bs :: 'a::len word) i \<Longrightarrow> LENGTH('a) \<le> i + 8 * length bs"
  by (meson be_pack_bound not_less)

lemma le_crc_pack:
  fixes c :: "'a::len word"
  assumes "8 * length bs \<le> LENGTH('a)"
  shows "le_crc poly c bs = (le_step poly ^^ (8 * length bs)) (c XOR le_pack bs)"
  using assms
proof (induction bs arbitrary: c)
  case (Cons b bs)
  let ?p = "le_pack bs :: 'a word"
  have "take_bit 8 (push_bit 8 ?p) = 0" by (rule bit_word_eqI) (auto simp: bit_simps)
  then have "(le_step poly ^^ 8) (push_bit 8 ?p) = drop_bit 8 (push_bit 8 ?p)" by (rule le_steps_shift)
  also have "\<dots> = ?p"
    by (rule bit_word_eqI) (use Cons.prems in \<open>auto simp: bit_simps dest: le_pack_bit\<close>)
  finally have p: "(le_step poly ^^ 8) (push_bit 8 ?p) = ?p" .
  have "le_crc poly c (b # bs) = le_crc poly ((le_step poly ^^ 8) (c XOR ucast b)) bs"
    by (simp add: le_crc_def le_byte_def)
  also have "\<dots> = (le_step poly ^^ (8 * length bs)) ((le_step poly ^^ 8) (c XOR ucast b) XOR ?p)"
    using Cons by simp
  also have "(le_step poly ^^ 8) (c XOR ucast b) XOR ?p = (le_step poly ^^ 8) (c XOR le_pack (b # bs))"
    by (simp add: le_steps_xor p xor.assoc)
  finally show ?case using funpow_add [of "8 * length bs" 8 "le_step poly"] by (simp add: add.commute)
qed (simp add: le_crc_def)

lemma be_crc_pack:
  fixes c :: "'a::len word"
  assumes "8 * length bs \<le> LENGTH('a)"
  shows "be_crc poly c bs = (be_step poly ^^ (8 * length bs)) (c XOR be_pack bs)"
  using assms
proof (induction bs arbitrary: c)
  case (Cons b bs)
  let ?p = "be_pack bs :: 'a word"
  have "drop_bit (LENGTH('a) - 8) (drop_bit 8 ?p) = 0"
    by (rule bit_word_eqI) (use Cons.prems in \<open>auto simp: bit_simps dest: bit_imp_le_length\<close>)
  then have "(be_step poly ^^ 8) (drop_bit 8 ?p) = push_bit 8 (drop_bit 8 ?p)"
    using Cons.prems by (intro be_steps_shift) auto
  also have "\<dots> = ?p"
  proof (rule bit_word_eqI)
    fix i assume "i < LENGTH('a)"
    then show "bit (push_bit 8 (drop_bit 8 ?p)) i = bit ?p i"
      using Cons.prems be_pack_bit [of bs i, where 'a = 'a] by (cases "8 \<le> i") (auto simp: bit_simps)
  qed
  finally have p: "(be_step poly ^^ 8) (drop_bit 8 ?p) = ?p" .
  have "be_crc poly c (b # bs) = be_crc poly ((be_step poly ^^ 8) (c XOR push_bit (LENGTH('a) - 8) (ucast b))) bs"
    by (simp add: be_crc_def be_byte_def)
  also have "\<dots> = (be_step poly ^^ (8 * length bs)) ((be_step poly ^^ 8) (c XOR push_bit (LENGTH('a) - 8) (ucast b)) XOR ?p)"
    using Cons by simp
  also have "(be_step poly ^^ 8) (c XOR push_bit (LENGTH('a) - 8) (ucast b)) XOR ?p =
      (be_step poly ^^ 8) (c XOR be_pack (b # bs))"
    by (simp add: be_steps_xor p xor.assoc)
  finally show ?case using funpow_add [of "8 * length bs" 8 "be_step poly"] by (simp add: add.commute)
qed (simp add: be_crc_def)

lemma le_step_inj:
  fixes poly :: "'a::len word"
  assumes "bit poly (LENGTH('a) - 1)"
  shows "inj (le_step poly)"
proof (rule injI)
  fix a b assume "le_step poly a = le_step poly b"
  then have z: "le_step poly (a XOR b) = 0" by (simp add: le_step_xor)
  have "\<not> bit (a XOR b) 0"
  proof
    assume "bit (a XOR b) 0"
    then have "bit (le_step poly (a XOR b)) (LENGTH('a) - 1)"
      using assms by (auto simp: le_step_def bit_simps dest: bit_imp_le_length)
    then show False using z by simp
  qed
  moreover from this have "drop_bit 1 (a XOR b) = 0" using z by (simp add: le_step_def)
  then have "\<not> bit (a XOR b) (Suc i)" for i by (metis bit_drop_bit_eq comp_apply bit_0_eq bot_apply bot_bool_def plus_1_eq_Suc)
  ultimately have "\<not> bit (a XOR b) i" for i by (cases i) auto
  then show "a = b" by (auto intro!: bit_word_eqI simp: bit_xor_iff)
qed

lemma be_step_inj:
  assumes "bit poly 0"
  shows "inj (be_step poly)"
proof (rule injI)
  fix a b :: "'a word" assume "be_step poly a = be_step poly b"
  then have z: "be_step poly (a XOR b) = 0" by (simp add: be_step_xor)
  have top: "\<not> bit (a XOR b) (LENGTH('a) - 1)"
  proof
    assume "bit (a XOR b) (LENGTH('a) - 1)"
    then have "bit (be_step poly (a XOR b)) 0"
      using assms unfolding be_step_def bit_xor_iff bit_push_bit_iff by simp
    then show False using z by simp
  qed
  then have "push_bit 1 (a XOR b) = 0" using z by (simp add: be_step_def)
  then have "\<not> bit (push_bit 1 (a XOR b)) (Suc i)" for i by simp
  then have "\<not> bit (a XOR b) i" if "Suc i < LENGTH('a)" for i
    using that unfolding bit_push_bit_iff by auto
  then have "\<not> bit (a XOR b) i" for i
    using top by (cases "Suc i < LENGTH('a)") (auto simp: not_less le_Suc_eq dest: bit_imp_le_length)
  then show "a = b" by (auto intro!: bit_word_eqI simp: bit_xor_iff)
qed

lemma le_pack_inj:
  assumes "8 * length xs \<le> LENGTH('a)" and "length xs = length ys"
    and "(le_pack xs :: 'a::len word) = le_pack ys"
  shows "xs = ys"
  using assms
proof (induction xs arbitrary: ys)
  case (Cons x xs)
  obtain y ys' where ys: "ys = y # ys'" "length xs = length ys'" using Cons.prems(2) by (cases ys) auto
  let ?p = "le_pack xs :: 'a word" and ?q = "le_pack ys' :: 'a word"
  have eq: "bit (ucast x XOR push_bit 8 ?p) i = bit (ucast y XOR push_bit 8 ?q) i" for i
    using Cons.prems(3) ys(1) by simp
  have "x = y"
  proof (rule bit_word_eqI)
    fix i assume "i < LENGTH(8)"
    then show "bit x i = bit y i" using eq [of i] Cons.prems(1) by (simp add: bit_simps)
  qed
  moreover have "?p = ?q"
  proof (rule bit_word_eqI)
    fix i assume i: "i < LENGTH('a)"
    show "bit ?p i = bit ?q i"
    proof (cases "i + 8 < LENGTH('a)")
      case True
      then show ?thesis using eq [of "i + 8"] by (auto simp: bit_simps dest!: bit_imp_le_length [of _ "i + 8"])
    next
      case False
      then show ?thesis
        using le_pack_bit [of xs i, where 'a = 'a] le_pack_bit [of ys' i, where 'a = 'a] Cons.prems(1) ys(2)
        by auto
    qed
  qed
  ultimately show ?case using Cons.IH [of ys'] Cons.prems(1) ys by simp
qed simp

lemma be_pack_inj:
  assumes "8 * length xs \<le> LENGTH('a)" and "length xs = length ys"
    and "(be_pack xs :: 'a::len word) = be_pack ys"
  shows "xs = ys"
  using assms
proof (induction xs arbitrary: ys)
  case (Cons x xs)
  obtain y ys' where ys: "ys = y # ys'" "length xs = length ys'" using Cons.prems(2) by (cases ys) auto
  let ?p = "be_pack xs :: 'a word" and ?q = "be_pack ys' :: 'a word" and ?d = "LENGTH('a) - 8"
  have eq: "bit (push_bit ?d (ucast x) XOR drop_bit 8 ?p) i = bit (push_bit ?d (ucast y) XOR drop_bit 8 ?q) i" for i
    using Cons.prems(3) ys(1) by simp
  have "x = y"
  proof (rule bit_word_eqI)
    fix i assume "i < LENGTH(8)"
    then show "bit x i = bit y i"
      using eq [of "?d + i"] Cons.prems(1) bit_imp_le_length [of ?p "LENGTH('a) + i"]
        bit_imp_le_length [of ?q "LENGTH('a) + i"] by (auto simp: bit_simps)
  qed
  moreover have "?p = ?q"
  proof (rule bit_word_eqI)
    fix i assume i: "i < LENGTH('a)"
    show "bit ?p i = bit ?q i"
    proof (cases "8 \<le> i")
      case True
      then show ?thesis using eq [of "i - 8"] i by (auto simp: bit_simps)
    next
      case False
      then show ?thesis
        using be_pack_bit [of xs i, where 'a = 'a] be_pack_bit [of ys' i, where 'a = 'a] Cons.prems(1) ys(2)
        by auto
    qed
  qed
  ultimately show ?case using Cons.IH [of ys'] Cons.prems(1) ys by simp
qed simp

lemma xor_left_cancel: "(c XOR a = c XOR b) = (a = (b :: 'a::len word))"
  by (metis xor.left_neutral xor_self_eq xor.assoc)

lemma le_crc_burst:
  fixes poly c :: "'a::len word"
  assumes poly: "bit poly (LENGTH('a) - 1)" and len: "length x = length y" "8 * length x \<le> LENGTH('a)"
    and "x \<noteq> y"
  shows "le_crc poly c (u @ x @ v) \<noteq> le_crc poly c (u @ y @ v)"
proof -
  have app: "le_crc poly c (u @ z @ v) = le_crc poly (le_crc poly (le_crc poly c u) z) v" for z
    by (simp add: le_crc_def)
  have tail: "le_crc poly a v = le_crc poly b v \<Longrightarrow> a = b" for a b
  proof (induction v arbitrary: a b)
    case (Cons z v)
    then have "(le_step poly ^^ 8) (a XOR ucast z) = (le_step poly ^^ 8) (b XOR ucast z)"
      by (simp add: le_crc_def le_byte_def)
    then show ?case
      using inj_fn [OF le_step_inj [OF poly]] by (metis injD xor.commute xor_left_cancel)
  qed (simp add: le_crc_def)
  show ?thesis
  proof
    assume "le_crc poly c (u @ x @ v) = le_crc poly c (u @ y @ v)"
    then have "le_crc poly (le_crc poly c u) x = le_crc poly (le_crc poly c u) y"
      unfolding app by (rule tail)
    then have "(le_pack x :: 'a word) = le_pack y"
      using inj_fn [OF le_step_inj [OF poly]] len
      by (simp add: le_crc_pack) (metis injD xor_left_cancel)
    then show False using le_pack_inj [OF len(2,1)] assms(4) by blast
  qed
qed

lemma be_crc_burst:
  fixes poly c :: "'a::len word"
  assumes poly: "bit poly 0" and len: "length x = length y" "8 * length x \<le> LENGTH('a)"
    and "x \<noteq> y"
  shows "be_crc poly c (u @ x @ v) \<noteq> be_crc poly c (u @ y @ v)"
proof -
  have app: "be_crc poly c (u @ z @ v) = be_crc poly (be_crc poly (be_crc poly c u) z) v" for z
    by (simp add: be_crc_def)
  have tail: "be_crc poly a v = be_crc poly b v \<Longrightarrow> a = b" for a b
  proof (induction v arbitrary: a b)
    case (Cons z v)
    then have "(be_step poly ^^ 8) (a XOR push_bit (LENGTH('a) - 8) (ucast z)) =
        (be_step poly ^^ 8) (b XOR push_bit (LENGTH('a) - 8) (ucast z))"
      by (simp add: be_crc_def be_byte_def)
    then show ?case
      using inj_fn [OF be_step_inj [OF poly]] by (metis injD xor.commute xor_left_cancel)
  qed (simp add: be_crc_def)
  show ?thesis
  proof
    assume "be_crc poly c (u @ x @ v) = be_crc poly c (u @ y @ v)"
    then have "be_crc poly (be_crc poly c u) x = be_crc poly (be_crc poly c u) y"
      unfolding app by (rule tail)
    then have "(be_pack x :: 'a word) = be_pack y"
      using inj_fn [OF be_step_inj [OF poly]] len
      by (simp add: be_crc_pack) (metis injD xor_left_cancel)
    then show False using be_pack_inj [OF len(2,1)] assms(4) by blast
  qed
qed

section \<open>Properties\<close>

text \<open>C24. The table-driven CRC routines compute polynomial division: for every start value and
  message they agree with the division one bit at a time by their generator polynomials,
  reflected for CRC-16 and CRC-CCITT, high bit first for ITU-T V.41, T10-DIF and CRC-7
  (where the start value has to be a seven-bit one).\<close>

theorem crc_tables_divide:
  "crc16 c bs = le_crc 0xA001 c bs \<and> crc_ccitt c bs = le_crc 0x8408 c bs \<and>
   crc_itu_t c bs = be_crc 0x1021 c bs \<and> crc_t10dif bs = be_crc 0x8BB7 0 bs \<and>
   (d < 0x80 \<longrightarrow> crc7 d bs = Some (drop_bit 1 (be_crc 0x12 (push_bit 1 d) bs)))"
proof -
  have "crc7 d bs = Some (drop_bit 1 (be_crc 0x12 (push_bit 1 d) bs))" if "d < 0x80"
  proof -
    have "unat d < 2 ^ 7" using that by (simp add: word_less_nat_alt)
    then have "take_bit 7 d = d" by (simp add: word_unat_eq_iff unsigned_take_bit_eq take_bit_nat_eq_self)
    then have "bit d i \<Longrightarrow> i < 7" for i by (metis bit_take_bit_iff)
    then have "bit (drop_bit 1 (push_bit 1 d)) i = bit d i" for i
      unfolding bit_drop_bit_eq comp_def bit_push_bit_iff by fastforce
    then have "drop_bit 1 (push_bit 1 d) = d" by (simp add: bit_eq_iff)
    moreover have "\<not> bit (push_bit 1 d) 0" unfolding bit_push_bit_iff by simp
    ultimately show ?thesis using crc7_eq [of "push_bit 1 d" bs] by simp
  qed
  then show ?thesis by (simp add: crc16_eq crc_ccitt_eq crc_itu_t_eq crc_t10dif_eq)
qed

theorem crc_tables_divide_witness:
  "crc16 0 [0x31, 0x32] = le_crc 0xA001 0 [0x31, 0x32] \<and> crc7 0 [0x40] = Some (drop_bit 1 (be_crc 0x12 0 [0x40]))"
  using crc_tables_divide [of 0 "[0x31, 0x32]" 0] crc_tables_divide [of 0 "[0x40]" 0] by simp

text \<open>The 16-bit checks detect every error burst of up to two adjacent bytes anywhere in a
  message, whatever surrounds it.\<close>

theorem crc_detects_bursts:
  assumes "length x = length y" and "length x \<le> 2" and "x \<noteq> y"
  shows "crc16 c (u @ x @ v) \<noteq> crc16 c (u @ y @ v) \<and> crc_ccitt c (u @ x @ v) \<noteq> crc_ccitt c (u @ y @ v) \<and>
    crc_itu_t c (u @ x @ v) \<noteq> crc_itu_t c (u @ y @ v) \<and> crc_t10dif (u @ x @ v) \<noteq> crc_t10dif (u @ y @ v)"
  unfolding crc16_eq crc_ccitt_eq crc_itu_t_eq crc_t10dif_eq
  using assms by (intro conjI le_crc_burst be_crc_burst) (simp_all add: bit_numeral_rec)

theorem crc_detects_bursts_witness:
  "crc16 0 ([7] @ [1, 2] @ [9, 9]) \<noteq> crc16 0 ([7] @ [3, 0] @ [9, 9])"
  using crc_detects_bursts [of "[1, 2]" "[3, 0]" 0 "[7]" "[9, 9]"] by simp

end
