(* ===== verification/Byteorder.thy ===== *)
theory Byteorder
  imports Kernel_Prelude
begin

text \<open>
  Byte order: loads and stores of 32-bit integers in little- and big-endian order as
  \<^verbatim>\<open>include/linux/unaligned/le_byteshift.h\<close> and \<^verbatim>\<open>be_byteshift.h\<close> define them, and the byte swap
  of \<^verbatim>\<open>include/linux/swab.h\<close>.  On the little-endian target \<^verbatim>\<open>le32_to_cpu\<close> is the identity and
  \<^verbatim>\<open>be32_to_cpu\<close> is the swap.
\<close>

definition swab32 :: "u32 \<Rightarrow> u32" where
  "swab32 x = push_bit 24 (x AND 0xff) OR push_bit 8 (x AND 0xff00) OR
     drop_bit 8 (x AND 0xff0000) OR drop_bit 24 (x AND 0xff000000)"

definition load_le32 :: "u8 \<Rightarrow> u8 \<Rightarrow> u8 \<Rightarrow> u8 \<Rightarrow> u32" where
  "load_le32 b0 b1 b2 b3 =
     ucast b0 OR push_bit 8 (ucast b1) OR push_bit 16 (ucast b2) OR push_bit 24 (ucast b3)"

definition load_be32 :: "u8 \<Rightarrow> u8 \<Rightarrow> u8 \<Rightarrow> u8 \<Rightarrow> u32" where
  "load_be32 b0 b1 b2 b3 =
     push_bit 24 (ucast b0) OR push_bit 16 (ucast b1) OR push_bit 8 (ucast b2) OR ucast b3"

definition store_le32 :: "u32 \<Rightarrow> u8 list" where
  "store_le32 w = [ucast w, ucast (drop_bit 8 w), ucast (drop_bit 16 w), ucast (drop_bit 24 w)]"

definition store_be32 :: "u32 \<Rightarrow> u8 list" where
  "store_be32 w = [ucast (drop_bit 24 w), ucast (drop_bit 16 w), ucast (drop_bit 8 w), ucast w]"

text \<open>Access to the \<open>i\<close>-th 32-bit integer of a byte array.\<close>

definition le32_at :: "u8 list \<Rightarrow> nat \<Rightarrow> u32" where
  "le32_at p i = load_le32 (p ! (4 * i)) (p ! (4 * i + 1)) (p ! (4 * i + 2)) (p ! (4 * i + 3))"

definition be32_at :: "u8 list \<Rightarrow> nat \<Rightarrow> u32" where
  "be32_at p i = load_be32 (p ! (4 * i)) (p ! (4 * i + 1)) (p ! (4 * i + 2)) (p ! (4 * i + 3))"

section \<open>Lemmas\<close>

lemma swab_masks:
  "(0xff :: u32) = mask 8" "(0xff00 :: u32) = push_bit 8 (mask 8)"
  "(0xff0000 :: u32) = push_bit 16 (mask 8)" "(0xff000000 :: u32) = push_bit 24 (mask 8)"
  by (simp_all add: mask_eq_exp_minus_1)

lemma swab32_bit: "bit (swab32 x) n \<longleftrightarrow>
    (if n < 8 then bit x (24 + n) else if n < 16 then bit x (8 + n)
     else if n < 24 then bit x (n - 8) else n < 32 \<and> bit x (n - 24))"
  unfolding swab32_def swab_masks by (auto simp: bit_simps add.commute dest: bit_imp_le_length)

lemma swab32_xor: "swab32 (a XOR b) = swab32 a XOR swab32 b"
  by (rule bit_word_eqI) (auto simp: swab32_bit bit_simps)

lemma swab32_swab32: "swab32 (swab32 a) = a"
  by (rule bit_word_eqI) (auto simp: swab32_bit)

lemma swab32_bytes:
  "swab32 c AND 0xff = drop_bit 24 c AND 0xff" "drop_bit 8 (swab32 c) AND 0xff = drop_bit 16 c AND 0xff"
  "drop_bit 16 (swab32 c) AND 0xff = drop_bit 8 c AND 0xff" "drop_bit 24 (swab32 c) AND 0xff = c AND 0xff"
  unfolding swab_masks
  by (rule bit_word_eqI; auto simp: swab32_bit bit_simps dest: bit_imp_le_length)+

lemma swab32_shift: "drop_bit 8 (swab32 c) = swab32 (push_bit 8 c)"
  by (rule bit_word_eqI) (auto simp: swab32_bit bit_simps dest: bit_imp_le_length)

lemma bit_byte: "8 \<le> n \<Longrightarrow> \<not> bit (b :: u8) n"
  by (auto dest: bit_imp_le_length)

lemma byte_cases:
  obtains "n < 8" | "8 \<le> n" "n < 16" | "16 \<le> n" "n < 24" | "24 \<le> n" "n < 32" | "32 \<le> (n :: nat)"
  by linarith

lemma bytes_split: "(c :: u32) = (c AND 0xff) XOR push_bit 8 (drop_bit 8 c AND 0xff) XOR
    push_bit 16 (drop_bit 16 c AND 0xff) XOR push_bit 24 (drop_bit 24 c AND 0xff)"
  (is "c = ?bytes")
proof (rule bit_word_eqI)
  fix n
  show "bit c n = bit ?bytes n"
    unfolding swab_masks
    by (cases n rule: byte_cases) (auto simp: bit_simps dest: bit_imp_le_length)
qed

lemma load_be32_swab: "load_be32 b0 b1 b2 b3 = swab32 (load_le32 b0 b1 b2 b3)"
proof (rule bit_word_eqI)
  fix n
  show "bit (load_be32 b0 b1 b2 b3) n = bit (swab32 (load_le32 b0 b1 b2 b3)) n"
    by (cases n rule: byte_cases) (auto simp: load_be32_def load_le32_def swab32_bit bit_simps bit_byte)
qed

lemma length_store [simp]: "length (store_le32 w) = 4" "length (store_be32 w) = 4"
  by (simp_all add: store_le32_def store_be32_def)

lemma le32_bytes:
  "ucast (load_le32 b0 b1 b2 b3) = b0" "ucast (drop_bit 8 (load_le32 b0 b1 b2 b3)) = b1"
  "ucast (drop_bit 16 (load_le32 b0 b1 b2 b3)) = b2" "ucast (drop_bit 24 (load_le32 b0 b1 b2 b3)) = b3"
  by (rule bit_word_eqI; simp add: load_le32_def bit_simps bit_byte)+

lemma store_load_le32 [simp]: "store_le32 (load_le32 b0 b1 b2 b3) = [b0, b1, b2, b3]"
  by (simp add: store_le32_def le32_bytes)

lemma load_store_le32 [simp]:
  "load_le32 (ucast w) (ucast (drop_bit 8 w)) (ucast (drop_bit 16 w)) (ucast (drop_bit 24 w)) = w"
proof (rule bit_word_eqI)
  fix n
  show "bit (load_le32 (ucast w) (ucast (drop_bit 8 w)) (ucast (drop_bit 16 w)) (ucast (drop_bit 24 w))) n = bit w n"
    by (cases n rule: byte_cases) (auto simp: load_le32_def bit_simps dest: bit_imp_le_length)
qed

lemma store_be32_swab: "store_be32 w = store_le32 (swab32 w)"
proof -
  have "ucast (drop_bit 24 w) = (ucast (swab32 w) :: u8)" "ucast (drop_bit 16 w) = (ucast (drop_bit 8 (swab32 w)) :: u8)"
    "ucast (drop_bit 8 w) = (ucast (drop_bit 16 (swab32 w)) :: u8)" "ucast w = (ucast (drop_bit 24 (swab32 w)) :: u8)"
    by (rule bit_word_eqI; simp add: bit_simps swab32_bit)+
  then show ?thesis by (simp add: store_be32_def store_le32_def)
qed

lemma store_load_be32 [simp]: "store_be32 (load_be32 b0 b1 b2 b3) = [b0, b1, b2, b3]"
  by (simp add: store_be32_swab load_be32_swab swab32_swab32)

lemma load_store_be32 [simp]:
  "load_be32 (ucast (drop_bit 24 w)) (ucast (drop_bit 16 w)) (ucast (drop_bit 8 w)) (ucast w) = w"
proof (rule bit_word_eqI)
  fix n
  show "bit (load_be32 (ucast (drop_bit 24 w)) (ucast (drop_bit 16 w)) (ucast (drop_bit 8 w)) (ucast w)) n = bit w n"
    by (cases n rule: byte_cases) (auto simp: load_be32_def bit_simps dest: bit_imp_le_length)
qed

lemma load_le32_xor:
  "load_le32 (a0 XOR b0) (a1 XOR b1) (a2 XOR b2) (a3 XOR b3) = load_le32 a0 a1 a2 a3 XOR load_le32 b0 b1 b2 b3"
proof (rule bit_word_eqI)
  fix n
  show "bit (load_le32 (a0 XOR b0) (a1 XOR b1) (a2 XOR b2) (a3 XOR b3)) n =
      bit (load_le32 a0 a1 a2 a3 XOR load_le32 b0 b1 b2 b3) n"
    by (cases n rule: byte_cases) (auto simp: load_le32_def bit_simps bit_byte)
qed

text \<open>A block of two or four integers and its bytes.\<close>

lemma list4_exhaust:
  assumes "length p = 4" obtains a b c d where "p = [a, b, c, d]"
  using assms that by (auto simp: numeral_eq_Suc length_Suc_conv)

lemma drop4: "4 * i + 4 \<le> length p \<Longrightarrow>
    take 4 (drop (4 * i) p) = [p ! (4 * i), p ! (4 * i + 1), p ! (4 * i + 2), p ! (4 * i + 3)]"
  by (rule nth_equalityI) (auto simp: numeral_eq_Suc less_Suc_eq)

lemma store_le32_at: "4 * i + 4 \<le> length p \<Longrightarrow> store_le32 (le32_at p i) = take 4 (drop (4 * i) p)"
  by (simp add: le32_at_def drop4)

lemma store_be32_at: "4 * i + 4 \<le> length p \<Longrightarrow> store_be32 (be32_at p i) = take 4 (drop (4 * i) p)"
  by (simp add: be32_at_def drop4)

lemma le32_at_store [simp]: "le32_at (store_le32 a @ p) 0 = a" "le32_at (store_le32 a) 0 = a"
  "le32_at (store_le32 a @ p) (Suc i) = le32_at p i"
  by (simp_all add: le32_at_def store_le32_def add.commute [of "4 * i"])

lemma be32_at_store [simp]: "be32_at (store_be32 a @ p) 0 = a" "be32_at (store_be32 a) 0 = a"
  "be32_at (store_be32 a @ p) (Suc i) = be32_at p i"
  by (simp_all add: be32_at_def store_be32_def add.commute [of "4 * i"])

lemma block8:
  assumes "length p = 8"
  shows "store_le32 (le32_at p 0) @ store_le32 (le32_at p 1) = p" and "store_be32 (be32_at p 0) @ store_be32 (be32_at p 1) = p"
proof -
  have "take 4 (drop 0 p) @ take 4 (drop 4 p) = p" using assms by (simp add: take_add [symmetric])
  then show "store_le32 (le32_at p 0) @ store_le32 (le32_at p 1) = p" "store_be32 (be32_at p 0) @ store_be32 (be32_at p 1) = p"
    using assms store_le32_at [of 0 p] store_le32_at [of 1 p] store_be32_at [of 0 p] store_be32_at [of 1 p] by simp_all
qed

lemma block16:
  assumes "length p = 16"
  shows "store_le32 (le32_at p 0) @ store_le32 (le32_at p 1) @ store_le32 (le32_at p 2) @ store_le32 (le32_at p 3) = p"
proof -
  have "take 4 p @ take 4 (drop 4 p) @ take 4 (drop 8 p) @ take 4 (drop 12 p) = take (4 + (4 + (4 + 4))) p"
    by (simp only: take_add drop_drop) simp
  then have "p = take 4 (drop 0 p) @ take 4 (drop 4 p) @ take 4 (drop 8 p) @ take 4 (drop 12 p)" using assms by simp
  then show ?thesis
    using assms store_le32_at [of 0 p] store_le32_at [of 1 p] store_le32_at [of 2 p] store_le32_at [of 3 p] by simp
qed

end
