(* ===== verification/Crc32.thy ===== *)
theory Crc32
  imports Crc Byteorder
begin

text \<open>
  The Ethernet CRC-32 of \<^verbatim>\<open>lib/crc32.c\<close> with the tables \<^verbatim>\<open>lib/gen_crc32table.c\<close> generates.  The
  routine aligns the buffer, then consumes four bytes per step with four tables, then the
  rest; it is shown equal to the one-bit-at-a-time routines the same file gives for
  \<^verbatim>\<open>CRC_LE_BITS == 1\<close> and \<^verbatim>\<open>CRC_BE_BITS == 1\<close>.  The machine is little-endian.
\<close>

section \<open>Generated tables\<close>

definition CRCPOLY_LE :: u32 where "CRCPOLY_LE = 0xedb88320"
definition CRCPOLY_BE :: u32 where "CRCPOLY_BE = 0x04c11db7"

definition crc_le_bit :: "u32 \<Rightarrow> u32" where
  "crc_le_bit crc = drop_bit 1 crc XOR (if crc AND 1 \<noteq> 0 then CRCPOLY_LE else 0)"

definition crc_be_bit :: "u32 \<Rightarrow> u32" where
  "crc_be_bit crc = push_bit 1 crc XOR (if crc AND 0x80000000 \<noteq> 0 then CRCPOLY_BE else 0)"

text \<open>One row fills the entries \<open>i + j\<close> from those at \<open>j\<close>.\<close>

fun table_row :: "u32 \<Rightarrow> nat \<Rightarrow> nat list \<Rightarrow> u32 list \<Rightarrow> u32 list" where
  "table_row crc i [] tab = tab"
| "table_row crc i (j # js) tab = table_row crc i js (tab[i + j := crc XOR tab ! j])"

fun init_le_rows :: "u32 \<Rightarrow> nat list \<Rightarrow> u32 list \<Rightarrow> u32 list" where
  "init_le_rows crc [] tab = tab"
| "init_le_rows crc (i # is) tab =
     (let crc = crc_le_bit crc in
      init_le_rows crc is (table_row crc i [j \<leftarrow> [0..<256]. j mod (2 * i) = 0] tab))"

fun init_be_rows :: "u32 \<Rightarrow> nat list \<Rightarrow> u32 list \<Rightarrow> u32 list" where
  "init_be_rows crc [] tab = tab"
| "init_be_rows crc (i # is) tab =
     (let crc = crc_be_bit crc in init_be_rows crc is (table_row crc i [0..<i] tab))"

definition table0_le :: "u32 list" where
  "table0_le = init_le_rows 1 [128, 64, 32, 16, 8, 4, 2, 1] (replicate 256 0)"

definition table0_be :: "u32 list" where
  "table0_be = init_be_rows 0x80000000 [1, 2, 4, 8, 16, 32, 64, 128] (replicate 256 0)"

definition next_le :: "u32 \<Rightarrow> u32" where
  "next_le crc = table0_le ! unat (crc AND 0xff) XOR drop_bit 8 crc"

definition next_be :: "u32 \<Rightarrow> u32" where
  "next_be crc = table0_be ! unat (drop_bit 24 crc AND 0xff) XOR push_bit 8 crc"

definition crc32table_le :: "u32 list list" where
  "crc32table_le = map (\<lambda>j. map (\<lambda>i. (next_le ^^ j) (table0_le ! i)) [0..<256]) [0..<4]"

definition crc32table_be :: "u32 list list" where
  "crc32table_be = map (\<lambda>j. map (\<lambda>i. (next_be ^^ j) (table0_be ! i)) [0..<256]) [0..<4]"

section \<open>The routines\<close>

definition DO_CRC :: "u32 list list \<Rightarrow> u32 \<Rightarrow> u8 \<Rightarrow> u32" where
  "DO_CRC tab crc x = tab ! 0 ! unat ((crc XOR ucast x) AND 0xff) XOR drop_bit 8 crc"

definition DO_CRC4 :: "u32 list list \<Rightarrow> u32 \<Rightarrow> u32" where
  "DO_CRC4 tab crc = tab ! 3 ! unat (crc AND 0xff) XOR tab ! 2 ! unat (drop_bit 8 crc AND 0xff) XOR
     tab ! 1 ! unat (drop_bit 16 crc AND 0xff) XOR tab ! 0 ! unat (drop_bit 24 crc AND 0xff)"

fun crc_align :: "u32 list list \<Rightarrow> u32 \<Rightarrow> u32 \<Rightarrow> u8 list \<Rightarrow> u32 \<times> u8 list" where
  "crc_align tab addr crc [] = (crc, [])"
| "crc_align tab addr crc (b # bs) =
     (if addr AND 3 \<noteq> 0 then crc_align tab (addr + 1) (DO_CRC tab crc b) bs else (crc, b # bs))"

fun crc_words :: "u32 list list \<Rightarrow> u32 \<Rightarrow> u8 list \<Rightarrow> u32 \<times> u8 list" where
  "crc_words tab crc (b0 # b1 # b2 # b3 # bs) =
     crc_words tab (DO_CRC4 tab (crc XOR load_le32 b0 b1 b2 b3)) bs"
| "crc_words tab crc bs = (crc, bs)"

fun crc_rest :: "u32 list list \<Rightarrow> u32 \<Rightarrow> u8 list \<Rightarrow> u32" where
  "crc_rest tab crc [] = crc"
| "crc_rest tab crc (b # bs) = crc_rest tab (DO_CRC tab crc b) bs"

definition crc32_body :: "u32 \<Rightarrow> u32 \<Rightarrow> u8 list \<Rightarrow> u32 list list \<Rightarrow> u32" where
  "crc32_body addr crc bs tab = (case crc_align tab addr crc bs of (crc, bs) \<Rightarrow>
     (case crc_words tab crc bs of (crc, bs) \<Rightarrow> crc_rest tab crc bs))"

text \<open>\<open>addr\<close> is the address of the buffer.  On this machine \<^verbatim>\<open>__cpu_to_le32\<close> is the identity and
  \<^verbatim>\<open>__cpu_to_be32\<close> swaps bytes, also in the emitted table.\<close>

definition crc32_le :: "u32 \<Rightarrow> u32 \<Rightarrow> u8 list \<Rightarrow> u32" where
  "crc32_le addr crc p = crc32_body addr crc p crc32table_le"

definition crc32_be :: "u32 \<Rightarrow> u32 \<Rightarrow> u8 list \<Rightarrow> u32" where
  "crc32_be addr crc p = swab32 (crc32_body addr (swab32 crc) p (map (map swab32) crc32table_be))"

text \<open>The variants for one bit at a time.\<close>

fun crc32_le_bits :: "u32 \<Rightarrow> u8 list \<Rightarrow> u32" where
  "crc32_le_bits crc [] = crc"
| "crc32_le_bits crc (b # p) = crc32_le_bits ((crc_le_bit ^^ 8) (crc XOR ucast b)) p"

fun crc32_be_bits :: "u32 \<Rightarrow> u8 list \<Rightarrow> u32" where
  "crc32_be_bits crc [] = crc"
| "crc32_be_bits crc (b # p) = crc32_be_bits ((crc_be_bit ^^ 8) (crc XOR push_bit 24 (ucast b))) p"

section \<open>The generated tables are the division tables\<close>

lemma crc_le_bit_step: "crc_le_bit = le_step CRCPOLY_LE"
  by (rule ext) (simp add: crc_le_bit_def le_step_def and_one_eq odd_iff_mod_2_eq_one bit_0)

lemma crc_be_bit_step: "crc_be_bit = be_step CRCPOLY_BE"
proof
  fix c :: u32
  have "(0x80000000 :: u32) = 2 ^ 31" by simp
  then have "c AND 0x80000000 \<noteq> 0 \<longleftrightarrow> bit c 31" by (simp only: and_exp_eq_0_iff_not_bit not_not)
  then show "crc_be_bit c = be_step CRCPOLY_BE c" by (simp add: crc_be_bit_def be_step_def)
qed

lemma table_row_nth:
  assumes "\<And>j. j \<in> set js \<Longrightarrow> i + j < length tab \<and> i + j \<notin> set js" and "distinct js"
  shows "length (table_row crc i js tab) = length tab" and "m < length tab \<Longrightarrow>
    table_row crc i js tab ! m = (if \<exists>j \<in> set js. m = i + j then crc XOR tab ! (m - i) else tab ! m)"
  using assms
proof (induction js arbitrary: tab)
  case (Cons j js)
  {
    case 1
    then show ?case using Cons.IH(1) [of "tab[i + j := crc XOR tab ! j]"] by auto
  next
    case 2
    let ?t = "tab[i + j := crc XOR tab ! j]"
    have "table_row crc i js ?t ! m = (if \<exists>j \<in> set js. m = i + j then crc XOR ?t ! (m - i) else ?t ! m)"
      using 2 by (intro Cons.IH(2)) auto
    then show ?case using 2 by (auto simp: nth_list_update)
  }
qed simp_all

lemma le_steps_pow:
  assumes "k \<le> 8"
  shows "(le_step CRCPOLY_LE ^^ 8) (2 ^ k) = (le_step CRCPOLY_LE ^^ (8 - k)) 1"
proof -
  have "(le_step CRCPOLY_LE ^^ 8) (2 ^ k :: u32) = (le_step CRCPOLY_LE ^^ (8 - k)) ((le_step CRCPOLY_LE ^^ k) (2 ^ k))"
    using assms by (metis comp_apply funpow_add le_add_diff_inverse2)
  moreover have "(le_step CRCPOLY_LE ^^ k) (2 ^ k) = drop_bit k (2 ^ k)"
    by (rule le_steps_shift, rule bit_word_eqI) (auto simp: bit_simps)
  moreover have "drop_bit k (2 ^ k) = (1 :: u32)"
    using assms by (auto intro!: bit_word_eqI simp: bit_simps)
  ultimately show ?thesis by simp
qed

lemma be_steps_pow:
  assumes "k \<le> 7"
  shows "(be_step CRCPOLY_BE ^^ 8) (push_bit 24 (2 ^ k)) = (be_step CRCPOLY_BE ^^ Suc k) 0x80000000"
proof -
  have "(be_step CRCPOLY_BE ^^ 8) (push_bit 24 (2 ^ k) :: u32) =
      (be_step CRCPOLY_BE ^^ Suc k) ((be_step CRCPOLY_BE ^^ (7 - k)) (push_bit 24 (2 ^ k)))"
    using assms by (simp only: funpow_add [THEN fun_cong, unfolded comp_apply, symmetric]) simp
  moreover have "(be_step CRCPOLY_BE ^^ (7 - k)) (push_bit 24 (2 ^ k)) = push_bit (7 - k) (push_bit 24 (2 ^ k))"
    using assms by (intro be_steps_shift bit_word_eqI) (auto simp: bit_simps)
  moreover have "push_bit (7 - k) (push_bit 24 (2 ^ k)) = (2 ^ 31 :: u32)"
    using assms by (simp only: push_bit_eq_mult power_add [symmetric]) simp
  moreover have "(2 ^ 31 :: u32) = 0x80000000" by simp
  ultimately show ?thesis by (simp only:)
qed

lemma word_of_nat_xor_high:
  assumes "2 ^ Suc k dvd j"
  shows "(word_of_nat (2 ^ k + j) :: 'a::len word) = 2 ^ k XOR word_of_nat j"
proof -
  have "2 ^ k AND j = 0"
  proof (rule bit_eqI)
    fix n
    obtain q where "j = push_bit (Suc k) q" using assms by (metis dvdE mult.commute push_bit_eq_mult)
    then have "\<not> bit j k" by (simp only: bit_push_bit_iff) simp
    then show "bit (2 ^ k AND j) n = bit 0 n" by (auto simp: bit_simps)
  qed
  then have "2 ^ k + j = 2 ^ k XOR j" by (rule disjunctive_add_eq_xor)
  then show ?thesis by (metis of_nat_xor_eq of_nat_power of_nat_numeral)
qed

lemma odd_multiple:
  assumes "j < (256 :: nat)" and "j mod (2 * 2 ^ k) = 0" and "k < 8"
  shows "2 ^ k + j < 256" and "(2 ^ k + j) mod (2 * 2 ^ k) \<noteq> 0"
proof -
  obtain q where q: "j = 2 ^ Suc k * q" using assms(2) by (auto simp: mod_eq_0_iff_dvd elim: dvdE)
  have total: "(256 :: nat) = 2 ^ Suc k * 2 ^ (7 - k)"
    using assms(3) by (simp only: power_add [symmetric]) simp
  then have "q < 2 ^ (7 - k)" using assms(1) q by (metis mult_less_cancel1)
  then have "2 ^ Suc k * (q + 1) \<le> 2 ^ Suc k * 2 ^ (7 - k)" by (intro mult_le_mono2) simp
  then have "2 ^ Suc k * q + 2 ^ Suc k \<le> 256" using total by (simp only: distrib_left mult_1_right)
  moreover have "(2 :: nat) ^ k < 2 ^ Suc k" by simp
  ultimately show "2 ^ k + j < 256" using q by linarith
  have "(2 ^ k + j) mod (2 * 2 ^ k) = 2 ^ k" using q by simp
  then show "(2 ^ k + j) mod (2 * 2 ^ k) \<noteq> 0" by simp
qed

lemma multiple_cases:
  assumes "2 ^ k dvd (m :: nat)"
  obtains "2 ^ Suc k dvd m" | j where "m = 2 ^ k + j" and "2 ^ Suc k dvd j"
proof -
  obtain q where q: "m = 2 ^ k * q" using assms by (rule dvdE)
  show thesis
  proof (cases "even q")
    case True
    then show thesis using q that(1) by auto
  next
    case False
    then obtain r where "q = 2 * r + 1" by (rule oddE)
    then show thesis using q that(2) [of "2 ^ Suc k * r"] by (simp add: algebra_simps)
  qed
qed

lemma init_le_rows_correct:
  assumes "k \<le> 8" and "length tab = 256" and "crc = (le_step CRCPOLY_LE ^^ (8 - k)) 1"
    and "\<And>m. m < 256 \<Longrightarrow> 2 ^ k dvd m \<Longrightarrow> tab ! m = (le_step CRCPOLY_LE ^^ 8) (word_of_nat m)"
  shows "init_le_rows crc (map (\<lambda>k. 2 ^ k) (rev [0..<k])) tab = le_table CRCPOLY_LE"
  using assms
proof (induction k arbitrary: crc tab)
  case 0
  then show ?case by (auto simp: le_table_def intro: nth_equalityI)
next
  case (Suc k)
  let ?f = "\<lambda>m. (le_step CRCPOLY_LE ^^ 8) (word_of_nat m)"
  let ?crc = "crc_le_bit crc" and ?js = "[j \<leftarrow> [0..<256]. j mod (2 * 2 ^ k) = 0]"
  let ?tab = "table_row ?crc (2 ^ k) ?js tab"
  have crc: "?crc = (le_step CRCPOLY_LE ^^ (8 - k)) 1"
  proof -
    have "8 - k = Suc (8 - Suc k)" using Suc.prems(1) by simp
    then show ?thesis by (simp only: Suc.prems(3) crc_le_bit_step funpow.simps comp_apply)
  qed
  have js: "2 ^ k + j < length tab \<and> 2 ^ k + j \<notin> set ?js" if "j \<in> set ?js" for j
    using that Suc.prems(1,2) odd_multiple [of j k] by auto
  have dist: "distinct ?js" by simp
  have "?tab ! m = ?f m" if m: "m < 256" "2 ^ k dvd m" for m
    using m(2)
  proof (cases rule: multiple_cases)
    case 1
    then have "\<not> (\<exists>j \<in> set ?js. m = 2 ^ k + j)" using js m by (auto simp: mod_eq_0_iff_dvd)
    moreover have "?tab ! m = (if \<exists>j \<in> set ?js. m = 2 ^ k + j then ?crc XOR tab ! (m - 2 ^ k) else tab ! m)"
      using m Suc.prems(2) by (intro table_row_nth(2) [OF js dist]) simp_all
    ultimately have "?tab ! m = tab ! m" by (simp only: if_False)
    then show ?thesis using 1 m Suc.prems(4) by simp
  next
    case (2 j)
    then have "j \<in> set ?js" using m by (simp add: mod_eq_0_iff_dvd)
    then have "?tab ! m = ?crc XOR tab ! j"
      using 2 m Suc.prems(2) by (subst table_row_nth(2) [OF js dist]) auto
    also have "\<dots> = (le_step CRCPOLY_LE ^^ 8) (2 ^ k) XOR ?f j"
      using 2 m Suc.prems le_steps_pow [of k] crc by simp
    also have "\<dots> = ?f m" using 2 by (simp only: word_of_nat_xor_high le_steps_xor)
    finally show ?thesis .
  qed
  then have "init_le_rows ?crc (map (\<lambda>k. 2 ^ k) (rev [0..<k])) ?tab = le_table CRCPOLY_LE"
    using Suc.prems crc table_row_nth(1) [OF js dist] by (intro Suc.IH) simp_all
  then show ?case by (simp add: Let_def)
qed

lemma table0_le_correct: "table0_le = le_table CRCPOLY_LE"
proof -
  have "[128, 64, 32, 16, 8, 4, 2, 1 :: nat] = map (\<lambda>k. 2 ^ k) (rev [0..<8])" by code_simp
  then have "table0_le = init_le_rows 1 (map (\<lambda>k. 2 ^ k) (rev [0..<8])) (replicate 256 0)"
    by (simp only: table0_le_def)
  also have "\<dots> = le_table CRCPOLY_LE"
  proof (rule init_le_rows_correct)
    fix m :: nat
    assume "m < 256" and "2 ^ 8 dvd m"
    then have "m = 0" by (auto elim!: dvdE)
    then show "replicate 256 0 ! m = (le_step CRCPOLY_LE ^^ 8) (word_of_nat m)"
      using le_steps_shift [of 8 "0 :: u32" CRCPOLY_LE] by simp
  qed simp_all
  finally show ?thesis .
qed

lemma init_be_rows_correct:
  assumes "n + k = 8" and "length tab = 256" and "crc = (be_step CRCPOLY_BE ^^ k) 0x80000000"
    and "\<And>m. m < 2 ^ k \<Longrightarrow> tab ! m = (be_step CRCPOLY_BE ^^ 8) (push_bit 24 (word_of_nat m))"
  shows "init_be_rows crc (map (\<lambda>k. 2 ^ k) [k..<8]) tab = be_table CRCPOLY_BE"
  using assms
proof (induction n arbitrary: k crc tab)
  case 0
  then show ?case by (auto simp: be_table_def intro: nth_equalityI)
next
  case (Suc n)
  let ?f = "\<lambda>m. (be_step CRCPOLY_BE ^^ 8) (push_bit 24 (word_of_nat m))"
  let ?crc = "crc_be_bit crc" and ?js = "[0..<2 ^ k]"
  let ?tab = "table_row ?crc (2 ^ k) ?js tab"
  have crc: "?crc = (be_step CRCPOLY_BE ^^ Suc k) 0x80000000"
    by (simp only: Suc.prems(3) crc_be_bit_step funpow.simps comp_apply)
  have "(2 :: nat) ^ Suc k \<le> 2 ^ 8" using Suc.prems(1) by (intro power_increasing) simp_all
  then have size: "2 ^ k + 2 ^ k \<le> (256 :: nat)" by simp
  have js: "2 ^ k + j < length tab \<and> 2 ^ k + j \<notin> set ?js" if "j \<in> set ?js" for j
    using that Suc.prems(2) size by auto
  have dist: "distinct ?js" by simp
  have "?tab ! m = ?f m" if m: "m < 2 ^ Suc k" for m
  proof (cases "m < 2 ^ k")
    case True
    then have "\<not> (\<exists>j \<in> set ?js. m = 2 ^ k + j)" by auto
    then show ?thesis using True size Suc.prems(2,4) by (subst table_row_nth(2) [OF js dist]) simp_all
  next
    case False
    then obtain j where j: "m = 2 ^ k + j" "j < 2 ^ k" using m by (auto dest!: le_Suc_ex simp: not_less)
    then have "?tab ! m = ?crc XOR tab ! j"
      using size Suc.prems(2) by (subst table_row_nth(2) [OF js dist]) auto
    also have "\<dots> = (be_step CRCPOLY_BE ^^ 8) (push_bit 24 (2 ^ k)) XOR ?f j"
      using j Suc.prems(1,4) by (simp only: be_steps_pow crc)
    also have "\<dots> = (be_step CRCPOLY_BE ^^ 8) (push_bit 24 (2 ^ k XOR word_of_nat j))"
      by (simp only: push_bit_xor be_steps_xor)
    also have "2 ^ k XOR word_of_nat j = (word_of_nat m :: u32)"
      using j Suc.prems(1) by (simp only: word_of_nat_pow_xor) (simp add: word_of_nat_pow_xor [symmetric])
    finally show ?thesis .
  qed
  then have "init_be_rows ?crc (map (\<lambda>k. 2 ^ k) [Suc k..<8]) ?tab = be_table CRCPOLY_BE"
    using Suc.prems(1,2) crc table_row_nth(1) [OF js dist] by (intro Suc.IH) simp_all
  moreover have "[k..<8] = k # [Suc k..<8]" using Suc.prems(1) by (simp add: upt_conv_Cons)
  ultimately show ?case by (simp add: Let_def)
qed

lemma table0_be_correct: "table0_be = be_table CRCPOLY_BE"
proof -
  have "[1, 2, 4, 8, 16, 32, 64, 128 :: nat] = map (\<lambda>k. 2 ^ k) [0..<8]" by code_simp
  then have "table0_be = init_be_rows 0x80000000 (map (\<lambda>k. 2 ^ k) [0..<8]) (replicate 256 0)"
    by (simp only: table0_be_def)
  also have "\<dots> = be_table CRCPOLY_BE"
  proof (rule init_be_rows_correct)
    fix m :: nat
    assume "m < 2 ^ 0"
    then show "replicate 256 0 ! m = (be_step CRCPOLY_BE ^^ 8) (push_bit 24 (word_of_nat m))"
      using be_steps_shift [of 8 "0 :: u32" CRCPOLY_BE] by simp
  qed simp_all
  finally show ?thesis .
qed

interpretation crc32_le: reflected_crc CRCPOLY_LE table0_le
  by unfold_locales (simp_all add: table0_le_correct)

interpretation crc32_be: forward_crc CRCPOLY_BE table0_be
  by unfold_locales (simp_all add: table0_be_correct)

lemma next_le_steps: "next_le c = (le_step CRCPOLY_LE ^^ 8) c"
  by (simp add: next_le_def crc32_le.steps_by_table xor.commute)

lemma drop24_ff: "drop_bit 24 c AND 0xff = (drop_bit 24 c :: u32)"
  by (rule bit_word_eqI) (auto simp: ff_mask bit_simps dest: bit_imp_le_length)

lemma next_be_steps: "next_be c = (be_step CRCPOLY_BE ^^ 8) c"
  by (simp add: next_be_def crc32_be.steps_by_table xor.commute drop24_ff)

lemma crc32table_le_nth:
  assumes "j < 4" and "i < 256"
  shows "crc32table_le ! j ! i = (le_step CRCPOLY_LE ^^ (8 * Suc j)) (word_of_nat i)"
proof -
  have "(next_le ^^ j) x = (le_step CRCPOLY_LE ^^ (8 * j)) x" for x
    by (induction j) (simp_all only: funpow.simps comp_apply id_apply next_le_steps mult_Suc_right funpow_add mult_0_right)
  then show ?thesis using assms
    by (simp add: crc32table_le_def table0_le_correct le_table_def)
       (simp only: funpow_add [THEN fun_cong, unfolded comp_apply, symmetric] add.commute)
qed

lemma crc32table_be_nth:
  assumes "j < 4" and "i < 256"
  shows "crc32table_be ! j ! i = (be_step CRCPOLY_BE ^^ (8 * Suc j)) (push_bit 24 (word_of_nat i))"
proof -
  have "(next_be ^^ j) x = (be_step CRCPOLY_BE ^^ (8 * j)) x" for x
    by (induction j) (simp_all only: funpow.simps comp_apply id_apply next_be_steps mult_Suc_right funpow_add mult_0_right)
  then show ?thesis using assms
    by (simp add: crc32table_be_def table0_be_correct be_table_def)
       (simp only: funpow_add [THEN fun_cong, unfolded comp_apply, symmetric] add.commute)
qed

section \<open>Four bytes at a time\<close>

lemma load_le32_pack: "load_le32 b0 b1 b2 b3 = le_pack [b0, b1, b2, b3]"
proof (rule bit_word_eqI)
  fix n
  show "bit (load_le32 b0 b1 b2 b3) n = bit (le_pack [b0, b1, b2, b3] :: u32) n"
    by (cases n rule: byte_cases) (simp_all add: load_le32_def bit_simps bit_byte)
qed

lemma load_le32_swab: "load_le32 b0 b1 b2 b3 = swab32 (be_pack [b0, b1, b2, b3])"
proof (rule bit_word_eqI)
  fix n
  show "bit (load_le32 b0 b1 b2 b3) n = bit (swab32 (be_pack [b0, b1, b2, b3])) n"
    by (cases n rule: byte_cases) (auto simp: load_le32_def swab32_bit bit_simps bit_byte)
qed

lemma word_of_unat: "word_of_nat (unat x) = (x :: u32)"
  by simp

lemma le_steps_byte:
  assumes "k = 8 * i" and "i < 4"
  shows "(le_step CRCPOLY_LE ^^ 32) (push_bit k (c AND 0xff)) = crc32table_le ! (3 - i) ! unat (c AND 0xff)"
proof -
  have "(le_step CRCPOLY_LE ^^ k) (push_bit k (c AND 0xff)) = drop_bit k (push_bit k (c AND 0xff))"
    by (rule le_steps_shift, rule bit_word_eqI) (auto simp: bit_simps)
  also have "\<dots> = c AND 0xff"
    using assms by (intro bit_word_eqI) (auto simp: bit_simps swab_masks dest: bit_imp_le_length)
  finally have shifted: "(le_step CRCPOLY_LE ^^ k) (push_bit k (c AND 0xff)) = c AND 0xff" .
  have "32 = 8 * Suc (3 - i) + k" using assms by simp
  then have "(le_step CRCPOLY_LE ^^ 32) (push_bit k (c AND 0xff)) = (le_step CRCPOLY_LE ^^ (8 * Suc (3 - i))) (c AND 0xff)"
    by (simp only: funpow_add comp_apply shifted)
  then show ?thesis
    using assms unat_and_ff [of c] by (simp only: crc32table_le_nth word_of_unat)
qed

lemma be_steps_byte:
  assumes "k = 8 * i" and "i < 4"
  shows "(be_step CRCPOLY_BE ^^ 32) (push_bit k (c AND 0xff)) = crc32table_be ! i ! unat (c AND 0xff)"
proof -
  have "(be_step CRCPOLY_BE ^^ (24 - k)) (push_bit k (c AND 0xff)) = push_bit (24 - k) (push_bit k (c AND 0xff))"
    using assms by (intro be_steps_shift bit_word_eqI) (auto simp: bit_simps swab_masks)
  also have "\<dots> = push_bit 24 (c AND 0xff)" using assms by simp
  finally have shifted: "(be_step CRCPOLY_BE ^^ (24 - k)) (push_bit k (c AND 0xff)) = push_bit 24 (c AND 0xff)" .
  have "32 = 8 * Suc i + (24 - k)" using assms by simp
  then have "(be_step CRCPOLY_BE ^^ 32) (push_bit k (c AND 0xff)) =
      (be_step CRCPOLY_BE ^^ (8 * Suc i)) (push_bit 24 (c AND 0xff))"
    by (simp only: funpow_add comp_apply shifted)
  then show ?thesis
    using assms unat_and_ff [of c] by (simp only: crc32table_be_nth word_of_unat)
qed

lemma DO_CRC4_le: "DO_CRC4 crc32table_le c = (le_step CRCPOLY_LE ^^ 32) c"
proof -
  have "(le_step CRCPOLY_LE ^^ 32) c = (le_step CRCPOLY_LE ^^ 32) (push_bit 0 (c AND 0xff) XOR
      push_bit 8 (drop_bit 8 c AND 0xff) XOR push_bit 16 (drop_bit 16 c AND 0xff) XOR
      push_bit 24 (drop_bit 24 c AND 0xff))"
    using bytes_split [of c] by simp
  also have "\<dots> = DO_CRC4 crc32table_le c"
    using le_steps_byte [of 0 0] le_steps_byte [of 8 1] le_steps_byte [of 16 2] le_steps_byte [of 24 3]
    by (simp add: le_steps_xor DO_CRC4_def)
  finally show ?thesis by simp
qed

lemma swab_table_nth: "j < 4 \<Longrightarrow> map (map swab32) crc32table_be ! j ! unat (c AND 0xff) =
    swab32 (crc32table_be ! j ! unat (c AND 0xff :: u32))"
  using unat_and_ff [of c] by (simp add: crc32table_be_def)

lemma DO_CRC4_be: "DO_CRC4 (map (map swab32) crc32table_be) (swab32 c) = swab32 ((be_step CRCPOLY_BE ^^ 32) c)"
proof -
  have "(be_step CRCPOLY_BE ^^ 32) c = (be_step CRCPOLY_BE ^^ 32) (push_bit 0 (c AND 0xff) XOR
      push_bit 8 (drop_bit 8 c AND 0xff) XOR push_bit 16 (drop_bit 16 c AND 0xff) XOR
      push_bit 24 (drop_bit 24 c AND 0xff))"
    using bytes_split [of c] by simp
  also have "\<dots> = crc32table_be ! 0 ! unat (c AND 0xff) XOR crc32table_be ! 1 ! unat (drop_bit 8 c AND 0xff) XOR
      crc32table_be ! 2 ! unat (drop_bit 16 c AND 0xff) XOR crc32table_be ! 3 ! unat (drop_bit 24 c AND 0xff)"
    using be_steps_byte [of 0 0] be_steps_byte [of 8 1] be_steps_byte [of 16 2] be_steps_byte [of 24 3]
    by (simp add: be_steps_xor)
  finally show ?thesis
    unfolding DO_CRC4_def swab32_bytes by (simp add: swab_table_nth swab32_xor ac_simps)
qed

lemma table_heads: "crc32table_le ! 0 = table0_le" "crc32table_be ! 0 = table0_be"
  by (simp_all add: crc32table_le_def crc32table_be_def table0_le_correct table0_be_correct le_table_def be_table_def)

lemma DO_CRC_le: "DO_CRC crc32table_le c b = le_byte CRCPOLY_LE c b"
  by (simp add: DO_CRC_def table_heads crc32_le.byte_by_table xor.commute)

lemma DO_CRC_be: "DO_CRC (map (map swab32) crc32table_be) (swab32 c) b = swab32 (be_byte CRCPOLY_BE c b)"
proof -
  have "(swab32 c XOR ucast b) AND 0xff = (drop_bit 24 c XOR ucast b) AND 0xff"
    using swab32_bytes(1) [of c] by (simp add: and.commute [of _ "255 :: u32"] bit.conj_xor_distrib)
  then show ?thesis
    using swab_table_nth [of 0] table_heads
    by (simp add: DO_CRC_def swab32_shift crc32_be.byte_by_table swab32_xor xor.commute)
qed

section \<open>Equality with the bitwise routines\<close>

text \<open>What the body needs of its tables: \<open>rep\<close> is how the remainder is held in the register.\<close>

locale crc32_tables =
  fixes tab :: "u32 list list" and rep :: "u32 \<Rightarrow> u32" and byte :: "u32 \<Rightarrow> u8 \<Rightarrow> u32"
  assumes one: "DO_CRC tab (rep c) b = rep (byte c b)"
    and four: "DO_CRC4 tab (rep c XOR load_le32 b0 b1 b2 b3) = rep (byte (byte (byte (byte c b0) b1) b2) b3)"
begin

lemma align: "\<exists>ds es. bs = ds @ es \<and> crc_align tab addr (rep c) bs = (rep (foldl byte c ds), es)"
proof (induction bs arbitrary: addr c)
  case (Cons b bs)
  obtain ds es where "bs = ds @ es" "crc_align tab (addr + 1) (rep (byte c b)) bs = (rep (foldl byte (byte c b) ds), es)"
    using Cons.IH by blast
  then have "addr AND 3 \<noteq> 0 \<longrightarrow> b # bs = (b # ds) @ es \<and>
      crc_align tab addr (rep c) (b # bs) = (rep (foldl byte c (b # ds)), es)"
    by (simp add: one)
  moreover have "addr AND 3 = 0 \<longrightarrow> b # bs = [] @ (b # bs) \<and>
      crc_align tab addr (rep c) (b # bs) = (rep (foldl byte c []), b # bs)" by simp
  ultimately show ?case by blast
qed simp

lemma crc_words_fold: "\<exists>ds es. bs = ds @ es \<and> crc_words tab (rep c) bs = (rep (foldl byte c ds), es)"
proof (induction "length bs" arbitrary: bs c rule: less_induct)
  case less
  show ?case
  proof (cases "\<exists>b0 b1 b2 b3 cs. bs = b0 # b1 # b2 # b3 # cs")
    case True
    then obtain b0 b1 b2 b3 cs where bs: "bs = b0 # b1 # b2 # b3 # cs" by blast
    have "length cs < length bs" by (simp add: bs)
    from less [OF this, of "foldl byte c [b0, b1, b2, b3]"] obtain ds es where "cs = ds @ es"
      "crc_words tab (rep (foldl byte c [b0, b1, b2, b3])) cs =
        (rep (foldl byte (foldl byte c [b0, b1, b2, b3]) ds), es)" by blast
    then have "bs = (b0 # b1 # b2 # b3 # ds) @ es \<and>
        crc_words tab (rep c) bs = (rep (foldl byte c (b0 # b1 # b2 # b3 # ds)), es)"
      by (simp add: bs four)
    then show ?thesis by blast
  next
    case False
    then have "bs = [] @ bs \<and> crc_words tab (rep c) bs = (rep (foldl byte c []), bs)"
      by (cases "(tab, rep c, bs)" rule: crc_words.cases) auto
    then show ?thesis by blast
  qed
qed

lemma rest: "crc_rest tab (rep c) bs = rep (foldl byte c bs)"
  by (induction bs arbitrary: c) (simp_all add: one)

lemma body: "crc32_body addr (rep c) bs tab = rep (foldl byte c bs)"
proof -
  obtain ds es where 1: "bs = ds @ es" "crc_align tab addr (rep c) bs = (rep (foldl byte c ds), es)"
    using align by blast
  obtain fs gs where 2: "es = fs @ gs" "crc_words tab (rep (foldl byte c ds)) es = (rep (foldl byte (foldl byte c ds) fs), gs)"
    using crc_words_fold by blast
  have "crc32_body addr (rep c) bs tab = rep (foldl byte (foldl byte (foldl byte c ds) fs) gs)"
    by (simp only: crc32_body_def 1(2) 2(2) prod.case rest)
  then show ?thesis by (simp add: 1(1) 2(1))
qed

end

lemma le_crc_four: "DO_CRC4 crc32table_le (c XOR load_le32 b0 b1 b2 b3) = le_crc CRCPOLY_LE c [b0, b1, b2, b3]"
  using le_crc_pack [of "[b0, b1, b2, b3]" CRCPOLY_LE c] by (simp only: DO_CRC4_le load_le32_pack) simp

lemma be_crc_four: "DO_CRC4 (map (map swab32) crc32table_be) (swab32 c XOR load_le32 b0 b1 b2 b3) =
    swab32 (be_crc CRCPOLY_BE c [b0, b1, b2, b3])"
  using be_crc_pack [of "[b0, b1, b2, b3]" CRCPOLY_BE c]
  by (simp only: swab32_xor [symmetric] DO_CRC4_be load_le32_swab) simp

interpretation le32: crc32_tables crc32table_le "\<lambda>c. c" "le_byte CRCPOLY_LE"
  by unfold_locales (simp_all add: DO_CRC_le le_crc_four le_crc_def)

interpretation be32: crc32_tables "map (map swab32) crc32table_be" swab32 "be_byte CRCPOLY_BE"
  by unfold_locales (simp_all add: DO_CRC_be be_crc_four be_crc_def)

lemma crc32_le_eq: "crc32_le addr crc p = le_crc CRCPOLY_LE crc p"
  by (simp add: crc32_le_def le32.body le_crc_def)

lemma crc32_be_eq: "crc32_be addr crc p = be_crc CRCPOLY_BE crc p"
  by (simp add: crc32_be_def be32.body be_crc_def swab32_swab32)

lemma crc32_le_bits_eq: "crc32_le_bits crc p = le_crc CRCPOLY_LE crc p"
  by (induction crc p rule: crc32_le_bits.induct) (simp_all add: le_crc_def le_byte_def crc_le_bit_step)

lemma crc32_be_bits_eq: "crc32_be_bits crc p = be_crc CRCPOLY_BE crc p"
  by (induction crc p rule: crc32_be_bits.induct) (simp_all add: be_crc_def be_byte_def crc_be_bit_step)

text \<open>C10. The CRC-32 routines with the generated tables, which consume aligned words four bytes at a
  time, return what the one-bit-at-a-time routines of the same file return, for every buffer,
  start value and alignment of the buffer; the big-endian one although it works on swapped
  words and tables.\<close>

theorem crc32_equals_bitwise:
  "crc32_le addr crc p = crc32_le_bits crc p \<and> crc32_be addr crc p = crc32_be_bits crc p"
  by (simp add: crc32_le_eq crc32_be_eq crc32_le_bits_eq crc32_be_bits_eq)

text \<open>C31. CRC-32 in both bit orders detects every error burst of up to four adjacent bytes, and the
  little-endian check of a message can be computed in pieces: the check of a concatenation continues from the check of its
  first part, wherever the parts are stored.\<close>

theorem crc32_detects_bursts:
  assumes "length x = length y" and "length x \<le> 4" and "x \<noteq> y"
  shows "crc32_le addr crc (u @ x @ v) \<noteq> crc32_le addr' crc (u @ y @ v) \<and>
    crc32_be addr crc (u @ x @ v) \<noteq> crc32_be addr' crc (u @ y @ v) \<and>
    crc32_le addr crc (u @ v) = crc32_le addr1 (crc32_le addr2 crc u) v"
proof -
  have poly: "bit CRCPOLY_LE (LENGTH(32) - 1)" "bit CRCPOLY_BE 0"
    by (simp_all add: CRCPOLY_LE_def CRCPOLY_BE_def bit_numeral_rec)
  have "le_crc CRCPOLY_LE crc (u @ x @ v) \<noteq> le_crc CRCPOLY_LE crc (u @ y @ v)"
    using assms poly by (intro le_crc_burst) simp_all
  moreover have "be_crc CRCPOLY_BE crc (u @ x @ v) \<noteq> be_crc CRCPOLY_BE crc (u @ y @ v)"
    using assms poly by (intro be_crc_burst) simp_all
  ultimately show ?thesis by (simp only: crc32_le_eq crc32_be_eq) (simp add: le_crc_def)
qed

theorem crc32_detects_bursts_witness:
  "crc32_le 1 0xffffffff ([7] @ [1, 2, 3, 4] @ [9]) \<noteq> crc32_le 2 0xffffffff ([7] @ [3, 0, 3, 5] @ [9])"
  using crc32_detects_bursts [of "[1, 2, 3, 4]" "[3, 0, 3, 5]" 1 "0xffffffff" "[7]" "[9]" 2 1 1] by simp

end
