(* ===== verification/Crypto_Modes.thy ===== *)
theory Crypto_Modes
  imports Byteorder
begin

text \<open>
  Block cipher modes: the byte-string helpers of \<^verbatim>\<open>crypto/algapi.c\<close>, the walk over scattered data
  of \<^verbatim>\<open>crypto/blkcipher.c\<close>, and the ECB, CBC, PCBC and CTR modes of \<^verbatim>\<open>crypto/ecb.c\<close>,
  \<^verbatim>\<open>cbc.c\<close>, \<^verbatim>\<open>pcbc.c\<close> and \<^verbatim>\<open>ctr.c\<close>.  The cipher is the function pointer \<open>fn\<close> the code passes
  around; the layout of the scatter lists, which decides how many bytes are contiguous at a
  point and whether source and destination coincide there, is a parameter.
\<close>

section \<open>Byte strings\<close>

fun crypto_xor_byte :: "u8 list \<Rightarrow> u8 list \<Rightarrow> nat \<Rightarrow> u8 list" where
  "crypto_xor_byte (a # as) (b # bs) (Suc n) = (a XOR b) # crypto_xor_byte as bs n"
| "crypto_xor_byte as bs n = as"

text \<open>The result is the new content of \<open>dst\<close>; bytes beyond \<open>size\<close> stay.\<close>

fun crypto_xor :: "u8 list \<Rightarrow> u8 list \<Rightarrow> nat \<Rightarrow> u8 list" where
  "crypto_xor (a0 # a1 # a2 # a3 # as) (b0 # b1 # b2 # b3 # bs) (Suc (Suc (Suc (Suc n)))) =
     store_le32 (load_le32 a0 a1 a2 a3 XOR load_le32 b0 b1 b2 b3) @ crypto_xor as bs n"
| "crypto_xor as bs n = crypto_xor_byte as bs n"

fun crypto_inc_byte :: "u8 list \<Rightarrow> nat \<Rightarrow> u8 list" where
  "crypto_inc_byte a 0 = a"
| "crypto_inc_byte a (Suc n) =
     (let c = a ! n + 1; a = a[n := c] in if c \<noteq> 0 then a else crypto_inc_byte a n)"

fun crypto_inc :: "u8 list \<Rightarrow> nat \<Rightarrow> u8 list" where
  "crypto_inc a (Suc (Suc (Suc (Suc n)))) =
     (let c = load_be32 (a ! n) (a ! (n + 1)) (a ! (n + 2)) (a ! (n + 3)) + 1;
          a = take n a @ store_be32 c @ drop (n + 4) a
      in if c \<noteq> 0 then a else crypto_inc a n)"
| "crypto_inc a n = crypto_inc_byte a n"

text \<open>Reading and overwriting a block inside a buffer.\<close>

definition rd :: "u8 list \<Rightarrow> nat \<Rightarrow> nat \<Rightarrow> u8 list" where
  "rd buf p n = take n (drop p buf)"

definition wr :: "u8 list \<Rightarrow> nat \<Rightarrow> u8 list \<Rightarrow> u8 list" where
  "wr buf p d = take p buf @ d @ drop (p + length d) buf"

section \<open>The walk\<close>

text \<open>What the walk finds at the point where a number of bytes remain: how many are contiguous in both
  scatter lists, whether source and destination are the same memory, whether both are aligned;
  whether the allocations it may need succeed (each is tried at most once after it has succeeded, and a walk stops where
  one fails); and whether it runs in an interrupt.\<close>

record walk_mem =
  contig :: "nat \<Rightarrow> nat"
  same_buf :: "nat \<Rightarrow> bool"
  aligned_at :: "nat \<Rightarrow> bool"
  page_ok :: bool
  buf_ok :: bool
  iv_aligned :: bool
  iv_buf_ok :: bool
  in_irq :: bool

text \<open>The structure on the caller's stack.  \<open>w_nbytes\<close> and \<open>w_same\<close> (the addresses \<^verbatim>\<open>src.virt.addr\<close> and \<^verbatim>\<open>dst.virt.addr\<close>, of
  which only matters whether they are equal) are \<open>None\<close> until they are set; \<open>w_buffer\<close> and \<open>w_page\<close> say whether there is a
  buffer and a page, \<open>w_iv_copied\<close> whether \<^verbatim>\<open>walk->iv\<close> is a copy of \<^verbatim>\<open>desc->info\<close>, and \<open>w_released\<close> whether the walk has
  been finished: the copy written back and the memory freed.\<close>

record blkcipher_walk =
  w_nbytes :: "nat option"
  w_same :: "bool option"
  w_slow :: bool
  w_buffer :: bool
  w_page :: bool
  w_iv_copied :: bool
  w_released :: bool

definition blkcipher_walk_init :: blkcipher_walk where
  "blkcipher_walk_init = \<lparr>w_nbytes = None, w_same = None, w_slow = False, w_buffer = False, w_page = False,
     w_iv_copied = False, w_released = False\<rparr>"

text \<open>The last lines of \<^verbatim>\<open>blkcipher_walk_done\<close>, when no bytes remain or an error ends the walk.\<close>

definition blkcipher_walk_end :: "unit kres \<Rightarrow> blkcipher_walk \<Rightarrow> unit kres \<times> blkcipher_walk" where
  "blkcipher_walk_end err walk = (err, walk\<lparr>w_nbytes := Some 0, w_released := True\<rparr>)"

definition blkcipher_next_slow :: "walk_mem \<Rightarrow> nat \<Rightarrow> blkcipher_walk \<Rightarrow> unit kres \<times> blkcipher_walk" where
  "blkcipher_next_slow m bsize walk =
     (if w_buffer walk \<or> w_page walk \<or> buf_ok m
      then (Inr (), walk\<lparr>w_buffer := True, w_same := Some False, w_nbytes := Some bsize, w_slow := True\<rparr>)
      else blkcipher_walk_end (Inl ENOMEM) walk)"

text \<open>What \<^verbatim>\<open>blkcipher_walk_next\<close> maps: an error for less than a block of the algorithm, one block
  copied through a bounce buffer where the contiguous part is too short, the contiguous part
  copied through a page (so source and destination coincide) where it is not aligned, and else
  the contiguous part itself.  Without a page for unaligned data \<^verbatim>\<open>n\<close> is set to 0.\<close>

definition blkcipher_walk_next :: "nat \<Rightarrow> nat \<Rightarrow> walk_mem \<Rightarrow> nat \<Rightarrow> blkcipher_walk \<Rightarrow> unit kres \<times> blkcipher_walk" where
  "blkcipher_walk_next alg_bsize walk_bsize m tot walk =
     (if tot < alg_bsize then blkcipher_walk_end (Inl EINVAL) walk
      else let copy = \<not> aligned_at m tot;
               walk = walk\<lparr>w_slow := False, w_page := w_page walk \<or> copy \<and> page_ok m\<rparr>;
               n = (if copy \<and> \<not> w_page walk then 0 else tot);
               bsize = min walk_bsize n;
               n = min n (contig m tot) in
        if n < bsize then blkcipher_next_slow m bsize walk
        else (Inr (), walk\<lparr>w_nbytes := Some n, w_same := Some (copy \<or> same_buf m tot)\<rparr>))"

definition blkcipher_walk_rest :: "nat \<Rightarrow> nat \<Rightarrow> walk_mem \<Rightarrow> nat \<Rightarrow> blkcipher_walk \<Rightarrow> unit kres \<times> blkcipher_walk" where
  "blkcipher_walk_rest alg_bsize walk_bsize m nbytes walk =
     (if nbytes \<noteq> 0 then blkcipher_walk_next alg_bsize walk_bsize m nbytes walk else blkcipher_walk_end (Inr ()) walk)"

text \<open>\<^verbatim>\<open>blkcipher_walk_done\<close> is told how many of the mapped bytes (\<open>mapped\<close>, the value of \<^verbatim>\<open>walk->nbytes\<close>) were not processed.\<close>

definition blkcipher_walk_done :: "nat \<Rightarrow> nat \<Rightarrow> walk_mem \<Rightarrow> nat \<Rightarrow> blkcipher_walk \<Rightarrow> nat \<Rightarrow> nat \<Rightarrow> unit kres \<times> blkcipher_walk" where
  "blkcipher_walk_done alg_bsize walk_bsize m tot walk mapped err =
     (if w_slow walk \<and> err \<noteq> 0 then blkcipher_walk_end (Inl EINVAL) walk
      else blkcipher_walk_rest alg_bsize walk_bsize m (tot - (mapped - err)) walk)"

text \<open>An initial vector that is not aligned is copied; when that fails, the byte count has already been set.\<close>

definition blkcipher_walk_first :: "nat \<Rightarrow> nat \<Rightarrow> walk_mem \<Rightarrow> nat \<Rightarrow> unit kres \<times> blkcipher_walk" where
  "blkcipher_walk_first alg_bsize walk_bsize m tot =
     (if in_irq m then (Inl EDEADLK, blkcipher_walk_init)
      else let walk = blkcipher_walk_init\<lparr>w_nbytes := Some tot\<rparr> in
        if tot = 0 then (Inr (), walk)
        else if iv_aligned m then blkcipher_walk_next alg_bsize walk_bsize m tot walk
        else if \<not> iv_buf_ok m then (Inl ENOMEM, walk)
        else blkcipher_walk_next alg_bsize walk_bsize m tot (walk\<lparr>w_buffer := True, w_iv_copied := True\<rparr>))"

definition blkcipher_walk_virt :: "nat \<Rightarrow> walk_mem \<Rightarrow> nat \<Rightarrow> unit kres \<times> blkcipher_walk" where
  "blkcipher_walk_virt bsize m tot = blkcipher_walk_first bsize bsize m tot"

definition blkcipher_walk_virt_block :: "nat \<Rightarrow> nat \<Rightarrow> walk_mem \<Rightarrow> nat \<Rightarrow> unit kres \<times> blkcipher_walk" where
  "blkcipher_walk_virt_block alg_bsize bsize m tot = blkcipher_walk_first alg_bsize bsize m tot"

text \<open>The loop every mode has around the walk: as long as bytes are mapped, process their whole blocks, and let
  \<^verbatim>\<open>blkcipher_walk_done\<close> advance by what was processed.  \<open>crypt\<close> returns the bytes written, the new
  chaining value and the number of unprocessed bytes.  The result is the error, the bytes written, \<^verbatim>\<open>walk->iv\<close> and the walk;
  reading a field that was never set is undefined (\<open>None\<close>), as is a loop that does not return.\<close>

type_synonym 'st crypt_fn = "bool \<Rightarrow> u8 list \<Rightarrow> 'st \<Rightarrow> u8 list \<times> 'st \<times> nat"

partial_function (option) walk_loop ::
  "walk_mem \<Rightarrow> 'st crypt_fn \<Rightarrow> nat \<Rightarrow> u8 list \<Rightarrow> 'st \<Rightarrow> unit kres \<times> blkcipher_walk \<Rightarrow> (unit kres \<times> u8 list \<times> 'st \<times> blkcipher_walk) option"
where
  "walk_loop m crypt bsize src st ew =
     (case ew of (err, walk) \<Rightarrow>
        (case w_nbytes walk of
           None \<Rightarrow> None
         | Some nbytes \<Rightarrow>
             if nbytes = 0 then Some (err, [], st, walk)
             else (case w_same walk of
                None \<Rightarrow> None
              | Some same \<Rightarrow>
                  (case crypt same (take nbytes src) st of (out, st, left) \<Rightarrow>
                     Option.bind (walk_loop m crypt bsize (drop (nbytes - left) src) st
                         (blkcipher_walk_done bsize bsize m (length src) walk nbytes left))
                       (\<lambda>(err, outs, st, walk). Some (err, out @ outs, st, walk))))))"

text \<open>What the caller has when a mode returns: the error, the bytes written, and \<^verbatim>\<open>desc->info\<close>, which a walk that worked on
  a copy changes only when it is finished.\<close>

definition desc_info :: "'st \<Rightarrow> unit kres \<times> u8 list \<times> 'st \<times> blkcipher_walk \<Rightarrow> unit kres \<times> u8 list \<times> 'st" where
  "desc_info iv = (\<lambda>(err, out, st, walk). (err, out, if w_iv_copied walk \<and> \<not> w_released walk then iv else st))"

section \<open>ECB\<close>

function ecb_crypt_loop :: "(u8 list \<Rightarrow> u8 list) \<Rightarrow> nat \<Rightarrow> nat \<Rightarrow> u8 list \<Rightarrow> u8 list \<times> nat" where
  "ecb_crypt_loop fn bsize nbytes wsrc =
     (let d = fn (take bsize wsrc); nbytes' = nbytes - bsize in
      if bsize \<le> nbytes' \<and> 0 < bsize then
        (case ecb_crypt_loop fn bsize nbytes' (drop bsize wsrc) of (ds, left) \<Rightarrow> (d @ ds, left))
      else (d, nbytes'))"
  by pat_completeness auto
termination by (relation "measure (\<lambda>(fn, bsize, nbytes, wsrc). nbytes)") auto

declare ecb_crypt_loop.simps [simp del]

definition crypto_ecb_crypt :: "(u8 list \<Rightarrow> u8 list) \<Rightarrow> nat \<Rightarrow> walk_mem \<Rightarrow> u8 list \<Rightarrow> (unit kres \<times> u8 list) option" where
  "crypto_ecb_crypt fn bsize layout src =
     map_option (\<lambda>(err, out, st, walk). (err, out)) (walk_loop layout
         (\<lambda>same part st. case ecb_crypt_loop fn bsize (length part) part of (out, left) \<Rightarrow> (out, st, left))
         bsize src () (blkcipher_walk_virt bsize layout (length src)))"

section \<open>CBC\<close>

function cbc_encrypt_segment :: "(u8 list \<Rightarrow> u8 list) \<Rightarrow> nat \<Rightarrow> nat \<Rightarrow> u8 list \<Rightarrow> u8 list \<Rightarrow> u8 list \<times> u8 list \<times> nat" where
  "cbc_encrypt_segment fn bsize nbytes src iv =
     (let iv = crypto_xor iv src bsize; d = fn iv; iv = d; nbytes' = nbytes - bsize in
      if bsize \<le> nbytes' \<and> 0 < bsize then
        (case cbc_encrypt_segment fn bsize nbytes' (drop bsize src) iv of (ds, iv, left) \<Rightarrow> (d @ ds, iv, left))
      else (d, iv, nbytes'))"
  by pat_completeness auto
termination by (relation "measure (\<lambda>(fn, bsize, nbytes, src, iv). nbytes)") auto

text \<open>In place the chaining value is a pointer: to the walk's own block at first, then to the
  block of the buffer encrypted last.\<close>

datatype iv_ptr = Walk_iv | In_buf nat

fun iv_read :: "u8 list \<Rightarrow> u8 list \<Rightarrow> nat \<Rightarrow> iv_ptr \<Rightarrow> u8 list" where
  "iv_read walk_iv buf bsize Walk_iv = walk_iv"
| "iv_read walk_iv buf bsize (In_buf p) = rd buf p bsize"

function cbc_encrypt_inplace_loop :: "(u8 list \<Rightarrow> u8 list) \<Rightarrow> nat \<Rightarrow> u8 list \<Rightarrow> nat \<Rightarrow> u8 list \<Rightarrow> nat \<Rightarrow> iv_ptr \<Rightarrow> u8 list \<times> iv_ptr \<times> nat" where
  "cbc_encrypt_inplace_loop fn bsize walk_iv nbytes buf src iv =
     (let buf = wr buf src (crypto_xor (rd buf src bsize) (iv_read walk_iv buf bsize iv) bsize);
          buf = wr buf src (fn (rd buf src bsize));
          iv = In_buf src; nbytes' = nbytes - bsize in
      if bsize \<le> nbytes' \<and> 0 < bsize then cbc_encrypt_inplace_loop fn bsize walk_iv nbytes' buf (src + bsize) iv
      else (buf, iv, nbytes'))"
  by pat_completeness auto
termination by (relation "measure (\<lambda>(fn, bsize, walk_iv, nbytes, buf, src, iv). nbytes)") auto

definition cbc_encrypt_inplace :: "(u8 list \<Rightarrow> u8 list) \<Rightarrow> nat \<Rightarrow> u8 list \<Rightarrow> u8 list \<Rightarrow> u8 list \<times> u8 list \<times> nat" where
  "cbc_encrypt_inplace fn bsize buf walk_iv =
     (case cbc_encrypt_inplace_loop fn bsize walk_iv (length buf) buf 0 Walk_iv of (buf, iv, left) \<Rightarrow>
        (take (length buf - left) buf, iv_read walk_iv buf bsize iv, left))"

definition crypto_cbc_encrypt :: "(u8 list \<Rightarrow> u8 list) \<Rightarrow> nat \<Rightarrow> walk_mem \<Rightarrow> u8 list \<Rightarrow> u8 list \<Rightarrow> (unit kres \<times> u8 list \<times> u8 list) option" where
  "crypto_cbc_encrypt fn bsize layout src iv =
     map_option (desc_info iv) (walk_loop layout (\<lambda>same part iv. if same then cbc_encrypt_inplace fn bsize part iv
       else cbc_encrypt_segment fn bsize (length part) part iv) bsize src iv (blkcipher_walk_virt bsize layout (length src)))"

text \<open>Decryption of a segment keeps a pointer into the source; it is not overwritten, so the value
  read at the end is that of the last block.\<close>

function cbc_decrypt_segment :: "(u8 list \<Rightarrow> u8 list) \<Rightarrow> nat \<Rightarrow> nat \<Rightarrow> u8 list \<Rightarrow> u8 list \<Rightarrow> u8 list \<times> u8 list \<times> nat" where
  "cbc_decrypt_segment fn bsize nbytes src iv =
     (let d = crypto_xor (fn (take bsize src)) iv bsize; iv = take bsize src; nbytes' = nbytes - bsize in
      if bsize \<le> nbytes' \<and> 0 < bsize then
        (case cbc_decrypt_segment fn bsize nbytes' (drop bsize src) iv of (ds, iv, left) \<Rightarrow> (d @ ds, iv, left))
      else (d, iv, nbytes'))"
  by pat_completeness auto
termination by (relation "measure (\<lambda>(fn, bsize, nbytes, src, iv). nbytes)") auto

text \<open>In place it runs backwards from the last block, so that the previous ciphertext is still there.\<close>

function cbc_decrypt_inplace_loop :: "(u8 list \<Rightarrow> u8 list) \<Rightarrow> nat \<Rightarrow> nat \<Rightarrow> u8 list \<Rightarrow> nat \<Rightarrow> u8 list \<times> nat \<times> nat" where
  "cbc_decrypt_inplace_loop fn bsize nbytes buf src =
     (let buf = wr buf src (fn (rd buf src bsize)); nbytes' = nbytes - bsize in
      if nbytes' < bsize \<or> bsize = 0 then (buf, src, nbytes')
      else let buf = wr buf src (crypto_xor (rd buf src bsize) (rd buf (src - bsize) bsize) bsize)
        in cbc_decrypt_inplace_loop fn bsize nbytes' buf (src - bsize))"
  by pat_completeness auto
termination by (relation "measure (\<lambda>(fn, bsize, nbytes, buf, src). nbytes)") auto

definition cbc_decrypt_inplace :: "(u8 list \<Rightarrow> u8 list) \<Rightarrow> nat \<Rightarrow> u8 list \<Rightarrow> u8 list \<Rightarrow> u8 list \<times> u8 list \<times> nat" where
  "cbc_decrypt_inplace fn bsize buf walk_iv =
     (let nbytes = length buf;
          src = nbytes - (nbytes AND (bsize - 1)) - bsize;
          last_iv = rd buf src bsize in
      case cbc_decrypt_inplace_loop fn bsize nbytes buf src of (buf, src, left) \<Rightarrow>
        (let buf = wr buf src (crypto_xor (rd buf src bsize) walk_iv bsize)
         in (take (length buf - left) buf, last_iv, left)))"

definition crypto_cbc_decrypt :: "(u8 list \<Rightarrow> u8 list) \<Rightarrow> nat \<Rightarrow> walk_mem \<Rightarrow> u8 list \<Rightarrow> u8 list \<Rightarrow> (unit kres \<times> u8 list \<times> u8 list) option" where
  "crypto_cbc_decrypt fn bsize layout src iv =
     map_option (desc_info iv) (walk_loop layout (\<lambda>same part iv. if same then cbc_decrypt_inplace fn bsize part iv
       else cbc_decrypt_segment fn bsize (length part) part iv) bsize src iv (blkcipher_walk_virt bsize layout (length src)))"

declare cbc_encrypt_segment.simps [simp del] cbc_encrypt_inplace_loop.simps [simp del]
  cbc_decrypt_segment.simps [simp del] cbc_decrypt_inplace_loop.simps [simp del]

section \<open>PCBC\<close>

function pcbc_encrypt_segment :: "(u8 list \<Rightarrow> u8 list) \<Rightarrow> nat \<Rightarrow> nat \<Rightarrow> u8 list \<Rightarrow> u8 list \<Rightarrow> u8 list \<times> u8 list \<times> nat" where
  "pcbc_encrypt_segment fn bsize nbytes src iv =
     (let iv = crypto_xor iv src bsize; d = fn iv; iv = d; iv = crypto_xor iv src bsize; nbytes' = nbytes - bsize in
      if bsize \<le> nbytes' \<and> 0 < bsize then
        (case pcbc_encrypt_segment fn bsize nbytes' (drop bsize src) iv of (ds, iv, left) \<Rightarrow> (d @ ds, iv, left))
      else (d, iv, nbytes'))"
  by pat_completeness auto
termination by (relation "measure (\<lambda>(fn, bsize, nbytes, src, iv). nbytes)") auto

text \<open>The chaining value in place is the walk's own block throughout.\<close>

function pcbc_encrypt_inplace :: "(u8 list \<Rightarrow> u8 list) \<Rightarrow> nat \<Rightarrow> nat \<Rightarrow> u8 list \<Rightarrow> nat \<Rightarrow> u8 list \<Rightarrow> u8 list \<times> u8 list \<times> nat" where
  "pcbc_encrypt_inplace fn bsize nbytes buf src iv =
     (let tmpbuf = rd buf src bsize;
          iv = crypto_xor iv (rd buf src bsize) bsize;
          buf = wr buf src (fn iv);
          iv = tmpbuf;
          iv = crypto_xor iv (rd buf src bsize) bsize; nbytes' = nbytes - bsize in
      if bsize \<le> nbytes' \<and> 0 < bsize then pcbc_encrypt_inplace fn bsize nbytes' buf (src + bsize) iv
      else (buf, iv, nbytes'))"
  by pat_completeness auto
termination by (relation "measure (\<lambda>(fn, bsize, nbytes, buf, src, iv). nbytes)") auto

function pcbc_decrypt_segment :: "(u8 list \<Rightarrow> u8 list) \<Rightarrow> nat \<Rightarrow> nat \<Rightarrow> u8 list \<Rightarrow> u8 list \<Rightarrow> u8 list \<times> u8 list \<times> nat" where
  "pcbc_decrypt_segment fn bsize nbytes src iv =
     (let d = crypto_xor (fn (take bsize src)) iv bsize; iv = take bsize src;
          iv = crypto_xor iv d bsize; nbytes' = nbytes - bsize in
      if bsize \<le> nbytes' \<and> 0 < bsize then
        (case pcbc_decrypt_segment fn bsize nbytes' (drop bsize src) iv of (ds, iv, left) \<Rightarrow> (d @ ds, iv, left))
      else (d, iv, nbytes'))"
  by pat_completeness auto
termination by (relation "measure (\<lambda>(fn, bsize, nbytes, src, iv). nbytes)") auto

function pcbc_decrypt_inplace :: "(u8 list \<Rightarrow> u8 list) \<Rightarrow> nat \<Rightarrow> nat \<Rightarrow> u8 list \<Rightarrow> nat \<Rightarrow> u8 list \<Rightarrow> u8 list \<times> u8 list \<times> nat" where
  "pcbc_decrypt_inplace fn bsize nbytes buf src iv =
     (let tmpbuf = rd buf src bsize;
          buf = wr buf src (fn (rd buf src bsize));
          buf = wr buf src (crypto_xor (rd buf src bsize) iv bsize);
          iv = tmpbuf;
          iv = crypto_xor iv (rd buf src bsize) bsize; nbytes' = nbytes - bsize in
      if bsize \<le> nbytes' \<and> 0 < bsize then pcbc_decrypt_inplace fn bsize nbytes' buf (src + bsize) iv
      else (buf, iv, nbytes'))"
  by pat_completeness auto
termination by (relation "measure (\<lambda>(fn, bsize, nbytes, buf, src, iv). nbytes)") auto

declare pcbc_encrypt_segment.simps [simp del] pcbc_encrypt_inplace.simps [simp del]
  pcbc_decrypt_segment.simps [simp del] pcbc_decrypt_inplace.simps [simp del]

definition crypto_pcbc_encrypt :: "(u8 list \<Rightarrow> u8 list) \<Rightarrow> nat \<Rightarrow> walk_mem \<Rightarrow> u8 list \<Rightarrow> u8 list \<Rightarrow> (unit kres \<times> u8 list \<times> u8 list) option" where
  "crypto_pcbc_encrypt fn bsize layout src iv =
     map_option (desc_info iv) (walk_loop layout (\<lambda>same part iv. if same then
         (case pcbc_encrypt_inplace fn bsize (length part) part 0 iv of (buf, iv, left) \<Rightarrow>
            (take (length part - left) buf, iv, left))
       else pcbc_encrypt_segment fn bsize (length part) part iv) bsize src iv (blkcipher_walk_virt bsize layout (length src)))"

definition crypto_pcbc_decrypt :: "(u8 list \<Rightarrow> u8 list) \<Rightarrow> nat \<Rightarrow> walk_mem \<Rightarrow> u8 list \<Rightarrow> u8 list \<Rightarrow> (unit kres \<times> u8 list \<times> u8 list) option" where
  "crypto_pcbc_decrypt fn bsize layout src iv =
     map_option (desc_info iv) (walk_loop layout (\<lambda>same part iv. if same then
         (case pcbc_decrypt_inplace fn bsize (length part) part 0 iv of (buf, iv, left) \<Rightarrow>
            (take (length part - left) buf, iv, left))
       else pcbc_decrypt_segment fn bsize (length part) part iv) bsize src iv (blkcipher_walk_virt bsize layout (length src)))"

section \<open>CTR\<close>

function ctr_crypt_segment :: "(u8 list \<Rightarrow> u8 list) \<Rightarrow> nat \<Rightarrow> nat \<Rightarrow> u8 list \<Rightarrow> u8 list \<Rightarrow> u8 list \<times> u8 list \<times> nat" where
  "ctr_crypt_segment fn bsize nbytes src ctrblk =
     (let d = crypto_xor (fn ctrblk) src bsize; ctrblk = crypto_inc ctrblk bsize; nbytes' = nbytes - bsize in
      if bsize \<le> nbytes' \<and> 0 < bsize then
        (case ctr_crypt_segment fn bsize nbytes' (drop bsize src) ctrblk of (ds, ctrblk, left) \<Rightarrow> (d @ ds, ctrblk, left))
      else (d, ctrblk, nbytes'))"
  by pat_completeness auto
termination by (relation "measure (\<lambda>(fn, bsize, nbytes, src, iv). nbytes)") auto

function ctr_crypt_inplace :: "(u8 list \<Rightarrow> u8 list) \<Rightarrow> nat \<Rightarrow> nat \<Rightarrow> u8 list \<Rightarrow> nat \<Rightarrow> u8 list \<Rightarrow> u8 list \<times> u8 list \<times> nat" where
  "ctr_crypt_inplace fn bsize nbytes buf src ctrblk =
     (let keystream = fn ctrblk;
          buf = wr buf src (crypto_xor (rd buf src bsize) keystream bsize);
          ctrblk = crypto_inc ctrblk bsize; nbytes' = nbytes - bsize in
      if bsize \<le> nbytes' \<and> 0 < bsize then ctr_crypt_inplace fn bsize nbytes' buf (src + bsize) ctrblk
      else (buf, ctrblk, nbytes'))"
  by pat_completeness auto
termination by (relation "measure (\<lambda>(fn, bsize, nbytes, buf, src, iv). nbytes)") auto

declare ctr_crypt_segment.simps [simp del] ctr_crypt_inplace.simps [simp del]

definition ctr_crypt_final :: "(u8 list \<Rightarrow> u8 list) \<Rightarrow> nat \<Rightarrow> u8 list \<Rightarrow> u8 list \<Rightarrow> u8 list \<times> u8 list" where
  "ctr_crypt_final fn bsize src ctrblk =
     (let keystream = crypto_xor (fn ctrblk) src (length src)
      in (take (length src) keystream, crypto_inc ctrblk bsize))"

text \<open>The algorithm's block size is one byte and the walk's that of the cipher, so only the last part
  can be shorter than a block.\<close>

partial_function (option) ctr_crypt_walk ::
  "(u8 list \<Rightarrow> u8 list) \<Rightarrow> nat \<Rightarrow> walk_mem \<Rightarrow> u8 list \<Rightarrow> u8 list \<Rightarrow> unit kres \<times> blkcipher_walk \<Rightarrow>
     (unit kres \<times> u8 list \<times> u8 list \<times> blkcipher_walk) option"
where
  "ctr_crypt_walk fn bsize m src iv ew =
     (case ew of (err, walk) \<Rightarrow>
        (case w_nbytes walk of
           None \<Rightarrow> None
         | Some nbytes \<Rightarrow>
             if bsize \<le> nbytes then
               (case w_same walk of
                  None \<Rightarrow> None
                | Some same \<Rightarrow>
                    (case (if same then (case ctr_crypt_inplace fn bsize (length (take nbytes src)) (take nbytes src) 0 iv of (buf, iv, left) \<Rightarrow>
                             (take (length (take nbytes src) - left) buf, iv, left))
                           else ctr_crypt_segment fn bsize (length (take nbytes src)) (take nbytes src) iv) of (out, iv, left) \<Rightarrow>
                       Option.bind (ctr_crypt_walk fn bsize m (drop (nbytes - left) src) iv
                           (blkcipher_walk_done 1 bsize m (length src) walk nbytes left))
                         (\<lambda>(err, outs, iv, walk). Some (err, out @ outs, iv, walk))))
             else if nbytes \<noteq> 0 then
               (case w_same walk of
                  None \<Rightarrow> None
                | Some same \<Rightarrow>
                    (case ctr_crypt_final fn bsize (take nbytes src) iv of (out, iv) \<Rightarrow>
                       (case blkcipher_walk_done 1 bsize m (length src) walk nbytes 0 of (err, walk) \<Rightarrow> Some (err, out, iv, walk))))
             else Some (err, [], iv, walk)))"

definition crypto_ctr_crypt :: "(u8 list \<Rightarrow> u8 list) \<Rightarrow> nat \<Rightarrow> walk_mem \<Rightarrow> u8 list \<Rightarrow> u8 list \<Rightarrow> (unit kres \<times> u8 list \<times> u8 list) option" where
  "crypto_ctr_crypt fn bsize layout src iv =
     map_option (desc_info iv) (ctr_crypt_walk fn bsize layout src iv (blkcipher_walk_virt_block 1 bsize layout (length src)))"

section \<open>Specification of the modes\<close>

text \<open>A mode is a machine that turns one block into one block and updates its chaining value.\<close>

fun mode_run :: "('st \<Rightarrow> u8 list \<Rightarrow> u8 list \<times> 'st) \<Rightarrow> 'st \<Rightarrow> u8 list list \<Rightarrow> u8 list list \<times> 'st" where
  "mode_run step st [] = ([], st)"
| "mode_run step st (b # bs) =
     (case step st b of (c, st) \<Rightarrow> (case mode_run step st bs of (cs, st) \<Rightarrow> (c # cs, st)))"

abbreviation bxor :: "u8 list \<Rightarrow> u8 list \<Rightarrow> u8 list" where
  "bxor \<equiv> map2 (XOR)"

abbreviation blocks_of :: "nat \<Rightarrow> u8 list list \<Rightarrow> bool" where
  "blocks_of n bs \<equiv> \<forall>b \<in> set bs. length b = n"

definition ecb_step :: "(u8 list \<Rightarrow> u8 list) \<Rightarrow> unit \<Rightarrow> u8 list \<Rightarrow> u8 list \<times> unit" where
  "ecb_step fn st b = (fn b, ())"

definition cbc_enc :: "(u8 list \<Rightarrow> u8 list) \<Rightarrow> u8 list \<Rightarrow> u8 list \<Rightarrow> u8 list \<times> u8 list" where
  "cbc_enc fn iv b = (let c = fn (bxor iv b) in (c, c))"

definition cbc_dec :: "(u8 list \<Rightarrow> u8 list) \<Rightarrow> u8 list \<Rightarrow> u8 list \<Rightarrow> u8 list \<times> u8 list" where
  "cbc_dec fn iv c = (bxor (fn c) iv, c)"

definition pcbc_enc :: "(u8 list \<Rightarrow> u8 list) \<Rightarrow> u8 list \<Rightarrow> u8 list \<Rightarrow> u8 list \<times> u8 list" where
  "pcbc_enc fn iv b = (let c = fn (bxor iv b) in (c, bxor c b))"

definition pcbc_dec :: "(u8 list \<Rightarrow> u8 list) \<Rightarrow> u8 list \<Rightarrow> u8 list \<Rightarrow> u8 list \<times> u8 list" where
  "pcbc_dec fn iv c = (let b = bxor (fn c) iv in (b, bxor c b))"

definition ctr_step :: "(u8 list \<Rightarrow> u8 list) \<Rightarrow> u8 list \<Rightarrow> u8 list \<Rightarrow> u8 list \<times> u8 list" where
  "ctr_step fn ctr b = (bxor (fn ctr) b, crypto_inc ctr (length ctr))"

section \<open>Byte string lemmas\<close>

lemma crypto_xor_byte_eq:
  "n \<le> length a \<Longrightarrow> n \<le> length b \<Longrightarrow> crypto_xor_byte a b n = bxor (take n a) (take n b) @ drop n a"
  by (induction a b n rule: crypto_xor_byte.induct) auto

lemma crypto_xor_eq:
  "n \<le> length a \<Longrightarrow> n \<le> length b \<Longrightarrow> crypto_xor a b n = bxor (take n a) (take n b) @ drop n a"
proof (induction a b n rule: crypto_xor.induct)
  case (1 a0 a1 a2 a3 as b0 b1 b2 b3 bs n)
  then show ?case by (simp add: load_le32_xor [symmetric])
qed (simp_all only: crypto_xor.simps crypto_xor_byte_eq)

lemma crypto_xor_block: "length a = n \<Longrightarrow> n \<le> length b \<Longrightarrow> crypto_xor a b n = bxor a (take n b)"
  by (simp add: crypto_xor_eq)

lemma bxor_commute: "bxor a b = bxor b a"
  by (induction a b rule: list_induct2') (simp_all add: xor.commute)

lemma bxor_short: "length b \<le> length a \<Longrightarrow> length (bxor a b) = length b \<and> bxor a (bxor a b) = b"
  by (induction a b rule: list_induct2') (simp_all add: xor.assoc [symmetric])

lemma bxor_take: "bxor (take (length b) a) b = bxor a b"
  by (induction a b rule: list_induct2') simp_all

lemma bxor_cancel [simp]: "length a = length b \<Longrightarrow> bxor (bxor a b) b = a" "length a = length b \<Longrightarrow> bxor (bxor b a) b = a"
  by (induction a b rule: list_induct2) (simp_all add: xor.assoc xor.left_commute)

lemma rd_mid [simp]: "length b = n \<Longrightarrow> rd (pre @ b @ post) (length pre) n = b"
  by (simp add: rd_def)

lemma wr_mid [simp]: "length d = length b \<Longrightarrow> wr (pre @ b @ post) (length pre) d = pre @ d @ post"
  by (simp add: wr_def)

lemma length_wr: "p + length d \<le> length buf \<Longrightarrow> length (wr buf p d) = length buf"
  by (simp add: wr_def)

lemma length_mode_run:
  "(\<And>st b. length b = n \<Longrightarrow> ok st \<Longrightarrow> length (fst (step st b)) = n \<and> ok (snd (step st b))) \<Longrightarrow>
   ok st \<Longrightarrow> blocks_of n bs \<Longrightarrow>
   blocks_of n (fst (mode_run step st bs)) \<and> ok (snd (mode_run step st bs)) \<and> length (fst (mode_run step st bs)) = length bs"
proof (induction bs arbitrary: st)
  case (Cons b bs)
  show ?case using Cons.IH [OF Cons.prems(1), of "snd (step st b)"] Cons.prems
    by (auto split: prod.splits simp: prod_eq_iff)
qed simp

lemma mode_run_append:
  "mode_run step st (xs @ ys) =
     (case mode_run step st xs of (cs, st) \<Rightarrow> (case mode_run step st ys of (ds, st) \<Rightarrow> (cs @ ds, st)))"
  by (induction xs arbitrary: st) (auto split: prod.splits)

text \<open>A mode undoes another when each step does.\<close>

lemma mode_run_inverse:
  assumes "\<And>st b. length b = n \<Longrightarrow> ok st \<Longrightarrow> dec st (fst (enc st b)) = (b, snd (enc st b)) \<and> ok (snd (enc st b))"
    and "ok st" and "blocks_of n bs"
  shows "mode_run dec st (fst (mode_run enc st bs)) = (bs, snd (mode_run enc st bs))"
  using assms(2-3)
proof (induction bs arbitrary: st)
  case (Cons b bs)
  have step: "dec st (fst (enc st b)) = (b, snd (enc st b))" "ok (snd (enc st b))"
    using assms(1) Cons.prems by auto
  show ?case using Cons.IH [OF step(2)] Cons.prems step(1) by (auto split: prod.splits simp: prod_eq_iff)
qed simp

section \<open>The loops run their machines\<close>

lemma ecb_crypt_loop_eq:
  assumes "0 < n" and "blocks_of n (b # bs)" and "length rest < n"
  shows "ecb_crypt_loop fn n (length (concat (b # bs) @ rest)) (concat (b # bs) @ rest) =
    (concat (fst (mode_run (ecb_step fn) () (b # bs))), length rest)"
  using assms
proof (induction bs arbitrary: b)
  case Nil
  then show ?case by (subst ecb_crypt_loop.simps) (simp add: ecb_step_def)
next
  case (Cons c bs)
  then show ?case using Cons.IH [of c]
    by (subst ecb_crypt_loop.simps) (simp add: Let_def ecb_step_def [of fn "()" b] split: prod.splits)
qed

lemma cbc_encrypt_segment_eq:
  assumes "0 < n" and "blocks_of n (b # bs)" and "length rest < n" and "length iv = n"
    and fn: "\<And>x. length x = n \<Longrightarrow> length (fn x) = n"
  shows "cbc_encrypt_segment fn n (length (concat (b # bs) @ rest)) (concat (b # bs) @ rest) iv =
    (case mode_run (cbc_enc fn) iv (b # bs) of (cs, iv) \<Rightarrow> (concat cs, iv, length rest))"
  using assms(1-4)
proof (induction bs arbitrary: b iv)
  case Nil
  then show ?case
    by (subst cbc_encrypt_segment.simps) (simp add: cbc_enc_def [of fn iv b] Let_def crypto_xor_block)
next
  case (Cons c bs)
  then show ?case using Cons.IH [of c "fn (bxor iv b)"] fn
    by (subst cbc_encrypt_segment.simps) (simp add: cbc_enc_def [of fn iv b] Let_def crypto_xor_block split: prod.splits)
qed

lemma cbc_decrypt_segment_eq:
  assumes "0 < n" and "blocks_of n (b # bs)" and "length rest < n" and "length iv = n"
    and fn: "\<And>x. length x = n \<Longrightarrow> length (fn x) = n"
  shows "cbc_decrypt_segment fn n (length (concat (b # bs) @ rest)) (concat (b # bs) @ rest) iv =
    (case mode_run (cbc_dec fn) iv (b # bs) of (cs, iv) \<Rightarrow> (concat cs, iv, length rest))"
  using assms(1-4)
proof (induction bs arbitrary: b iv)
  case Nil
  then show ?case using fn
    by (subst cbc_decrypt_segment.simps) (simp add: cbc_dec_def [of fn iv b] Let_def crypto_xor_block)
next
  case (Cons c bs)
  then show ?case using Cons.IH [of c b] fn
    by (subst cbc_decrypt_segment.simps) (simp add: cbc_dec_def [of fn iv b] Let_def crypto_xor_block split: prod.splits)
qed

lemma pcbc_encrypt_segment_eq:
  assumes "0 < n" and "blocks_of n (b # bs)" and "length rest < n" and "length iv = n"
    and fn: "\<And>x. length x = n \<Longrightarrow> length (fn x) = n"
  shows "pcbc_encrypt_segment fn n (length (concat (b # bs) @ rest)) (concat (b # bs) @ rest) iv =
    (case mode_run (pcbc_enc fn) iv (b # bs) of (cs, iv) \<Rightarrow> (concat cs, iv, length rest))"
  using assms(1-4)
proof (induction bs arbitrary: b iv)
  case Nil
  then show ?case using fn
    by (subst pcbc_encrypt_segment.simps) (simp add: pcbc_enc_def [of fn iv b] Let_def crypto_xor_block)
next
  case (Cons c bs)
  then show ?case using Cons.IH [of c "bxor (fn (bxor iv b)) b"] fn
    by (subst pcbc_encrypt_segment.simps) (simp add: pcbc_enc_def [of fn iv b] Let_def crypto_xor_block split: prod.splits)
qed

lemma pcbc_decrypt_segment_eq:
  assumes "0 < n" and "blocks_of n (b # bs)" and "length rest < n" and "length iv = n"
    and fn: "\<And>x. length x = n \<Longrightarrow> length (fn x) = n"
  shows "pcbc_decrypt_segment fn n (length (concat (b # bs) @ rest)) (concat (b # bs) @ rest) iv =
    (case mode_run (pcbc_dec fn) iv (b # bs) of (cs, iv) \<Rightarrow> (concat cs, iv, length rest))"
  using assms(1-4)
proof (induction bs arbitrary: b iv)
  case Nil
  then show ?case using fn
    by (subst pcbc_decrypt_segment.simps) (simp add: pcbc_dec_def [of fn iv b] Let_def crypto_xor_block)
next
  case (Cons c bs)
  then show ?case using Cons.IH [of c "bxor b (bxor (fn b) iv)"] fn
    by (subst pcbc_decrypt_segment.simps) (simp add: pcbc_dec_def [of fn iv b] Let_def crypto_xor_block split: prod.splits)
qed

text \<open>In place, after the blocks already done.\<close>

lemma cbc_encrypt_inplace_loop_eq:
  assumes "0 < n" and "blocks_of n (b # bs)" and "length rest < n" and "length iv = n"
    and "iv_read walk_iv (pre @ concat (b # bs) @ rest) n ptr = iv"
    and "ptr = Walk_iv \<or> (\<exists>p. ptr = In_buf p \<and> p + n = length pre)"
    and fn: "\<And>x. length x = n \<Longrightarrow> length (fn x) = n"
  shows "\<exists>ptr'. cbc_encrypt_inplace_loop fn n walk_iv (length (concat (b # bs) @ rest)) (pre @ concat (b # bs) @ rest) (length pre) ptr =
      (pre @ concat (fst (mode_run (cbc_enc fn) iv (b # bs))) @ rest, ptr', length rest) \<and>
    iv_read walk_iv (pre @ concat (fst (mode_run (cbc_enc fn) iv (b # bs))) @ rest) n ptr' = snd (mode_run (cbc_enc fn) iv (b # bs))"
  using assms(1-6)
proof (induction bs arbitrary: b iv pre ptr)
  case Nil
  then show ?case using fn
    by (subst cbc_encrypt_inplace_loop.simps)
       (simp add: cbc_enc_def [of fn iv b] Let_def crypto_xor_block bxor_commute)
next
  case (Cons c bs)
  let ?e = "fn (bxor iv b)"
  have e: "length ?e = n" using Cons.prems fn by simp
  have "rd (pre @ ?e @ concat (c # bs) @ rest) (length pre) n = ?e" using e by simp
  then have IH: "\<exists>ptr'. cbc_encrypt_inplace_loop fn n walk_iv (length (concat (c # bs) @ rest)) ((pre @ ?e) @ concat (c # bs) @ rest)
        (length (pre @ ?e)) (In_buf (length pre)) =
      ((pre @ ?e) @ concat (fst (mode_run (cbc_enc fn) ?e (c # bs))) @ rest, ptr', length rest) \<and>
    iv_read walk_iv ((pre @ ?e) @ concat (fst (mode_run (cbc_enc fn) ?e (c # bs))) @ rest) n ptr' = snd (mode_run (cbc_enc fn) ?e (c # bs))"
    using Cons.prems e by (intro Cons.IH) simp_all
  then show ?case using Cons.prems e
    by (subst cbc_encrypt_inplace_loop.simps)
       (simp add: cbc_enc_def [of fn iv b] Let_def crypto_xor_block bxor_commute split: prod.splits)
qed

lemma pcbc_encrypt_inplace_eq:
  assumes "0 < n" and "blocks_of n (b # bs)" and "length rest < n" and "length iv = n"
    and fn: "\<And>x. length x = n \<Longrightarrow> length (fn x) = n"
  shows "pcbc_encrypt_inplace fn n (length (concat (b # bs) @ rest)) (pre @ concat (b # bs) @ rest) (length pre) iv =
    (case mode_run (pcbc_enc fn) iv (b # bs) of (cs, iv) \<Rightarrow> (pre @ concat cs @ rest, iv, length rest))"
  using assms(1-4)
proof (induction bs arbitrary: b iv pre)
  case Nil
  then show ?case using fn
    by (subst pcbc_encrypt_inplace.simps) (simp add: pcbc_enc_def [of fn iv b] Let_def crypto_xor_block bxor_commute)
next
  case (Cons c bs)
  let ?e = "fn (bxor iv b)"
  have e: "length ?e = n" using Cons.prems fn by simp
  show ?case using Cons.prems Cons.IH [of c "bxor ?e b" "pre @ ?e"] e
    by (subst pcbc_encrypt_inplace.simps)
       (simp add: pcbc_enc_def [of fn iv b] Let_def crypto_xor_block bxor_commute [of b] split: prod.splits)
qed

lemma pcbc_decrypt_inplace_eq:
  assumes "0 < n" and "blocks_of n (b # bs)" and "length rest < n" and "length iv = n"
    and fn: "\<And>x. length x = n \<Longrightarrow> length (fn x) = n"
  shows "pcbc_decrypt_inplace fn n (length (concat (b # bs) @ rest)) (pre @ concat (b # bs) @ rest) (length pre) iv =
    (case mode_run (pcbc_dec fn) iv (b # bs) of (cs, iv) \<Rightarrow> (pre @ concat cs @ rest, iv, length rest))"
  using assms(1-4)
proof (induction bs arbitrary: b iv pre)
  case Nil
  then show ?case using fn
    by (subst pcbc_decrypt_inplace.simps) (simp add: pcbc_dec_def [of fn iv b] Let_def crypto_xor_block)
next
  case (Cons c bs)
  let ?e = "bxor (fn b) iv"
  have e: "length ?e = n" "length (fn b) = n" using Cons.prems fn by simp_all
  show ?case using Cons.prems Cons.IH [of c "bxor b ?e" "pre @ ?e"] e
    by (subst pcbc_decrypt_inplace.simps)
       (simp add: pcbc_dec_def [of fn iv b] Let_def crypto_xor_block split: prod.splits)
qed

lemma mode_run_cbc_dec_iv: "snd (mode_run (cbc_dec fn) iv bs) = last (iv # bs)"
proof (induction bs arbitrary: iv)
  case (Cons b bs)
  show ?case using Cons.IH [of b]
    by (cases "mode_run (cbc_dec fn) b bs") (auto simp: cbc_dec_def [of fn iv b])
qed simp

lemma length_concat_blocks: "blocks_of n bs \<Longrightarrow> length (concat bs) = n * length bs"
  by (induction bs) simp_all

lemma cbc_decrypt_inplace_loop_eq:
  assumes "0 < n" and "blocks_of n bs" and "bs \<noteq> []" and "left < n"
    and fn: "\<And>x. length x = n \<Longrightarrow> length (fn x) = n"
  shows "cbc_decrypt_inplace_loop fn n (n * length bs + left) (concat bs @ post) (n * (length bs - 1)) =
    (fn (hd bs) @ concat (tl (fst (mode_run (cbc_dec fn) iv bs))) @ post, 0, left)"
  using assms(1-4)
proof (induction bs arbitrary: post rule: rev_induct)
  case (snoc x xs)
  have x: "length x = n" "length (fn x) = n" using snoc.prems fn by simp_all
  have xs: "length (concat xs) = n * length xs" using snoc.prems by (intro length_concat_blocks) simp
  show ?case
  proof (cases "xs = []")
    case True
    then show ?thesis using x snoc.prems wr_mid [of "fn x" x "[]" post] rd_mid [of x n "[]" post]
      by (subst cbc_decrypt_inplace_loop.simps) (simp add: Let_def cbc_dec_def [of fn iv x])
  next
    case False
    then obtain ys y where ys: "xs = ys @ [y]" by (meson rev_exhaust)
    have y: "length y = n" and ylen: "length (concat ys) = n * length ys"
      using snoc.prems xs by (auto simp: ys)
    let ?d = "bxor (fn x) y"
    have prev: "rd (concat xs @ fn x @ post) (length (concat xs) - n) n = y"
      using rd_mid [of y n "concat ys" "fn x @ post"] y by (simp add: ys)
    have dec: "mode_run (cbc_dec fn) iv (xs @ [x]) = (fst (mode_run (cbc_dec fn) iv xs) @ [?d], x)"
      using mode_run_cbc_dec_iv [of fn iv xs]
      by (auto simp: mode_run_append cbc_dec_def ys split: prod.splits)
    have "mode_run (cbc_dec fn) iv xs \<noteq> ([], s)" for s
      using False by (cases xs) (auto split: prod.splits)
    then have tl: "tl (fst (mode_run (cbc_dec fn) iv (xs @ [x]))) = tl (fst (mode_run (cbc_dec fn) iv xs)) @ [?d]"
      by (cases "mode_run (cbc_dec fn) iv xs") (auto simp: dec tl_append split: list.splits)
    have "n \<le> n * length xs" using False by (cases xs) simp_all
    then have "cbc_decrypt_inplace_loop fn n (n * length (xs @ [x]) + left) (concat (xs @ [x]) @ post) (n * (length (xs @ [x]) - 1)) =
        cbc_decrypt_inplace_loop fn n (n * length xs + left) (concat xs @ ?d @ post) (n * (length xs - 1))"
      using x y prev snoc.prems
      by (subst cbc_decrypt_inplace_loop.simps)
         (simp add: Let_def crypto_xor_block diff_mult_distrib2 flip: xs)
    also have "\<dots> = (fn (hd xs) @ concat (tl (fst (mode_run (cbc_dec fn) iv xs))) @ ?d @ post, 0, left)"
      using snoc.prems False by (intro snoc.IH) simp_all
    finally show ?thesis using False by (simp add: tl)
  qed
qed simp

lemma and_block_size: "(m :: nat) AND (2 ^ k - 1) = m mod 2 ^ k"
  by (metis mask_eq_exp_minus_1 take_bit_eq_mask take_bit_eq_mod)

lemma cbc_decrypt_inplace_eq:
  assumes "n = 2 ^ k" and "blocks_of n (b # bs)" and "length rest < n" and "length iv = n"
    and fn: "\<And>x. length x = n \<Longrightarrow> length (fn x) = n"
  shows "cbc_decrypt_inplace fn n (concat (b # bs) @ rest) iv =
    (case mode_run (cbc_dec fn) iv (b # bs) of (cs, iv) \<Rightarrow> (concat cs, iv, length rest))"
proof -
  let ?bs = "b # bs"
  have len: "length (concat ?bs) = n * length ?bs" using assms(2) by (rule length_concat_blocks)
  have split: "concat ?bs = concat (butlast ?bs) @ last ?bs"
    by (metis append_butlast_last_id concat.simps concat_append list.distinct(1) append_Nil2)
  have last: "length (last ?bs) = n" using assms(2) last_in_set [of ?bs] by blast
  have "blocks_of n (butlast ?bs)" using assms(2) in_set_butlastD by metis
  then have pos: "length (concat (butlast ?bs)) = n * length bs"
    by (simp only: length_concat_blocks length_butlast) simp
  have "length (concat ?bs @ rest) AND (n - 1) = length rest"
    unfolding assms(1) and_block_size length_append len using assms(1,3) by (simp only: mod_mult_self4 mod_less)
  then have src: "length (concat ?bs @ rest) - (length (concat ?bs @ rest) AND (n - 1)) - n = n * (length ?bs - 1)"
    using len by simp
  have last_iv: "rd (concat ?bs @ rest) (n * (length ?bs - 1)) n = last ?bs"
    using rd_mid [of "last ?bs" n "concat (butlast ?bs)" rest] last pos by (simp only: split append_assoc) simp
  obtain cs where run: "fst (mode_run (cbc_dec fn) iv ?bs) = bxor (fn b) iv # cs"
    by (cases "mode_run (cbc_dec fn) b bs") (simp add: cbc_dec_def [of fn iv b])
  have "cbc_decrypt_inplace_loop fn n (length (concat ?bs @ rest)) (concat ?bs @ rest) (n * (length ?bs - 1)) =
      (fn b @ concat cs @ rest, 0, length rest)"
    unfolding length_append len
    using cbc_decrypt_inplace_loop_eq [of n ?bs "length rest" fn rest iv] assms run fn by simp
  moreover have "wr (fn b @ concat cs @ rest) 0 (bxor (fn b) iv) = bxor (fn b) iv @ concat cs @ rest"
    using wr_mid [of "bxor (fn b) iv" "fn b" "[]" "concat cs @ rest"] assms fn [of b] by simp
  moreover have "rd (fn b @ concat cs @ rest) 0 n = fn b"
    using rd_mid [of "fn b" n "[]" "concat cs @ rest"] assms fn [of b] by simp
  ultimately have "cbc_decrypt_inplace fn n (concat ?bs @ rest) iv =
      (concat (fst (mode_run (cbc_dec fn) iv ?bs)), last ?bs, length rest)"
    using src last_iv assms fn [of b] run
    by (simp only: cbc_decrypt_inplace_def Let_def prod.case) (simp add: crypto_xor_block)
  then show ?thesis using mode_run_cbc_dec_iv [of fn iv ?bs] by (simp split: prod.splits) auto
qed

lemma ctr_crypt_segment_eq:
  assumes "0 < n" and "blocks_of n (b # bs)" and "length rest < n" and "length iv = n"
    and fn: "\<And>x. length x = n \<Longrightarrow> length (fn x) = n" and inc: "\<And>x. length x = n \<Longrightarrow> length (crypto_inc x n) = n"
  shows "ctr_crypt_segment fn n (length (concat (b # bs) @ rest)) (concat (b # bs) @ rest) iv =
    (case mode_run (ctr_step fn) iv (b # bs) of (cs, iv) \<Rightarrow> (concat cs, iv, length rest))"
  using assms(1-4)
proof (induction bs arbitrary: b iv)
  case Nil
  then show ?case using fn
    by (subst ctr_crypt_segment.simps) (simp add: ctr_step_def [of fn iv b] Let_def crypto_xor_block)
next
  case (Cons c bs)
  then show ?case using Cons.IH [of c "crypto_inc iv n"] fn inc
    by (subst ctr_crypt_segment.simps) (simp add: ctr_step_def [of fn iv b] Let_def crypto_xor_block split: prod.splits)
qed

lemma ctr_crypt_inplace_eq:
  assumes "0 < n" and "blocks_of n (b # bs)" and "length rest < n" and "length iv = n"
    and fn: "\<And>x. length x = n \<Longrightarrow> length (fn x) = n" and inc: "\<And>x. length x = n \<Longrightarrow> length (crypto_inc x n) = n"
  shows "ctr_crypt_inplace fn n (length (concat (b # bs) @ rest)) (pre @ concat (b # bs) @ rest) (length pre) iv =
    (case mode_run (ctr_step fn) iv (b # bs) of (cs, iv) \<Rightarrow> (pre @ concat cs @ rest, iv, length rest))"
  using assms(1-4)
proof (induction bs arbitrary: b iv pre)
  case Nil
  then show ?case using fn
    by (subst ctr_crypt_inplace.simps) (simp add: ctr_step_def [of fn iv b] Let_def crypto_xor_block bxor_commute [of b])
next
  case (Cons c bs)
  have e: "length (fn iv) = n" using Cons.prems fn by simp
  show ?case using Cons.prems Cons.IH [of c "crypto_inc iv n" "pre @ bxor (fn iv) b"] e inc
    by (subst ctr_crypt_inplace.simps)
       (simp add: ctr_step_def [of fn iv b] Let_def crypto_xor_block bxor_commute [of b] split: prod.splits)
qed

section \<open>The walk runs the whole machine\<close>

lemma concat_blocks_split:
  assumes "blocks_of n bs" and "q \<le> length bs"
  shows "take (n * q) (concat bs @ rest) = concat (take q bs)" and "drop (n * q) (concat bs @ rest) = concat (drop q bs) @ rest"
proof -
  have "blocks_of n (take q bs)" using assms by (auto dest: in_set_takeD)
  then have len: "length (concat (take q bs)) = n * q" using assms(2) by (simp only: length_concat_blocks) simp
  have "concat bs = concat (take q bs) @ concat (drop q bs)" by (metis append_take_drop_id concat_append)
  then show "take (n * q) (concat bs @ rest) = concat (take q bs)" "drop (n * q) (concat bs @ rest) = concat (drop q bs) @ rest"
    using len by simp_all
qed

definition mem_ok :: "walk_mem \<Rightarrow> bool" where
  "mem_ok m = (page_ok m \<and> buf_ok m \<and> (iv_aligned m \<or> iv_buf_ok m) \<and> \<not> in_irq m)"

text \<open>A walk under way, and one that stopped for lack of memory where a number of bytes remained: silently without a page for
  unaligned data, with an error without a bounce buffer.\<close>

definition walk_live :: "walk_mem \<Rightarrow> blkcipher_walk \<Rightarrow> bool" where
  "walk_live m w \<longleftrightarrow> \<not> w_released w \<and> (w_page w \<longrightarrow> page_ok m)"

definition walk_stopped :: "walk_mem \<Rightarrow> nat \<Rightarrow> unit kres \<Rightarrow> blkcipher_walk \<Rightarrow> bool" where
  "walk_stopped m remaining err w \<longleftrightarrow>
     err = Inr () \<and> \<not> w_released w \<and> \<not> page_ok m \<and> \<not> aligned_at m remaining \<or> err = Inl ENOMEM \<and> w_released w \<and> \<not> buf_ok m"

lemma walk_next_cases:
  assumes "a \<le> tot" and "0 < tot" and "0 < n" and "walk_live m w"
  obtains (part) nbytes same w' where "blkcipher_walk_next a n m tot w = (Inr (), w')" and "w_nbytes w' = Some nbytes"
      and "w_same w' = Some same" and "min n tot \<le> nbytes" and "nbytes \<le> tot" and "w_slow w' \<longrightarrow> nbytes = min n tot"
      and "walk_live m w'" and "w_iv_copied w' = w_iv_copied w"
    | (stop) err w' where "blkcipher_walk_next a n m tot w = (err, w')" and "w_nbytes w' = Some 0"
      and "walk_stopped m tot err w'" and "w_iv_copied w' = w_iv_copied w"
proof -
  define copy where "copy = (\<not> aligned_at m tot)"
  define w1 where "w1 = w\<lparr>w_slow := False, w_page := w_page w \<or> copy \<and> page_ok m\<rparr>"
  have live: "walk_live m w1" using assms(4) by (auto simp: walk_live_def w1_def)
  have step: "blkcipher_walk_next a n m tot w =
      (let k = (if copy \<and> \<not> w_page w1 then 0 else tot); bsize = min n k; k = min k (contig m tot) in
       if k < bsize then blkcipher_next_slow m bsize w1
       else (Inr (), w1\<lparr>w_nbytes := Some k, w_same := Some (copy \<or> same_buf m tot)\<rparr>))"
    using assms(1) unfolding blkcipher_walk_next_def Let_def copy_def [symmetric] w1_def [symmetric] by simp
  show thesis
  proof (cases "copy \<and> \<not> w_page w1")
    case True
    then have "\<not> page_ok m" "\<not> aligned_at m tot" by (auto simp: w1_def copy_def)
    moreover have nxt: "blkcipher_walk_next a n m tot w = (Inr (), w1\<lparr>w_nbytes := Some 0, w_same := Some True\<rparr>)" using step True by simp
    ultimately show thesis using live by (intro stop [OF nxt]) (auto simp: walk_stopped_def walk_live_def w1_def)
  next
    case False
    then have paged: "blkcipher_walk_next a n m tot w =
        (if min tot (contig m tot) < min n tot then blkcipher_next_slow m (min n tot) w1
         else (Inr (), w1\<lparr>w_nbytes := Some (min tot (contig m tot)), w_same := Some (copy \<or> same_buf m tot)\<rparr>))"
      using step unfolding Let_def by (simp only: if_False)
    consider (slow) "min tot (contig m tot) < min n tot" "w_buffer w1 \<or> w_page w1 \<or> buf_ok m"
      | (none) "min tot (contig m tot) < min n tot" "\<not> (w_buffer w1 \<or> w_page w1 \<or> buf_ok m)" | (fast) "\<not> min tot (contig m tot) < min n tot" by blast
    then show thesis
    proof cases
      case slow
      then have nxt: "blkcipher_walk_next a n m tot w =
          (Inr (), w1\<lparr>w_buffer := True, w_same := Some False, w_nbytes := Some (min n tot), w_slow := True\<rparr>)"
        using paged by (simp only: if_True blkcipher_next_slow_def)
      show thesis by (rule part [OF nxt, where same = False]) (use live in \<open>simp_all add: walk_live_def w1_def\<close>)
    next
      case none
      then have nxt: "blkcipher_walk_next a n m tot w = (Inl ENOMEM, w1\<lparr>w_nbytes := Some 0, w_released := True\<rparr>)"
        using paged by (simp only: if_True if_False blkcipher_next_slow_def blkcipher_walk_end_def)
      show thesis by (rule stop [OF nxt]) (use none(2) in \<open>simp_all add: walk_stopped_def w1_def\<close>)
    next
      case fast
      then have nxt: "blkcipher_walk_next a n m tot w =
          (Inr (), w1\<lparr>w_nbytes := Some (min tot (contig m tot)), w_same := Some (copy \<or> same_buf m tot)\<rparr>)"
        using paged by (simp only: if_False)
      have "min n tot \<le> min tot (contig m tot)" "min tot (contig m tot) \<le> tot" using fast by (simp_all only: not_less min.cobounded1)
      from part [OF nxt _ _ this, of "copy \<or> same_buf m tot"] show thesis using live by (simp add: walk_live_def w1_def)
    qed
  qed
qed

lemma mem_ok_not_stopped: "mem_ok m \<Longrightarrow> \<not> walk_stopped m remaining err w"
  by (auto simp: mem_ok_def walk_stopped_def)

text \<open>How a walk begins.\<close>

definition walk_defined :: "walk_mem \<Rightarrow> nat \<Rightarrow> bool" where
  "walk_defined m tot \<longleftrightarrow> \<not> in_irq m \<and> (tot = 0 \<or> iv_aligned m \<or> iv_buf_ok m)"

definition walk_start :: "walk_mem \<Rightarrow> nat \<Rightarrow> blkcipher_walk" where
  "walk_start m tot = blkcipher_walk_init\<lparr>w_nbytes := Some tot, w_buffer := \<not> iv_aligned m, w_iv_copied := \<not> iv_aligned m\<rparr>"

lemma walk_start_live: "walk_live m (walk_start m tot)" "w_iv_copied (walk_start m tot) = (\<not> iv_aligned m)"
  by (simp_all add: walk_live_def walk_start_def blkcipher_walk_init_def)

lemma walk_first_defined:
  "walk_defined m tot \<Longrightarrow> tot \<noteq> 0 \<Longrightarrow> blkcipher_walk_first a n m tot = blkcipher_walk_rest a n m tot (walk_start m tot)"
  by (cases "iv_aligned m") (simp_all add: walk_defined_def blkcipher_walk_first_def blkcipher_walk_rest_def walk_start_def blkcipher_walk_init_def)

lemma walk_first_empty:
  "walk_defined m 0 \<Longrightarrow> blkcipher_walk_first a n m 0 = (Inr (), blkcipher_walk_init\<lparr>w_nbytes := Some 0\<rparr>)"
  by (simp add: walk_defined_def blkcipher_walk_first_def)

lemma walk_first_undefined:
  assumes "\<not> walk_defined m tot"
  obtains err w where "blkcipher_walk_first a n m tot = (err, w)" and "w_nbytes w = None \<or> w_nbytes w = Some tot \<and> 0 < tot \<and> w_same w = None"
proof (cases "in_irq m")
  case True
  then show thesis by (intro that [of "Inl EDEADLK" blkcipher_walk_init]) (simp_all add: blkcipher_walk_first_def blkcipher_walk_init_def)
next
  case False
  then have "tot \<noteq> 0" "\<not> iv_aligned m" "\<not> iv_buf_ok m" using assms by (simp_all add: walk_defined_def)
  then show thesis using False
    by (intro that [of "Inl ENOMEM" "blkcipher_walk_init\<lparr>w_nbytes := Some tot\<rparr>"]) (simp_all add: blkcipher_walk_first_def blkcipher_walk_init_def)
qed

lemma walk_loop_end: "w_nbytes w = Some 0 \<Longrightarrow> walk_loop m crypt n src st (err, w) = Some (err, [], st, w)"
  by (subst walk_loop.simps) simp

lemma walk_loop_undefined: "\<not> walk_defined m (length src) \<Longrightarrow> walk_loop m crypt n src st (blkcipher_walk_first a b m (length src)) = None"
  by (rule walk_first_undefined [of m "length src" a b]) (auto simp: walk_loop.simps)

lemma to_blocks:
  assumes "0 < (n :: nat)"
  obtains bs rest where "src = concat bs @ rest" and "blocks_of n bs" and "length rest < n"
    and "rest = [] \<longleftrightarrow> n dvd length src"
proof -
  have "\<exists>bs rest. src = concat bs @ rest \<and> blocks_of n bs \<and> length rest < n"
  proof (induction "length src" arbitrary: src rule: less_induct)
    case less
    show ?case
    proof (cases "length src < n")
      case True
      then have "src = concat [] @ src \<and> blocks_of n [] \<and> length src < n" by simp
      then show ?thesis by blast
    next
      case False
      then have "length (drop n src) < length src" using assms by simp
      from less [OF this] obtain bs rest where
        "drop n src = concat bs @ rest" "blocks_of n bs" "length rest < n" by blast
      then have "src = concat (take n src # bs) @ rest \<and> blocks_of n (take n src # bs) \<and> length rest < n"
        using False by (metis append.assoc append_take_drop_id concat.simps(2) length_take min.absorb2 not_less set_ConsD)
      then show ?thesis by blast
    qed
  qed
  then obtain bs rest where bs: "src = concat bs @ rest" "blocks_of n bs" "length rest < n" by blast
  then have "length src = n * length bs + length rest" by (simp add: length_concat_blocks)
  then have "n dvd length src \<longleftrightarrow> n dvd length rest" by (simp add: dvd_add_right_iff)
  then have "rest = [] \<longleftrightarrow> n dvd length src" using bs(3) nat_dvd_not_less [of "length rest" n] by auto
  then show thesis using that bs by blast
qed

abbreviation walk_mode :: "walk_mem \<Rightarrow> 'st crypt_fn \<Rightarrow> nat \<Rightarrow> u8 list \<Rightarrow> 'st \<Rightarrow> (unit kres \<times> u8 list \<times> 'st) option" where
  "walk_mode m crypt n src st \<equiv> map_option (desc_info st) (walk_loop m crypt n src st (blkcipher_walk_virt n m (length src)))"

text \<open>What a mode returns with memory \<open>m\<close>, compared with what it returns when all memory is available (\<open>full\<close>): undefined if an
  unaligned initial vector cannot be copied or in an interrupt; otherwise the first \<open>j\<close> bytes of the full result, all of them unless a
  page (silently) or a bounce buffer could not be had where the rest begins.\<close>

definition memory_outcome :: "walk_mem \<Rightarrow> nat \<Rightarrow> u8 list \<Rightarrow> (unit kres \<times> u8 list) option \<Rightarrow> (unit kres \<times> u8 list) option \<Rightarrow> bool" where
  "memory_outcome m n src result full \<longleftrightarrow>
     (if in_irq m \<or> src \<noteq> [] \<and> \<not> iv_aligned m \<and> \<not> iv_buf_ok m then result = None
      else \<exists>err out j. full = Some (Inr (), out) \<and> length out = length src \<and> result = Some (err, take j out) \<and>
        (err = Inr () \<and> j = length src \<or>
         n dvd j \<and> j < length src \<and>
           (err = Inr () \<and> \<not> page_ok m \<and> \<not> aligned_at m (length src - j) \<or> err = Inl ENOMEM \<and> \<not> buf_ok m)) \<and>
        (src \<noteq> [] \<and> \<not> page_ok m \<and> \<not> aligned_at m (length src) \<longrightarrow> err = Inr () \<and> j = 0))"

lemma mode_run_take: "fst (mode_run step st (take k bs)) = take k (fst (mode_run step st bs))"
  by (induction bs arbitrary: st k) (auto simp: take_Cons split: prod.splits nat.splits, metis fst_conv)

lemma walk_first_stalls:
  assumes "walk_defined m tot" and "a \<le> tot" and "0 < tot" and "\<not> page_ok m" and "\<not> aligned_at m tot"
  obtains w where "blkcipher_walk_first a n m tot = (Inr (), w)" and "w_nbytes w = Some 0"
proof -
  let ?w = "(walk_start m tot)\<lparr>w_slow := False, w_page := False, w_nbytes := Some 0, w_same := Some True\<rparr>"
  have "blkcipher_walk_first a n m tot = blkcipher_walk_next a n m tot (walk_start m tot)"
    using walk_first_defined [OF assms(1)] assms(3) by (simp add: blkcipher_walk_rest_def)
  also have "\<dots> = (Inr (), ?w)" using assms(2-5) by (simp add: blkcipher_walk_next_def walk_start_def blkcipher_walk_init_def)
  finally show thesis by (rule that) simp
qed

lemma memory_outcomeI:
  assumes "full = Some (Inr (), out)" and "length out = length src"
    and "\<not> walk_defined m (length src) \<Longrightarrow> result = None"
    and "walk_defined m (length src) \<Longrightarrow> src \<noteq> [] \<Longrightarrow> \<not> page_ok m \<Longrightarrow> \<not> aligned_at m (length src) \<Longrightarrow> result = Some (Inr (), [])"
    and "walk_defined m (length src) \<Longrightarrow> \<exists>err j. result = Some (err, take j out) \<and>
      (err = Inr () \<and> j = length src \<or> n dvd j \<and> j < length src \<and> (\<exists>w. walk_stopped m (length src - j) err w))"
  shows "memory_outcome m n src result full"
proof (cases "walk_defined m (length src)")
  case False
  then show ?thesis using assms(3) by (auto simp: memory_outcome_def walk_defined_def)
next
  case True
  then have d: "\<not> (in_irq m \<or> src \<noteq> [] \<and> \<not> iv_aligned m \<and> \<not> iv_buf_ok m)" by (auto simp: walk_defined_def)
  show ?thesis
  proof (cases "src \<noteq> [] \<and> \<not> page_ok m \<and> \<not> aligned_at m (length src)")
    case stalls: True
    then have "result = Some (Inr (), take 0 out)" using assms(4) True by simp
    then show ?thesis unfolding memory_outcome_def using d stalls assms(1,2) by (simp del: take0)
  next
    case False
    obtain err j where r: "result = Some (err, take j out)"
      "err = Inr () \<and> j = length src \<or> n dvd j \<and> j < length src \<and> (\<exists>w. walk_stopped m (length src - j) err w)"
      using assms(5) [OF True] by blast
    then show ?thesis unfolding memory_outcome_def if_not_P [OF d] using False assms(1,2)
      by (intro exI [of _ err] exI [of _ out] exI [of _ j]) (auto simp: walk_stopped_def)
  qed
qed

text \<open>What a mode's processing of one mapped part promises.\<close>

locale block_mode =
  fixes n :: nat and crypt :: "'st crypt_fn"
    and step :: "'st \<Rightarrow> u8 list \<Rightarrow> u8 list \<times> 'st" and ok :: "'st \<Rightarrow> bool"
  assumes pos: "0 < n"
    and step_ok: "length b = n \<Longrightarrow> ok st \<Longrightarrow> length (fst (step st b)) = n \<and> ok (snd (step st b))"
    and crypt: "blocks_of n (b # bs) \<Longrightarrow> length rest < n \<Longrightarrow> ok st \<Longrightarrow>
      crypt same (concat (b # bs) @ rest) st =
        (case mode_run step st (b # bs) of (cs, st) \<Rightarrow> (concat cs, st, length rest))"
begin

lemma run_ok: "ok st \<Longrightarrow> blocks_of n bs \<Longrightarrow> blocks_of n (fst (mode_run step st bs)) \<and> ok (snd (mode_run step st bs))"
  using length_mode_run [of n ok step st bs] step_ok by blast

lemma walk_part:
  assumes "blocks_of n bs" and "length rest < n" and "ok st" and "n \<le> m" and "m \<le> length (concat bs @ rest)"
  shows "crypt same (take m (concat bs @ rest)) st =
      (case mode_run step st (take (m div n) bs) of (cs, st) \<Rightarrow> (concat cs, st, m mod n))"
    and "m div n \<le> length bs" and "1 \<le> m div n"
proof -
  let ?q = "m div n"
  show le: "?q \<le> length bs"
  proof -
    have "m < n * (length bs + 1)" using assms length_concat_blocks [OF assms(1)] by simp
    then have "?q < length bs + 1" by (simp add: less_mult_imp_div_less mult.commute)
    then show ?thesis by simp
  qed
  show one: "1 \<le> ?q" using pos assms(4) by (simp add: less_eq_div_iff_mult_less_eq)
  then obtain b cs where cons: "take ?q bs = b # cs" using le by (cases "take ?q bs") auto
  have "take m (concat bs @ rest) = take (n * ?q) (concat bs @ rest) @ take (m mod n) (drop (n * ?q) (concat bs @ rest))"
    by (simp only: take_add [symmetric] mult_div_mod_eq)
  then have part: "take m (concat bs @ rest) = concat (b # cs) @ take (m mod n) (concat (drop ?q bs) @ rest)"
    by (simp only: concat_blocks_split [OF assms(1) le] cons)
  have "n * ?q + (m mod n) \<le> length (concat bs @ rest)" using assms(5) by simp
  then have "m mod n \<le> length (drop (n * ?q) (concat bs @ rest))"
    unfolding length_drop by (metis add.commute add_le_imp_le_diff)
  then have len: "length (take (m mod n) (concat (drop ?q bs) @ rest)) = m mod n"
    unfolding concat_blocks_split(2) [OF assms(1) le] by simp
  have "blocks_of n (b # cs)" using assms(1) by (metis cons in_set_takeD)
  then show "crypt same (take m (concat bs @ rest)) st =
      (case mode_run step st (take ?q bs) of (cs, st) \<Rightarrow> (concat cs, st, m mod n))"
    using crypt [of b cs "take (m mod n) (concat (drop ?q bs) @ rest)" st same] assms(3) pos len
    by (simp only: part cons) simp
qed

text \<open>From any point of a walk: some of the blocks are processed, all of them unless the walk stops for lack of memory.\<close>

lemma walk_from:
  assumes "blocks_of n bs" and "length rest < n" and "ok st" and "walk_live m w"
  shows "\<exists>k err w'. k \<le> length bs \<and>
    walk_loop m crypt n (concat bs @ rest) st (blkcipher_walk_rest n n m (length (concat bs @ rest)) w) =
      Some (err, concat (fst (mode_run step st (take k bs))), snd (mode_run step st (take k bs)), w') \<and>
    w_iv_copied w' = w_iv_copied w \<and>
    (if k = length bs then err = (if rest = [] then Inr () else Inl EINVAL) \<and> w_released w'
     else walk_stopped m (length (concat bs @ rest) - n * k) err w')"
  using assms
proof (induction "length bs" arbitrary: bs st w rule: less_induct)
  case less
  let ?src = "concat bs @ rest"
  show ?case
  proof (cases "bs = []")
    case True
    then show ?thesis using less.prems(2)
      by (intro exI [of _ 0]) (auto simp: blkcipher_walk_rest_def blkcipher_walk_next_def blkcipher_walk_end_def walk_loop_end)
  next
    case False
    have "n \<le> n * length bs" using False by (cases bs) simp_all
    then have big: "n \<le> length ?src" using length_concat_blocks [OF less.prems(1)] by (simp only: length_append)
    then have tot: "0 < length ?src" "length ?src \<noteq> 0" using pos by linarith+
    have nxt: "blkcipher_walk_rest n n m (length ?src) w = blkcipher_walk_next n n m (length ?src) w"
      using tot(2) by (simp only: blkcipher_walk_rest_def if_True not_False_eq_True)
    show ?thesis
      using big tot(1) pos less.prems(4)
    proof (cases rule: walk_next_cases)
      case (stop err w')
      have "walk_loop m crypt n ?src st (blkcipher_walk_rest n n m (length ?src) w) = Some (err, [], st, w')"
        unfolding nxt stop(1) by (rule walk_loop_end [OF stop(2)])
      then show ?thesis using False stop(3,4) by (intro exI [of _ 0] exI [of _ err] exI [of _ w']) simp
    next
      case (part l same w1)
      have l: "n \<le> l" "l \<le> length ?src" "l \<noteq> 0" using part(4,5) big pos by simp_all
      note p = walk_part [OF less.prems(1-3) l(1,2)]
      let ?q = "l div n"
      obtain cs st1 where run: "mode_run step st (take ?q bs) = (cs, st1)" by fastforce
      have st1: "ok st1" using run_ok [OF less.prems(3), of "take ?q bs"] less.prems(1) run by (auto dest: in_set_takeD)
      have q: "l - l mod n = n * ?q" by (simp add: minus_mod_eq_mult_div)
      have rest: "drop (l - l mod n) ?src = concat (drop ?q bs) @ rest"
        unfolding q by (rule concat_blocks_split(2) [OF less.prems(1) p(2)])
      then have left: "length ?src - (l - l mod n) = length (concat (drop ?q bs) @ rest)" by (metis length_drop)
      have "w_slow w1 \<longrightarrow> l mod n = 0" using part(6) big by (simp add: min_def)
      then have dn: "blkcipher_walk_done n n m (length ?src) w1 l (l mod n) =
          blkcipher_walk_rest n n m (length (concat (drop ?q bs) @ rest)) w1"
        unfolding blkcipher_walk_done_def left by (cases "w_slow w1") simp_all
      have "length (drop ?q bs) < length bs" using p(3) False by simp
      from less.hyps [OF this _ less.prems(2) st1 part(7)] obtain k err w' where
        k: "k \<le> length (drop ?q bs)"
        "walk_loop m crypt n (concat (drop ?q bs) @ rest) st1 (blkcipher_walk_rest n n m (length (concat (drop ?q bs) @ rest)) w1) =
           Some (err, concat (fst (mode_run step st1 (take k (drop ?q bs)))), snd (mode_run step st1 (take k (drop ?q bs))), w')"
        "w_iv_copied w' = w_iv_copied w1"
        "if k = length (drop ?q bs) then err = (if rest = [] then Inr () else Inl EINVAL) \<and> w_released w'
         else walk_stopped m (length (concat (drop ?q bs) @ rest) - n * k) err w'"
        using less.prems(1) by (metis in_set_dropD)
      have whole: "mode_run step st (take (?q + k) bs) =
          (case mode_run step st1 (take k (drop ?q bs)) of (ds, st) \<Rightarrow> (cs @ ds, st))"
        using mode_run_append [of step st "take ?q bs" "take k (drop ?q bs)"] run by (simp add: take_add)
      have "walk_loop m crypt n ?src st (blkcipher_walk_rest n n m (length ?src) w) =
          Option.bind (walk_loop m crypt n (concat (drop ?q bs) @ rest) st1 (blkcipher_walk_rest n n m (length (concat (drop ?q bs) @ rest)) w1))
            (\<lambda>(err, outs, st, walk). Some (err, concat cs @ outs, st, walk))"
        unfolding nxt part(1)
        by (subst walk_loop.simps) (simp only: prod.case part(2,3) option.case l(3) if_False p(1) run rest dn)
      then have "walk_loop m crypt n ?src st (blkcipher_walk_rest n n m (length ?src) w) =
          Some (err, concat (fst (mode_run step st (take (?q + k) bs))), snd (mode_run step st (take (?q + k) bs)), w')"
        unfolding k(2) whole by (simp split: prod.splits)
      moreover have "?q + k \<le> length bs" "?q + k = length bs \<longleftrightarrow> k = length (drop ?q bs)" using k(1) p(2) by auto
      moreover have "length ?src - n * (?q + k) = length (concat (drop ?q bs) @ rest) - n * k"
        unfolding left [symmetric] q by (simp add: add_mult_distrib2)
      ultimately show ?thesis using k(3,4) part(8) by (intro exI [of _ "?q + k"] exI [of _ err] exI [of _ w'] conjI) (simp_all only: if_cancel)
    qed
  qed
qed

lemma mode_outcome:
  assumes "blocks_of n bs" and "length rest < n" and "ok st" and "walk_defined m (length (concat bs @ rest))"
  shows "\<exists>k err st'. k \<le> length bs \<and>
    walk_mode m crypt n (concat bs @ rest) st =
      Some (err, concat (fst (mode_run step st (take k bs))), st') \<and>
    (if k = length bs then err = (if rest = [] then Inr () else Inl EINVAL) \<and> st' = snd (mode_run step st bs)
     else \<exists>w'. walk_stopped m (length (concat bs @ rest) - n * k) err w')"
proof (cases "concat bs @ rest = []")
  case True
  then have "bs = []" "rest = []" using assms(1) pos by (cases bs; auto)+
  then show ?thesis
    using walk_first_empty [of m n n] assms(4) by (auto simp: blkcipher_walk_virt_def walk_loop_end desc_info_def blkcipher_walk_init_def)
next
  case False
  have first: "blkcipher_walk_virt n m (length (concat bs @ rest)) =
      blkcipher_walk_rest n n m (length (concat bs @ rest)) (walk_start m (length (concat bs @ rest)))"
    unfolding blkcipher_walk_virt_def by (rule walk_first_defined [OF assms(4)]) (use False in simp)
  obtain k err w' where k: "k \<le> length bs"
    "walk_loop m crypt n (concat bs @ rest) st (blkcipher_walk_virt n m (length (concat bs @ rest))) =
      Some (err, concat (fst (mode_run step st (take k bs))), snd (mode_run step st (take k bs)), w')"
    "if k = length bs then err = (if rest = [] then Inr () else Inl EINVAL) \<and> w_released w'
     else walk_stopped m (length (concat bs @ rest) - n * k) err w'"
    unfolding first using walk_from [OF assms(1-3) walk_start_live(1)] by blast
  then show ?thesis by (intro exI [of _ k]) (auto simp: desc_info_def split: if_splits)
qed

lemma walk_result:
  assumes "blocks_of n bs" and "length rest < n" and "ok st" and "mem_ok m"
  shows "walk_mode m crypt n (concat bs @ rest) st =
    Some (if rest = [] then Inr () else Inl EINVAL, concat (fst (mode_run step st bs)), snd (mode_run step st bs))"
proof -
  have "walk_defined m (length (concat bs @ rest))" using assms(4) by (auto simp: mem_ok_def walk_defined_def)
  from mode_outcome [OF assms(1-3) this] show ?thesis
    using mem_ok_not_stopped [OF assms(4)] by (auto split: if_split_asm)
qed

lemma memory_result:
  assumes "n dvd length src" and "ok st" and "mem_ok m0"
  shows "memory_outcome m n src (map_option (apsnd fst) (walk_mode m crypt n src st)) (map_option (apsnd fst) (walk_mode m0 crypt n src st))"
proof -
  obtain bs rest where "src = concat bs @ rest" and bs: "blocks_of n bs" and "rest = [] \<longleftrightarrow> n dvd length src"
    using to_blocks [OF pos] by metis
  then have src: "src = concat bs @ []" using assms by simp
  have none: "length ([] :: u8 list) < n" using pos by simp
  let ?cs = "fst (mode_run step st bs)"
  have cs: "blocks_of n ?cs" "length ?cs = length bs" using length_mode_run [of n ok step st bs] bs step_ok assms(2) by auto
  have len: "length src = n * length bs" "length (concat ?cs) = n * length bs"
    using length_concat_blocks [OF bs] length_concat_blocks [OF cs(1)] cs(2) by (simp_all add: src)
  show ?thesis
  proof (rule memory_outcomeI)
    show "map_option (apsnd fst) (walk_mode m0 crypt n src st) = Some (Inr (), concat ?cs)"
      unfolding src walk_result [OF bs none assms(2,3)] by simp
    show "length (concat ?cs) = length src" using len by simp
    show "map_option (apsnd fst) (walk_mode m crypt n src st) = None" if "\<not> walk_defined m (length src)"
      using walk_loop_undefined [OF that] by (simp add: blkcipher_walk_virt_def)
    show "map_option (apsnd fst) (walk_mode m crypt n src st) = Some (Inr (), [])"
      if d: "walk_defined m (length src)" "src \<noteq> []" "\<not> page_ok m" "\<not> aligned_at m (length src)"
    proof -
      have "n \<le> length src" "0 < length src" using d(2) len(1) by (cases bs; auto simp: src)+
      then obtain w where w: "blkcipher_walk_virt n m (length src) = (Inr (), w)" "w_nbytes w = Some 0"
        using walk_first_stalls [OF d(1) _ _ d(3,4), of n n] unfolding blkcipher_walk_virt_def by metis
      then show ?thesis by (simp add: walk_loop_end desc_info_def)
    qed
    show "\<exists>err j. map_option (apsnd fst) (walk_mode m crypt n src st) = Some (err, take j (concat ?cs)) \<and>
        (err = Inr () \<and> j = length src \<or> n dvd j \<and> j < length src \<and> (\<exists>w. walk_stopped m (length src - j) err w))"
      if d: "walk_defined m (length src)"
    proof -
      obtain k err st' where k: "k \<le> length bs" "walk_mode m crypt n src st = Some (err, concat (fst (mode_run step st (take k bs))), st')"
        "if k = length bs then err = Inr () \<and> st' = snd (mode_run step st bs) else \<exists>w'. walk_stopped m (length src - n * k) err w'"
        using mode_outcome [OF bs none assms(2) d [unfolded src]] unfolding src [symmetric] by fastforce
      have "concat (fst (mode_run step st (take k bs))) = take (n * k) (concat ?cs)"
        using concat_blocks_split(1) [OF cs(1), of k "[]"] k(1) cs(2) by (simp add: mode_run_take)
      moreover have "n * k < length src" if "k \<noteq> length bs" using that k(1) pos len(1) by simp
      ultimately show ?thesis using k(2,3) len(1)
        by (intro exI [of _ err] exI [of _ "n * k"]) (auto split: if_split_asm)
    qed
  qed
qed

end

section \<open>Counters\<close>

definition be_val :: "u8 list \<Rightarrow> nat" where
  "be_val bs = foldl (\<lambda>v b. 256 * v + unat b) 0 bs"

lemma be_val_snoc: "be_val (bs @ [b]) = 256 * be_val bs + unat b"
  by (simp add: be_val_def)

lemma be_val_bound: "be_val bs < 256 ^ length bs"
proof (induction bs rule: rev_induct)
  case (snoc b bs)
  have "unat b < 256" using unsigned_less [of b, where 'a = nat] by simp
  then show ?case using snoc by (simp add: be_val_snoc)
qed (simp add: be_val_def)

lemma be_val_inj: "length a = length b \<Longrightarrow> be_val a = be_val b \<Longrightarrow> a = b"
proof (induction a arbitrary: b rule: rev_induct)
  case (snoc x xs)
  then obtain ys y where b: "b = ys @ [y]" by (cases b rule: rev_cases) auto
  have x: "unat x < 256" and y: "unat y < 256"
    using unsigned_less [of x, where 'a = nat] unsigned_less [of y, where 'a = nat] by simp_all
  have "256 * be_val xs + unat x = 256 * be_val ys + unat y" using snoc.prems(2) by (simp add: b be_val_snoc)
  then have "be_val xs = be_val ys" "unat x = unat y"
    using div_mult_self4 [of 256 "be_val xs" "unat x"] div_mult_self4 [of 256 "be_val ys" "unat y"]
      mod_mult_self4 [of 256 "be_val xs" "unat x"] mod_mult_self4 [of 256 "be_val ys" "unat y"] x y by simp_all
  then show ?case using snoc.IH [of ys] snoc.prems(1) by (simp add: b word_unat_eq_iff)
qed simp

lemma load_be32_val: "unat (load_be32 b0 b1 b2 b3) = be_val [b0, b1, b2, b3]"
proof -
  have small: "unat b0 < 256" "unat b1 < 256" "unat b2 < 256" "unat b3 < 256"
    using unsigned_less [of _, where 'a = nat, where 'b = 8] by simp_all
  have cast: "unat (ucast b :: u32) = unat (b :: u8)" for b
    by (rule unat_ucast_small) (use unsigned_less [of b, where 'a = nat] in simp)
  have "load_be32 b0 b1 b2 b3 = word_of_nat (be_val [b0, b1, b2, b3])"
  proof -
    let ?b0 = "push_bit 24 (ucast b0) :: u32" and ?b1 = "push_bit 16 (ucast b1) :: u32" and ?b2 = "push_bit 8 (ucast b2) :: u32"
    have "?b2 + ucast b3 = ?b2 OR ucast b3" "?b1 + (?b2 OR ucast b3) = ?b1 OR ?b2 OR ucast b3"
      "?b0 + (?b1 OR ?b2 OR ucast b3) = ?b0 OR ?b1 OR ?b2 OR ucast b3"
      by (rule disjunctive_add; auto simp: bit_simps dest: bit_imp_le_length)+
    then have "load_be32 b0 b1 b2 b3 = ?b0 + (?b1 + (?b2 + ucast b3))" by (simp only: load_be32_def)
    also have "\<dots> = word_of_nat (be_val [b0, b1, b2, b3])"
      by (simp add: be_val_def push_bit_eq_mult algebra_simps flip: cast)
    finally show ?thesis .
  qed
  then show ?thesis using be_val_bound [of "[b0, b1, b2, b3]"] by (simp add: unat_word_of_nat_small)
qed

lemma be_val_append: "be_val (x @ y) = 256 ^ length y * be_val x + be_val y"
proof (induction y rule: rev_induct)
  case (snoc b y)
  then show ?case by (simp add: be_val_snoc algebra_simps flip: append_assoc)
qed (simp add: be_val_def)

lemma be_val_carry:
  assumes "be_val y + 1 = 256 ^ length y" and "be_val y' = 0" and "length y' = length y"
    and "be_val x' = (be_val x + 1) mod 256 ^ length x"
  shows "be_val (x' @ y') = (be_val (x @ y) + 1) mod 256 ^ length (x @ y)"
proof -
  have "be_val (x @ y) + 1 = 256 ^ length y * (be_val x + 1)" using assms(1) by (simp add: be_val_append)
  then have "(be_val (x @ y) + 1) mod 256 ^ length (x @ y) = 256 ^ length y * ((be_val x + 1) mod 256 ^ length x)"
    by (simp only: length_append power_add mult.commute [of "256 ^ length x"] mult_mod_right)
  then show ?thesis using assms by (simp add: be_val_append)
qed

lemma be_val_no_carry:
  assumes "be_val y' = be_val y + 1" and "length y' = length y"
  shows "be_val (x @ y') = (be_val (x @ y) + 1) mod 256 ^ length (x @ y)"
proof -
  have "be_val (x @ y') < 256 ^ length (x @ y)" using be_val_bound [of "x @ y'"] assms(2) by simp
  then show ?thesis using assms by (simp add: be_val_append)
qed

lemma crypto_inc_byte_snoc:
  "crypto_inc_byte ((x @ [b]) @ z) (length (x @ [b])) =
     (if b + 1 \<noteq> 0 then x @ [b + 1] @ z else crypto_inc_byte (x @ [b + 1] @ z) (length x))"
  by (simp add: Let_def nth_append list_update_append)

lemma crypto_inc_byte_local:
  "crypto_inc_byte (x @ z) (length x) = crypto_inc_byte x (length x) @ z \<and> length (crypto_inc_byte x (length x)) = length x"
proof (induction x arbitrary: z rule: rev_induct)
  case (snoc b x)
  show ?case
    using crypto_inc_byte_snoc [of x b z] crypto_inc_byte_snoc [of x b "[]"] snoc [of "[b + 1] @ z"] snoc [of "[b + 1]"]
    by (auto split: if_splits)
qed simp

lemma unat_add_one: "unat (w + 1 :: 'a::len word) = (if w + 1 = 0 then 0 else unat w + 1)"
  by (auto simp: unatSuc add.commute)

lemma unat_wrap: "(w :: 'a::len word) + 1 = 0 \<Longrightarrow> unat w + 1 = 2 ^ LENGTH('a)"
proof -
  assume "w + 1 = 0"
  then have "(unat w + unat (1 :: 'a word)) mod 2 ^ LENGTH('a) = 0" by (metis unat_0 unat_word_ariths(1))
  then have "2 ^ LENGTH('a) dvd unat w + 1" by (simp add: dvd_eq_mod_eq_0)
  then have "2 ^ LENGTH('a) \<le> unat w + 1" by (rule dvd_imp_le) simp
  then show ?thesis using unsigned_less [of w, where 'a = nat] by linarith
qed

lemma crypto_inc_byte_val: "be_val (crypto_inc_byte x (length x)) = (be_val x + 1) mod 256 ^ length x"
proof (induction x rule: rev_induct)
  case (snoc b x)
  have one: "be_val [c] = unat c" for c by (simp add: be_val_def)
  show ?case
  proof (cases "b + 1 = 0")
    case True
    have "be_val (crypto_inc_byte x (length x) @ [b + 1]) = (be_val (x @ [b]) + 1) mod 256 ^ length (x @ [b])"
      using snoc True unat_wrap [of b] by (intro be_val_carry) (simp_all add: one)
    then show ?thesis
      using True crypto_inc_byte_snoc [of x b "[]"] crypto_inc_byte_local [of x "[b + 1]"] by simp
  next
    case False
    have "be_val (x @ [b + 1]) = (be_val (x @ [b]) + 1) mod 256 ^ length (x @ [b])"
      using False unat_add_one [of b] by (intro be_val_no_carry) (simp_all add: one)
    then show ?thesis using False crypto_inc_byte_snoc [of x b "[]"] by simp
  qed
qed (simp add: be_val_def)

lemma crypto_inc_short: "n < 4 \<Longrightarrow> crypto_inc a n = crypto_inc_byte a n"
  by (cases "(a, n)" rule: crypto_inc.cases) auto

lemma crypto_inc_word:
  "crypto_inc ((x @ [b0, b1, b2, b3]) @ z) (length (x @ [b0, b1, b2, b3])) =
     (let c = load_be32 b0 b1 b2 b3 + 1 in
      if c \<noteq> 0 then x @ store_be32 c @ z else crypto_inc (x @ store_be32 c @ z) (length x))"
proof -
  have "length (x @ [b0, b1, b2, b3]) = Suc (Suc (Suc (Suc (length x))))" by simp
  then show ?thesis by (simp only: crypto_inc.simps) (simp add: nth_append Let_def)
qed

lemma split_last_word:
  assumes "4 \<le> length x" obtains y b0 b1 b2 b3 where "x = y @ [b0, b1, b2, b3]"
proof -
  have "length (drop (length x - 4) x) = 4" using assms by simp
  then obtain b0 b1 b2 b3 where "drop (length x - 4) x = [b0, b1, b2, b3]" by (rule list4_exhaust)
  then show thesis using that by (metis append_take_drop_id)
qed

lemma crypto_inc_local:
  "crypto_inc (x @ z) (length x) = crypto_inc x (length x) @ z \<and> length (crypto_inc x (length x)) = length x"
proof (induction "length x" arbitrary: x z rule: less_induct)
  case less
  show ?case
  proof (cases "length x < 4")
    case True
    then show ?thesis using crypto_inc_byte_local by (simp add: crypto_inc_short)
  next
    case False
    then obtain y b0 b1 b2 b3 where x: "x = y @ [b0, b1, b2, b3]" using split_last_word by (metis not_less)
    then show ?thesis
      using crypto_inc_word [of y b0 b1 b2 b3 z] crypto_inc_word [of y b0 b1 b2 b3 "[]"]
        less [of y "store_be32 (load_be32 b0 b1 b2 b3 + 1) @ z"] less [of y "store_be32 (load_be32 b0 b1 b2 b3 + 1)"]
      by (auto simp: Let_def split: if_splits)
  qed
qed

lemma be_val_store: "be_val (store_be32 w) = unat w"
  using load_be32_val [of "ucast (drop_bit 24 w)" "ucast (drop_bit 16 w)" "ucast (drop_bit 8 w)" "ucast w"]
  by (simp add: store_be32_def)

lemma crypto_inc_val: "be_val (crypto_inc x (length x)) = (be_val x + 1) mod 256 ^ length x"
proof (induction "length x" arbitrary: x rule: less_induct)
  case less
  show ?case
  proof (cases "length x < 4")
    case True
    then show ?thesis using crypto_inc_byte_val by (simp add: crypto_inc_short)
  next
    case False
    then obtain y b0 b1 b2 b3 where x: "x = y @ [b0, b1, b2, b3]" using split_last_word by (metis not_less)
    let ?w = "load_be32 b0 b1 b2 b3"
    have w: "be_val [b0, b1, b2, b3] = unat ?w" by (simp add: load_be32_val)
    show ?thesis
    proof (cases "?w + 1 = 0")
      case True
      have "be_val (crypto_inc y (length y) @ store_be32 (?w + 1)) = (be_val x + 1) mod 256 ^ length x"
        unfolding x using less [of y] True unat_wrap [of ?w]
        by (intro be_val_carry) (simp_all add: w be_val_store x)
      then show ?thesis
        using True crypto_inc_word [of y b0 b1 b2 b3 "[]"] crypto_inc_local [of y "store_be32 (?w + 1)"]
        by (simp add: x Let_def)
    next
      case False
      have "be_val (y @ store_be32 (?w + 1)) = (be_val x + 1) mod 256 ^ length x"
        unfolding x using False unat_add_one [of ?w]
        by (intro be_val_no_carry) (simp_all add: w be_val_store)
      then show ?thesis using False crypto_inc_word [of y b0 b1 b2 b3 "[]"] by (simp add: x Let_def)
    qed
  qed
qed

section \<open>Modes over an invertible cipher\<close>

text \<open>Two modes of which one undoes the other, over any two layouts.\<close>

locale inverse_modes = e: block_mode n crypt_e enc_step ok + d: block_mode n crypt_d dec_step ok
  for n :: nat and crypt_e crypt_d :: "'st crypt_fn"
    and enc_step dec_step :: "'st \<Rightarrow> u8 list \<Rightarrow> u8 list \<times> 'st" and ok :: "'st \<Rightarrow> bool" +
  assumes step_inverse: "length b = n \<Longrightarrow> ok st \<Longrightarrow> dec_step st (fst (enc_step st b)) = (b, snd (enc_step st b))"
begin

lemma roundtrip:
  assumes "ok st" and "n dvd length src" and mem: "mem_ok layout" "mem_ok layout'"
  shows "\<exists>out st'. walk_mode layout crypt_e n src st = Some (Inr (), out, st') \<and> walk_mode layout' crypt_d n out st = Some (Inr (), src, st')"
proof -
  obtain bs rest where "src = concat bs @ rest" and bs: "blocks_of n bs" and "rest = [] \<longleftrightarrow> n dvd length src"
    using to_blocks [OF e.pos] by metis
  then have src: "src = concat bs @ []" using assms by simp
  obtain cs st' where run: "mode_run enc_step st bs = (cs, st')" by fastforce
  have cs: "blocks_of n cs" using length_mode_run [of n ok enc_step st bs] bs run e.step_ok assms(1) by auto
  have inv: "mode_run dec_step st cs = (bs, st')"
    using mode_run_inverse [of n ok dec_step enc_step st bs] bs run e.step_ok step_inverse assms(1) by simp
  have "walk_mode layout crypt_e n src st = Some (Inr (), concat cs, st')"
    unfolding src using e.walk_result [OF bs _ assms(1) mem(1), of "[]"] e.pos run by simp
  moreover have "walk_mode layout' crypt_d n (concat cs) st = Some (Inr (), src, st')"
    unfolding src using d.walk_result [OF cs _ assms(1) mem(2), of "[]"] e.pos inv by simp
  ultimately show ?thesis by blast
qed

lemma bad_length:
  assumes "ok st" and "\<not> n dvd length src" and mem: "mem_ok layout"
  shows "map_option fst (walk_mode layout crypt_e n src st) = Some (Inl EINVAL)" and "map_option fst (walk_mode layout crypt_d n src st) = Some (Inl EINVAL)"
proof -
  obtain bs rest where src: "src = concat bs @ rest" and bs: "blocks_of n bs" "length rest < n" and "rest = [] \<longleftrightarrow> n dvd length src"
    using to_blocks [OF e.pos] by metis
  then have "rest \<noteq> []" using assms(2) by simp
  then show "map_option fst (walk_mode layout crypt_e n src st) = Some (Inl EINVAL)" "map_option fst (walk_mode layout crypt_d n src st) = Some (Inl EINVAL)"
    unfolding src e.walk_result [OF bs assms(1) mem] d.walk_result [OF bs assms(1) mem] by simp_all
qed

end

locale block_cipher =
  fixes n :: nat and enc dec :: "u8 list \<Rightarrow> u8 list"
  assumes pow2: "\<exists>k. n = 2 ^ k"
    and enc_length: "length b = n \<Longrightarrow> length (enc b) = n"
    and dec_length: "length b = n \<Longrightarrow> length (dec b) = n"
    and dec_enc: "length b = n \<Longrightarrow> dec (enc b) = b"
begin

lemma pos: "0 < n"
  using pow2 by auto

lemma inc_length: "length x = n \<Longrightarrow> length (crypto_inc x n) = n"
  using crypto_inc_local [of x "[]"] by auto

end

sublocale block_cipher \<subseteq> ecb_enc: block_mode n
    "\<lambda>same part st. case ecb_crypt_loop enc n (length part) part of (out, left) \<Rightarrow> (out, st, left)"
    "ecb_step enc" "\<lambda>_. True"
  by unfold_locales (simp_all only: pos ecb_crypt_loop_eq, simp_all add: ecb_step_def enc_length split: prod.splits)

sublocale block_cipher \<subseteq> ecb_dec: block_mode n
    "\<lambda>same part st. case ecb_crypt_loop dec n (length part) part of (out, left) \<Rightarrow> (out, st, left)"
    "ecb_step dec" "\<lambda>_. True"
  by unfold_locales (simp_all only: pos ecb_crypt_loop_eq, simp_all add: ecb_step_def dec_length split: prod.splits)

lemma cbc_encrypt_inplace_eq:
  assumes "0 < n" and "blocks_of n (b # bs)" and "length rest < n" and "length iv = n"
    and fn: "\<And>x. length x = n \<Longrightarrow> length (fn x) = n"
  shows "cbc_encrypt_inplace fn n (concat (b # bs) @ rest) iv =
    (case mode_run (cbc_enc fn) iv (b # bs) of (cs, iv) \<Rightarrow> (concat cs, iv, length rest))"
proof -
  obtain ptr where "cbc_encrypt_inplace_loop fn n iv (length (concat (b # bs) @ rest)) (concat (b # bs) @ rest) 0 Walk_iv =
      (concat (fst (mode_run (cbc_enc fn) iv (b # bs))) @ rest, ptr, length rest)"
    "iv_read iv (concat (fst (mode_run (cbc_enc fn) iv (b # bs))) @ rest) n ptr = snd (mode_run (cbc_enc fn) iv (b # bs))"
    using cbc_encrypt_inplace_loop_eq [of n b bs rest iv iv "[]" Walk_iv fn] assms by auto
  then show ?thesis
    by (simp only: cbc_encrypt_inplace_def prod.case) (simp split: prod.splits)
qed

sublocale block_cipher \<subseteq> cbc_encr: block_mode n
    "\<lambda>same part iv. if same then cbc_encrypt_inplace enc n part iv else cbc_encrypt_segment enc n (length part) part iv"
    "cbc_enc enc" "\<lambda>iv. length iv = n"
  by unfold_locales
    (simp_all only: pos enc_length cbc_encrypt_inplace_eq cbc_encrypt_segment_eq if_cancel,
     simp add: cbc_enc_def Let_def enc_length)

lemma take_run:
  assumes "mode_run step iv bs = (cs, iv')" and "blocks_of n bs" and "length iv = n"
    and "\<And>iv b. length b = n \<Longrightarrow> length iv = n \<Longrightarrow> length (fst (step iv b)) = n \<and> length (snd (step iv b)) = n"
  shows "take (length (concat bs @ rest) - length rest) (concat cs @ rest) = concat cs"
proof -
  have "blocks_of n cs \<and> length cs = length bs"
    using length_mode_run [of n "\<lambda>iv. length iv = n" step iv bs] assms by simp
  then show ?thesis using length_concat_blocks [of cs n] length_concat_blocks [OF assms(2)] by simp
qed

lemma pcbc_encrypt_inplace_part:
  assumes "0 < n" and "blocks_of n (b # bs)" and "length rest < n" and "length iv = n"
    and fn: "\<And>x. length x = n \<Longrightarrow> length (fn x) = n"
  shows "(case pcbc_encrypt_inplace fn n (length (concat (b # bs) @ rest)) (concat (b # bs) @ rest) 0 iv of
      (buf, iv, left) \<Rightarrow> (take (length (concat (b # bs) @ rest) - left) buf, iv, left)) =
    (case mode_run (pcbc_enc fn) iv (b # bs) of (cs, iv) \<Rightarrow> (concat cs, iv, length rest))"
proof -
  obtain cs iv' where run: "mode_run (pcbc_enc fn) iv (b # bs) = (cs, iv')" by fastforce
  have "take (length (concat (b # bs) @ rest) - length rest) (concat cs @ rest) = concat cs"
    by (rule take_run [OF run assms(2,4)]) (simp add: pcbc_enc_def Let_def fn)
  then show ?thesis
    using pcbc_encrypt_inplace_eq [of n b bs rest iv fn "[]", OF assms(1-4) fn] run by (simp only: append_Nil list.size prod.case)
qed

lemma pcbc_decrypt_inplace_part:
  assumes "0 < n" and "blocks_of n (b # bs)" and "length rest < n" and "length iv = n"
    and fn: "\<And>x. length x = n \<Longrightarrow> length (fn x) = n"
  shows "(case pcbc_decrypt_inplace fn n (length (concat (b # bs) @ rest)) (concat (b # bs) @ rest) 0 iv of
      (buf, iv, left) \<Rightarrow> (take (length (concat (b # bs) @ rest) - left) buf, iv, left)) =
    (case mode_run (pcbc_dec fn) iv (b # bs) of (cs, iv) \<Rightarrow> (concat cs, iv, length rest))"
proof -
  obtain cs iv' where run: "mode_run (pcbc_dec fn) iv (b # bs) = (cs, iv')" by fastforce
  have "take (length (concat (b # bs) @ rest) - length rest) (concat cs @ rest) = concat cs"
    by (rule take_run [OF run assms(2,4)]) (simp add: pcbc_dec_def Let_def fn)
  then show ?thesis
    using pcbc_decrypt_inplace_eq [of n b bs rest iv fn "[]", OF assms(1-4) fn] run by (simp only: append_Nil list.size prod.case)
qed

lemma ctr_crypt_inplace_part:
  assumes "0 < n" and "blocks_of n (b # bs)" and "length rest < n" and "length iv = n"
    and fn: "\<And>x. length x = n \<Longrightarrow> length (fn x) = n" and inc: "\<And>x. length x = n \<Longrightarrow> length (crypto_inc x n) = n"
  shows "(case ctr_crypt_inplace fn n (length (concat (b # bs) @ rest)) (concat (b # bs) @ rest) 0 iv of
      (buf, iv, left) \<Rightarrow> (take (length (concat (b # bs) @ rest) - left) buf, iv, left)) =
    (case mode_run (ctr_step fn) iv (b # bs) of (cs, iv) \<Rightarrow> (concat cs, iv, length rest))"
proof -
  obtain cs iv' where run: "mode_run (ctr_step fn) iv (b # bs) = (cs, iv')" by fastforce
  have "take (length (concat (b # bs) @ rest) - length rest) (concat cs @ rest) = concat cs"
    by (rule take_run [OF run assms(2,4)]) (simp add: ctr_step_def fn inc)
  then show ?thesis
    using ctr_crypt_inplace_eq [of n b bs rest iv fn "[]", OF assms(1-4) fn inc] run by (simp only: append_Nil list.size prod.case)
qed

lemma cbc_decrypt_inplace_part:
  assumes "\<exists>k. n = 2 ^ k" and "blocks_of n (b # bs)" and "length rest < n" and "length iv = n"
    and fn: "\<And>x. length x = n \<Longrightarrow> length (fn x) = n"
  shows "cbc_decrypt_inplace fn n (concat (b # bs) @ rest) iv =
    (case mode_run (cbc_dec fn) iv (b # bs) of (cs, iv) \<Rightarrow> (concat cs, iv, length rest))"
  using assms(1) cbc_decrypt_inplace_eq [of n _ b bs rest iv fn, OF _ assms(2-4) fn] by blast

sublocale block_cipher \<subseteq> cbc_decr: block_mode n
    "\<lambda>same part iv. if same then cbc_decrypt_inplace dec n part iv else cbc_decrypt_segment dec n (length part) part iv"
    "cbc_dec dec" "\<lambda>iv. length iv = n"
  by unfold_locales
    (simp_all only: pos pow2 dec_length cbc_decrypt_inplace_part cbc_decrypt_segment_eq if_cancel,
     simp add: cbc_dec_def dec_length)

sublocale block_cipher \<subseteq> pcbc_encr: block_mode n
    "\<lambda>same part iv. if same then
       (case pcbc_encrypt_inplace enc n (length part) part 0 iv of (buf, iv, left) \<Rightarrow> (take (length part - left) buf, iv, left))
     else pcbc_encrypt_segment enc n (length part) part iv"
    "pcbc_enc enc" "\<lambda>iv. length iv = n"
  by unfold_locales
    (simp_all only: pos enc_length pcbc_encrypt_inplace_part pcbc_encrypt_segment_eq if_cancel,
     simp add: pcbc_enc_def Let_def enc_length)

sublocale block_cipher \<subseteq> pcbc_decr: block_mode n
    "\<lambda>same part iv. if same then
       (case pcbc_decrypt_inplace dec n (length part) part 0 iv of (buf, iv, left) \<Rightarrow> (take (length part - left) buf, iv, left))
     else pcbc_decrypt_segment dec n (length part) part iv"
    "pcbc_dec dec" "\<lambda>iv. length iv = n"
  by unfold_locales
    (simp_all only: pos dec_length pcbc_decrypt_inplace_part pcbc_decrypt_segment_eq if_cancel,
     simp add: pcbc_dec_def Let_def dec_length)

sublocale block_cipher \<subseteq> ctr_mode: block_mode n
    "\<lambda>same part iv. if same then
       (case ctr_crypt_inplace enc n (length part) part 0 iv of (buf, iv, left) \<Rightarrow> (take (length part - left) buf, iv, left))
     else ctr_crypt_segment enc n (length part) part iv"
    "ctr_step enc" "\<lambda>iv. length iv = n"
  by unfold_locales
    (simp_all only: pos enc_length inc_length ctr_crypt_inplace_part ctr_crypt_segment_eq if_cancel,
     simp add: ctr_step_def enc_length inc_length)

sublocale block_cipher \<subseteq> ecb: inverse_modes n
    "\<lambda>same part st. case ecb_crypt_loop enc n (length part) part of (out, left) \<Rightarrow> (out, st, left)"
    "\<lambda>same part st. case ecb_crypt_loop dec n (length part) part of (out, left) \<Rightarrow> (out, st, left)"
    "ecb_step enc" "ecb_step dec" "\<lambda>_. True"
  by unfold_locales (simp add: ecb_step_def dec_enc)

sublocale block_cipher \<subseteq> cbc: inverse_modes n
    "\<lambda>same part iv. if same then cbc_encrypt_inplace enc n part iv else cbc_encrypt_segment enc n (length part) part iv"
    "\<lambda>same part iv. if same then cbc_decrypt_inplace dec n part iv else cbc_decrypt_segment dec n (length part) part iv"
    "cbc_enc enc" "cbc_dec dec" "\<lambda>iv. length iv = n"
  by unfold_locales (simp add: cbc_enc_def cbc_dec_def Let_def dec_enc)

sublocale block_cipher \<subseteq> pcbc: inverse_modes n
    "\<lambda>same part iv. if same then
       (case pcbc_encrypt_inplace enc n (length part) part 0 iv of (buf, iv, left) \<Rightarrow> (take (length part - left) buf, iv, left))
     else pcbc_encrypt_segment enc n (length part) part iv"
    "\<lambda>same part iv. if same then
       (case pcbc_decrypt_inplace dec n (length part) part 0 iv of (buf, iv, left) \<Rightarrow> (take (length part - left) buf, iv, left))
     else pcbc_decrypt_segment dec n (length part) part iv"
    "pcbc_enc enc" "pcbc_dec dec" "\<lambda>iv. length iv = n"
  by unfold_locales (simp add: pcbc_enc_def pcbc_dec_def Let_def dec_enc)

context block_cipher
begin

definition ctr_spec :: "u8 list list \<Rightarrow> u8 list \<Rightarrow> u8 list \<Rightarrow> u8 list \<times> u8 list" where
  "ctr_spec bs rest iv = (case mode_run (ctr_step enc) iv bs of (cs, iv) \<Rightarrow>
     if rest = [] then (concat cs, iv) else (concat cs @ bxor (enc iv) rest, crypto_inc iv n))"

text \<open>From any point of a walk in CTR mode: everything is processed, or whole blocks until the walk stops for lack of memory.\<close>

lemma ctr_last:
  assumes "rest \<noteq> []" and "length rest < n" and "length iv = n" and "walk_live m w"
  shows "\<exists>err w' out iv'. ctr_crypt_walk enc n m rest iv (blkcipher_walk_rest 1 n m (length rest) w) = Some (err, out, iv', w') \<and>
    (err = Inr () \<and> w_released w' \<and> out = bxor (enc iv) rest \<and> iv' = crypto_inc iv n \<or> out = [] \<and> walk_stopped m (length rest) err w')"
proof -
  have tot: "1 \<le> length rest" "0 < length rest" using assms(1) by (simp_all add: Suc_le_eq)
  have nxt: "blkcipher_walk_rest 1 n m (length rest) w = blkcipher_walk_next 1 n m (length rest) w"
    using assms(1) by (simp add: blkcipher_walk_rest_def)
  show ?thesis
    using tot pos assms(4)
  proof (cases rule: walk_next_cases)
    case (stop err w')
    then show ?thesis unfolding nxt by (subst ctr_crypt_walk.simps) (use pos in simp)
  next
    case (part l same w1)
    have l: "l = length rest" using part(4,5) assms(2) by simp
    have dn: "blkcipher_walk_done 1 n m (length rest) w1 (length rest) 0 = blkcipher_walk_end (Inr ()) w1"
      by (simp add: blkcipher_walk_done_def blkcipher_walk_rest_def)
    have "length (enc iv) = n" using enc_length assms(3) by blast
    then have "ctr_crypt_final enc n rest iv = (bxor (enc iv) rest, crypto_inc iv n)"
      using assms(2) by (simp add: ctr_crypt_final_def Let_def crypto_xor_eq bxor_take)
    then show ?thesis unfolding nxt part(1)
      by (subst ctr_crypt_walk.simps) (use part(2,3) assms(1,2) dn in \<open>simp add: l blkcipher_walk_end_def\<close>)
  qed
qed

lemma ctr_from:
  assumes "blocks_of n bs" and "length rest < n" and "length iv = n" and "walk_live m w"
  shows "\<exists>err out iv' w'. ctr_crypt_walk enc n m (concat bs @ rest) iv (blkcipher_walk_rest 1 n m (length (concat bs @ rest)) w) =
      Some (err, out, iv', w') \<and>
    (err = Inr () \<and> w_released w' \<and>
       (out, iv') = ctr_spec bs rest iv \<or>
     (\<exists>k \<le> length bs. n * k < length (concat bs @ rest) \<and> out = concat (fst (mode_run (ctr_step enc) iv (take k bs))) \<and>
        walk_stopped m (length (concat bs @ rest) - n * k) err w'))"
  using assms
proof (induction "length bs" arbitrary: bs iv w rule: less_induct)
  case less
  let ?src = "concat bs @ rest"
  show ?case
  proof (cases "bs = []")
    case True
    show ?thesis
    proof (cases "rest = []")
      case True
      then show ?thesis using \<open>bs = []\<close> pos
        by (subst ctr_crypt_walk.simps) (simp add: ctr_spec_def blkcipher_walk_rest_def blkcipher_walk_end_def)
    next
      case False
      from ctr_last [OF this less.prems(2-4)] show ?thesis using \<open>bs = []\<close> False by (auto simp: ctr_spec_def)
    qed
  next
    case False
    have "n \<le> n * length bs" using False by (cases bs) simp_all
    then have big: "n \<le> length ?src" using length_concat_blocks [OF less.prems(1)] by (simp only: length_append)
    then have tot: "1 \<le> length ?src" "0 < length ?src" "length ?src \<noteq> 0" using pos by linarith+
    have nxt: "blkcipher_walk_rest 1 n m (length ?src) w = blkcipher_walk_next 1 n m (length ?src) w"
      using tot(3) by (simp only: blkcipher_walk_rest_def if_True not_False_eq_True)
    show ?thesis
      using tot(1,2) pos less.prems(4)
    proof (cases rule: walk_next_cases)
      case (stop err w')
      have "ctr_crypt_walk enc n m ?src iv (blkcipher_walk_rest 1 n m (length ?src) w) = Some (err, [], iv, w')"
        unfolding nxt stop(1) by (subst ctr_crypt_walk.simps) (use stop(2) pos in simp)
      then show ?thesis using stop(3) tot(2)
        by (intro exI [of _ err] exI [of _ "[]"] exI [of _ iv] exI [of _ w'] conjI disjI2 exI [of _ 0]) simp_all
    next
      case (part l same w1)
      have l: "n \<le> l" "l \<le> length ?src" using part(4,5) big by simp_all
      note p = ctr_mode.walk_part [OF less.prems(1-3) l]
      let ?q = "l div n"
      obtain cs iv1 where run: "mode_run (ctr_step enc) iv (take ?q bs) = (cs, iv1)" by fastforce
      have iv1: "length iv1 = n" using ctr_mode.run_ok [OF less.prems(3), of "take ?q bs"] less.prems(1) run by (auto dest: in_set_takeD)
      have q: "l - l mod n = n * ?q" by (simp add: minus_mod_eq_mult_div)
      have rest: "drop (l - l mod n) ?src = concat (drop ?q bs) @ rest"
        unfolding q by (rule concat_blocks_split(2) [OF less.prems(1) p(2)])
      then have left: "length ?src - (l - l mod n) = length (concat (drop ?q bs) @ rest)" by (metis length_drop)
      have "w_slow w1 \<longrightarrow> l mod n = 0" using part(6) big by (simp add: min_def)
      then have dn: "blkcipher_walk_done 1 n m (length ?src) w1 l (l mod n) =
          blkcipher_walk_rest 1 n m (length (concat (drop ?q bs) @ rest)) w1"
        unfolding blkcipher_walk_done_def left by (cases "w_slow w1") simp_all
      have "length (drop ?q bs) < length bs" "blocks_of n (drop ?q bs)" using p(3) False less.prems(1) by (auto dest: in_set_dropD)
      note IH0 = less.hyps [OF this less.prems(2) iv1 part(7)]
      obtain err out iv' w' where
        IH: "ctr_crypt_walk enc n m (concat (drop ?q bs) @ rest) iv1 (blkcipher_walk_rest 1 n m (length (concat (drop ?q bs) @ rest)) w1) =
           Some (err, out, iv', w')"
        "err = Inr () \<and> w_released w' \<and>
           (out, iv') = ctr_spec (drop ?q bs) rest iv1 \<or>
         (\<exists>k \<le> length (drop ?q bs). n * k < length (concat (drop ?q bs) @ rest) \<and>
            out = concat (fst (mode_run (ctr_step enc) iv1 (take k (drop ?q bs)))) \<and>
            walk_stopped m (length (concat (drop ?q bs) @ rest) - n * k) err w')"
        using IH0 by (elim exE conjE) (rule that)
      have "ctr_crypt_walk enc n m ?src iv (blkcipher_walk_rest 1 n m (length ?src) w) =
          Option.bind (ctr_crypt_walk enc n m (concat (drop ?q bs) @ rest) iv1 (blkcipher_walk_rest 1 n m (length (concat (drop ?q bs) @ rest)) w1))
            (\<lambda>(err, outs, st, walk). Some (err, concat cs @ outs, st, walk))"
        unfolding nxt part(1)
        by (subst ctr_crypt_walk.simps) (simp only: prod.case part(2,3) option.case l(1) if_True p(1) run rest dn)
      then have walk: "ctr_crypt_walk enc n m ?src iv (blkcipher_walk_rest 1 n m (length ?src) w) = Some (err, concat cs @ out, iv', w')"
        unfolding IH(1) by simp
      have app: "mode_run (ctr_step enc) iv (take (?q + k) bs) =
          (case mode_run (ctr_step enc) iv1 (take k (drop ?q bs)) of (ds, iv) \<Rightarrow> (cs @ ds, iv))" for k
        using mode_run_append [of "ctr_step enc" iv "take ?q bs" "take k (drop ?q bs)"] run by (simp add: take_add)
      have lens: "length ?src - n * (?q + k) = length (concat (drop ?q bs) @ rest) - n * k" for k
        unfolding left [symmetric] q by (simp add: add_mult_distrib2)
      have "n * ?q \<le> length ?src" using l(2) q by simp
      then have less: "n * (?q + k) < length ?src \<longleftrightarrow> n * k < length (concat (drop ?q bs) @ rest)" for k
        unfolding left [symmetric] q by (simp only: add_mult_distrib2) linarith
      from IH(2) show ?thesis
      proof (elim disjE exE conjE)
        assume "err = Inr ()" "w_released w'" "(out, iv') = ctr_spec (drop ?q bs) rest iv1"
        moreover from this have "ctr_spec bs rest iv = (concat cs @ out, iv')"
          using app [of "length bs"] by (auto simp: ctr_spec_def split: prod.splits if_split_asm)
        ultimately show ?thesis using walk by (intro exI conjI disjI1) auto
      next
        fix k assume "k \<le> length (drop ?q bs)" "n * k < length (concat (drop ?q bs) @ rest)"
          "out = concat (fst (mode_run (ctr_step enc) iv1 (take k (drop ?q bs))))"
          "walk_stopped m (length (concat (drop ?q bs) @ rest) - n * k) err w'"
        moreover from this have "concat cs @ out = concat (fst (mode_run (ctr_step enc) iv (take (?q + k) bs)))"
          by (simp add: app split: prod.splits)
        moreover have "?q + k \<le> length bs" using p(2) \<open>k \<le> length (drop ?q bs)\<close> by simp
        ultimately show ?thesis using walk less [of k] lens [of k] by metis
      qed
    qed
  qed
qed

lemma ctr_outcome:
  assumes "blocks_of n bs" and "length rest < n" and "length iv = n" and "walk_defined m (length (concat bs @ rest))"
  shows "\<exists>err out iv'. crypto_ctr_crypt enc n m (concat bs @ rest) iv = Some (err, out, iv') \<and>
    (err = Inr () \<and>
       (out, iv') = ctr_spec bs rest iv \<or>
     (\<exists>k \<le> length bs. n * k < length (concat bs @ rest) \<and> out = concat (fst (mode_run (ctr_step enc) iv (take k bs))) \<and>
        (\<exists>w'. walk_stopped m (length (concat bs @ rest) - n * k) err w')))"
proof (cases "concat bs @ rest = []")
  case True
  then have "bs = []" "rest = []" using assms(1) pos by (cases bs; auto)+
  then show ?thesis using walk_first_empty [of m 1 n] assms(4) pos
    by (simp add: ctr_spec_def crypto_ctr_crypt_def blkcipher_walk_virt_block_def ctr_crypt_walk.simps desc_info_def blkcipher_walk_init_def)
next
  case False
  have first: "blkcipher_walk_virt_block 1 n m (length (concat bs @ rest)) =
      blkcipher_walk_rest 1 n m (length (concat bs @ rest)) (walk_start m (length (concat bs @ rest)))"
    unfolding blkcipher_walk_virt_block_def by (rule walk_first_defined [OF assms(4)]) (use False in simp)
  obtain err out iv' w' where r: "ctr_crypt_walk enc n m (concat bs @ rest) iv (blkcipher_walk_virt_block 1 n m (length (concat bs @ rest))) =
      Some (err, out, iv', w')"
    "err = Inr () \<and> w_released w' \<and>
       (out, iv') = ctr_spec bs rest iv \<or>
     (\<exists>k \<le> length bs. n * k < length (concat bs @ rest) \<and> out = concat (fst (mode_run (ctr_step enc) iv (take k bs))) \<and>
        walk_stopped m (length (concat bs @ rest) - n * k) err w')"
    using ctr_from [OF assms(1-3) walk_start_live(1) [of m "length (concat bs @ rest)"]] unfolding first [symmetric]
    by (elim exE conjE) (rule that)
  from r(1) have "crypto_ctr_crypt enc n m (concat bs @ rest) iv = Some (desc_info iv (err, out, iv', w'))"
    by (simp add: crypto_ctr_crypt_def)
  then obtain iv2 where "crypto_ctr_crypt enc n m (concat bs @ rest) iv = Some (err, out, iv2)" "w_released w' \<Longrightarrow> iv2 = iv'"
    by (simp add: desc_info_def)
  then show ?thesis using r(2) by (elim disjE) (intro exI conjI disjI1, auto)+
qed

lemma ctr_result:
  assumes "blocks_of n bs" and "length rest < n" and "length iv = n" and mem: "mem_ok m"
  shows "crypto_ctr_crypt enc n m (concat bs @ rest) iv =
    (case mode_run (ctr_step enc) iv bs of (cs, iv) \<Rightarrow>
       if rest = [] then Some (Inr (), concat cs, iv) else Some (Inr (), concat cs @ bxor (enc iv) rest, crypto_inc iv n))"
proof -
  have "walk_defined m (length (concat bs @ rest))" using mem by (auto simp: mem_ok_def walk_defined_def)
  from ctr_outcome [OF assms(1-3) this] show ?thesis
    using mem_ok_not_stopped [OF mem] by (auto simp: ctr_spec_def split: prod.splits if_split_asm)
qed

lemma ctr_memory:
  assumes "length iv = n" and "mem_ok m0"
  shows "memory_outcome m n src (map_option (apsnd fst) (crypto_ctr_crypt enc n m src iv)) (map_option (apsnd fst) (crypto_ctr_crypt enc n m0 src iv))"
proof -
  obtain bs rest where src: "src = concat bs @ rest" and bs: "blocks_of n bs" "length rest < n"
    using to_blocks [OF pos] by metis
  obtain cs iv1 where run: "mode_run (ctr_step enc) iv bs = (cs, iv1)" by fastforce
  have cs: "blocks_of n cs" "length cs = length bs" and iv1: "length iv1 = n"
    using length_mode_run [of n "\<lambda>iv. length iv = n" "ctr_step enc" iv bs] bs run ctr_mode.step_ok assms by auto
  let ?out = "concat cs @ (if rest = [] then [] else bxor (enc iv1) rest)"
  have len: "length ?out = length src"
    using length_concat_blocks [OF bs(1)] length_concat_blocks [OF cs(1)] cs(2) enc_length [OF iv1] bs(2) by (simp add: src)
  show ?thesis
  proof (rule memory_outcomeI)
    show "map_option (apsnd fst) (crypto_ctr_crypt enc n m0 src iv) = Some (Inr (), ?out)"
      unfolding src ctr_result [OF bs assms] run by simp
    show "length ?out = length src" by (rule len)
    show "map_option (apsnd fst) (crypto_ctr_crypt enc n m src iv) = None" if "\<not> walk_defined m (length src)"
    proof (rule walk_first_undefined [OF that, of 1 n])
      fix err w assume "blkcipher_walk_first 1 n m (length src) = (err, w)"
        "w_nbytes w = None \<or> w_nbytes w = Some (length src) \<and> 0 < length src \<and> w_same w = None"
      then show ?thesis by (auto simp: crypto_ctr_crypt_def blkcipher_walk_virt_block_def ctr_crypt_walk.simps)
    qed
    show "map_option (apsnd fst) (crypto_ctr_crypt enc n m src iv) = Some (Inr (), [])"
      if d: "walk_defined m (length src)" "src \<noteq> []" "\<not> page_ok m" "\<not> aligned_at m (length src)"
    proof -
      have "1 \<le> length src" "0 < length src" using d(2) by (simp_all add: Suc_le_eq)
      then obtain w where "blkcipher_walk_virt_block 1 n m (length src) = (Inr (), w)" "w_nbytes w = Some 0"
        using walk_first_stalls [OF d(1) _ _ d(3,4)] unfolding blkcipher_walk_virt_block_def by metis
      then show ?thesis using pos by (simp add: crypto_ctr_crypt_def ctr_crypt_walk.simps desc_info_def)
    qed
    show "\<exists>err j. map_option (apsnd fst) (crypto_ctr_crypt enc n m src iv) = Some (err, take j ?out) \<and>
        (err = Inr () \<and> j = length src \<or> n dvd j \<and> j < length src \<and> (\<exists>w. walk_stopped m (length src - j) err w))"
      if d: "walk_defined m (length src)"
    proof -
      have pre: "concat (fst (mode_run (ctr_step enc) iv (take k bs))) = take (n * k) ?out" if "k \<le> length bs" for k
        using concat_blocks_split(1) [OF cs(1), of k "if rest = [] then [] else bxor (enc iv1) rest"] that cs(2) run
        by (simp only: mode_run_take fst_conv)
      obtain err out iv' where r: "crypto_ctr_crypt enc n m src iv = Some (err, out, iv')"
        "err = Inr () \<and> (out, iv') = (if rest = [] then (concat cs, iv1) else (concat cs @ bxor (enc iv1) rest, crypto_inc iv1 n)) \<or>
         (\<exists>k \<le> length bs. n * k < length src \<and> out = concat (fst (mode_run (ctr_step enc) iv (take k bs))) \<and>
            (\<exists>w'. walk_stopped m (length src - n * k) err w'))"
        using ctr_outcome [OF bs assms(1) d [unfolded src]] unfolding src [symmetric] ctr_spec_def run prod.case by (elim exE conjE) (rule that)
      from r(2) show ?thesis
      proof (elim disjE exE conjE)
        assume "err = Inr ()" "(out, iv') = (if rest = [] then (concat cs, iv1) else (concat cs @ bxor (enc iv1) rest, crypto_inc iv1 n))"
        then have "out = take (length src) ?out" using len by (auto split: if_split_asm)
        then show ?thesis using r(1) \<open>err = Inr ()\<close> by (intro exI [of _ err] exI [of _ "length src"]) simp
      next
        fix k w' assume "k \<le> length bs" "n * k < length src" "out = concat (fst (mode_run (ctr_step enc) iv (take k bs)))"
          "walk_stopped m (length src - n * k) err w'"
        then show ?thesis using r(1) pre [of k] by (intro exI [of _ err] exI [of _ "n * k"]) auto
      qed
    qed
  qed
qed

lemma ecb_as_mode:
  "crypto_ecb_crypt fn n m src = map_option (apsnd fst) (walk_mode m
     (\<lambda>same part st. case ecb_crypt_loop fn n (length part) part of (out, left) \<Rightarrow> (out, st, left)) n src ())"
  by (cases "walk_loop m (\<lambda>same part st. case ecb_crypt_loop fn n (length part) part of (out, left) \<Rightarrow> (out, st, left)) n src ()
      (blkcipher_walk_virt n m (length src))") (auto simp: crypto_ecb_crypt_def desc_info_def)

lemma ecb_roundtrip:
  assumes "n dvd length src" and mem: "mem_ok layout" "mem_ok layout'"
  shows "\<exists>out. crypto_ecb_crypt enc n layout src = Some (Inr (), out) \<and> crypto_ecb_crypt dec n layout' out = Some (Inr (), src)"
  using ecb.roundtrip [OF TrueI assms, of "()"] by (auto simp: ecb_as_mode)

lemma cbc_roundtrip:
  assumes "length iv = n" and "n dvd length src" and mem: "mem_ok layout" "mem_ok layout'"
  shows "\<exists>out iv'. crypto_cbc_encrypt enc n layout src iv = Some (Inr (), out, iv') \<and>
    crypto_cbc_decrypt dec n layout' out iv = Some (Inr (), src, iv')"
  using cbc.roundtrip [OF assms] by (simp only: crypto_cbc_encrypt_def crypto_cbc_decrypt_def)

lemma pcbc_roundtrip:
  assumes "length iv = n" and "n dvd length src" and mem: "mem_ok layout" "mem_ok layout'"
  shows "\<exists>out iv'. crypto_pcbc_encrypt enc n layout src iv = Some (Inr (), out, iv') \<and>
    crypto_pcbc_decrypt dec n layout' out iv = Some (Inr (), src, iv')"
  using pcbc.roundtrip [OF assms] by (simp only: crypto_pcbc_encrypt_def crypto_pcbc_decrypt_def)

lemma modes_reject:
  assumes "length iv = n" and "\<not> n dvd length src" and mem: "mem_ok layout"
  shows "map_option fst (crypto_ecb_crypt enc n layout src) = Some (Inl EINVAL)"
    and "map_option fst (crypto_cbc_encrypt enc n layout src iv) = Some (Inl EINVAL)"
    and "map_option fst (crypto_pcbc_encrypt enc n layout src iv) = Some (Inl EINVAL)"
    and "map_option fst (crypto_cbc_decrypt dec n layout src iv) = Some (Inl EINVAL)"
    and "map_option fst (crypto_pcbc_decrypt dec n layout src iv) = Some (Inl EINVAL)"
proof -
  show "map_option fst (crypto_ecb_crypt enc n layout src) = Some (Inl EINVAL)"
    using ecb.bad_length(1) [OF TrueI assms(2) mem, of "()"] unfolding ecb_as_mode by auto
qed (use cbc.bad_length [OF assms] pcbc.bad_length [OF assms] in
  \<open>simp_all only: crypto_cbc_encrypt_def crypto_pcbc_encrypt_def crypto_cbc_decrypt_def crypto_pcbc_decrypt_def\<close>)

lemma modes_memory:
  assumes "length iv = n" and "n dvd length src" and mem: "mem_ok m0"
  shows "memory_outcome m n src (crypto_ecb_crypt enc n m src) (crypto_ecb_crypt enc n m0 src)"
    and "memory_outcome m n src (map_option (apsnd fst) (crypto_cbc_encrypt enc n m src iv)) (map_option (apsnd fst) (crypto_cbc_encrypt enc n m0 src iv))"
    and "memory_outcome m n src (map_option (apsnd fst) (crypto_cbc_decrypt dec n m src iv)) (map_option (apsnd fst) (crypto_cbc_decrypt dec n m0 src iv))"
    and "memory_outcome m n src (map_option (apsnd fst) (crypto_pcbc_encrypt enc n m src iv)) (map_option (apsnd fst) (crypto_pcbc_encrypt enc n m0 src iv))"
    and "memory_outcome m n src (map_option (apsnd fst) (crypto_pcbc_decrypt dec n m src iv)) (map_option (apsnd fst) (crypto_pcbc_decrypt dec n m0 src iv))"
  unfolding ecb_as_mode crypto_cbc_encrypt_def crypto_cbc_decrypt_def crypto_pcbc_encrypt_def crypto_pcbc_decrypt_def
  by (rule ecb_enc.memory_result cbc_encr.memory_result cbc_decr.memory_result pcbc_encr.memory_result pcbc_decr.memory_result;
      use assms in simp)+

lemma ctr_roundtrip:
  assumes "length iv = n" and mem: "mem_ok layout" "mem_ok layout'"
  shows "\<exists>out iv'. crypto_ctr_crypt enc n layout src iv = Some (Inr (), out, iv') \<and> length out = length src \<and>
    crypto_ctr_crypt enc n layout' out iv = Some (Inr (), src, iv')"
proof -
  obtain bs rest where src: "src = concat bs @ rest" and bs: "blocks_of n bs" "length rest < n"
    using to_blocks [OF pos] by metis
  obtain cs iv1 where run: "mode_run (ctr_step enc) iv bs = (cs, iv1)" by fastforce
  have cs: "blocks_of n cs" "length cs = length bs" and iv1: "length iv1 = n"
    using length_mode_run [of n "\<lambda>iv. length iv = n" "ctr_step enc" iv bs] bs run ctr_mode.step_ok assms by auto
  have inv: "mode_run (ctr_step enc) iv cs = (bs, iv1)"
    using mode_run_inverse [of n "\<lambda>iv. length iv = n" "ctr_step enc" "ctr_step enc" iv bs] bs run assms
      ctr_mode.step_ok
    by (simp add: ctr_step_def bxor_commute [of "enc _" "bxor _ _"] bxor_commute [of "enc _"] enc_length inc_length)
  let ?tail = "bxor (enc iv1) rest"
  have tail: "length ?tail = length rest" "bxor (enc iv1) ?tail = rest" "?tail = [] \<longleftrightarrow> rest = []"
    using bs(2) enc_length [OF iv1] bxor_short [of rest "enc iv1"] by auto
  have "crypto_ctr_crypt enc n layout src iv =
      (if rest = [] then Some (Inr (), concat cs, iv1) else Some (Inr (), concat cs @ ?tail, crypto_inc iv1 n))"
    unfolding src using ctr_result [OF bs assms(1) mem(1)] run by simp
  moreover have "crypto_ctr_crypt enc n layout' (concat cs @ ?tail) iv =
      (if rest = [] then Some (Inr (), concat bs, iv1) else Some (Inr (), src, crypto_inc iv1 n))"
    using ctr_result [OF cs(1) _ _ mem(2), of ?tail iv] bs(2) tail assms inv by (simp add: src)
  moreover have "length (concat cs) = length (concat bs)"
    using length_concat_blocks [OF bs(1)] length_concat_blocks [OF cs(1)] cs(2) by simp
  ultimately show ?thesis using tail by (cases "rest = []") (simp_all add: src)
qed

end

text \<open>C27. The counter block of CTR mode is a big-endian number: \<^verbatim>\<open>crypto_inc\<close>, which works on words
  from the end and stops at the first that does not wrap, adds one to it modulo its size, so
  the counter blocks of a message of fewer than \<open>256 ^ n\<close> blocks never repeat and no part of
  the key stream is used twice.\<close>

theorem ctr_counters_distinct:
  assumes "length iv = n" and "i < j" and "j < 256 ^ n"
  shows "be_val (((\<lambda>c. crypto_inc c n) ^^ i) iv) = (be_val iv + i) mod 256 ^ n \<and>
    ((\<lambda>c. crypto_inc c n) ^^ i) iv \<noteq> ((\<lambda>c. crypto_inc c n) ^^ j) iv"
proof -
  have val: "length (((\<lambda>c. crypto_inc c n) ^^ m) iv) = n \<and> be_val (((\<lambda>c. crypto_inc c n) ^^ m) iv) = (be_val iv + m) mod 256 ^ n" for m
  proof (induction m)
    case 0
    show ?case using assms(1) be_val_bound [of iv] by simp
  next
    case (Suc m)
    let ?c = "((\<lambda>c. crypto_inc c n) ^^ m) iv"
    have "length (crypto_inc ?c n) = n" "be_val (crypto_inc ?c n) = (be_val ?c + 1) mod 256 ^ n"
      using Suc crypto_inc_local [of ?c "[]"] crypto_inc_val [of ?c] by auto
    then show ?case using Suc by (simp add: mod_Suc_eq)
  qed
  have "(be_val iv + i) mod 256 ^ n \<noteq> (be_val iv + j) mod 256 ^ n"
  proof
    assume "(be_val iv + i) mod 256 ^ n = (be_val iv + j) mod 256 ^ n"
    then have "256 ^ n dvd (be_val iv + j) - (be_val iv + i)" using assms(2)
      by (metis mod_eq_dvd_iff_nat add_le_cancel_left less_imp_le)
    then show False using assms by (simp add: nat_dvd_not_less)
  qed
  then show ?thesis using val [of i] val [of j] by auto
qed

theorem ctr_counters_distinct_witness:
  "((\<lambda>c. crypto_inc c 4) ^^ 1) [0, 0xff, 0xff, 0xff] \<noteq> ((\<lambda>c. crypto_inc c 4) ^^ 2) [0, 0xff, 0xff, 0xff]"
  using ctr_counters_distinct [of "[0, 0xff, 0xff, 0xff]" 4 1 2] by simp

end
