(* ===== verification/Tea.thy ===== *)
theory Tea
  imports Crypto_Modes
begin

text \<open>
  The ciphers TEA, XTEA and XETA of \<^verbatim>\<open>crypto/tea.c\<close>.  The rounds of XTEA and XETA run until a sum
  that wraps around reaches a limit, so their loops carry fuel; 32 turns are shown to be
  exactly enough.
\<close>

definition TEA_ROUNDS :: nat where "TEA_ROUNDS = 32"
definition TEA_DELTA :: u32 where "TEA_DELTA = 0x9e3779b9"
definition XTEA_DELTA :: u32 where "XTEA_DELTA = 0x9e3779b9"

definition XTEA_LIMIT :: u32 where "XTEA_LIMIT = XTEA_DELTA * 32"

text \<open>The context is the array \<^verbatim>\<open>KEY\<close>.\<close>

definition tea_setkey :: "u8 list \<Rightarrow> u32 list" where
  "tea_setkey in_key = [le32_at in_key 0, le32_at in_key 1, le32_at in_key 2, le32_at in_key 3]"

fun tea_enc_loop :: "u32 list \<Rightarrow> nat \<Rightarrow> u32 \<Rightarrow> u32 \<Rightarrow> u32 \<Rightarrow> u32 \<times> u32" where
  "tea_enc_loop K 0 tot y z = (y, z)"
| "tea_enc_loop K (Suc n) tot y z =
     (let tot = tot + TEA_DELTA;
          y = y + ((push_bit 4 z + K ! 0) XOR (z + tot) XOR (drop_bit 5 z + K ! 1));
          z = z + ((push_bit 4 y + K ! 2) XOR (y + tot) XOR (drop_bit 5 y + K ! 3))
      in tea_enc_loop K n tot y z)"

definition tea_encrypt :: "u32 list \<Rightarrow> u8 list \<Rightarrow> u8 list" where
  "tea_encrypt K src = (case tea_enc_loop K TEA_ROUNDS 0 (le32_at src 0) (le32_at src 1) of
     (y, z) \<Rightarrow> store_le32 y @ store_le32 z)"

fun tea_dec_loop :: "u32 list \<Rightarrow> nat \<Rightarrow> u32 \<Rightarrow> u32 \<Rightarrow> u32 \<Rightarrow> u32 \<times> u32" where
  "tea_dec_loop K 0 tot y z = (y, z)"
| "tea_dec_loop K (Suc n) tot y z =
     (let z = z - ((push_bit 4 y + K ! 2) XOR (y + tot) XOR (drop_bit 5 y + K ! 3));
          y = y - ((push_bit 4 z + K ! 0) XOR (z + tot) XOR (drop_bit 5 z + K ! 1));
          tot = tot - TEA_DELTA
      in tea_dec_loop K n tot y z)"

definition tea_decrypt :: "u32 list \<Rightarrow> u8 list \<Rightarrow> u8 list" where
  "tea_decrypt K src = (case tea_dec_loop K TEA_ROUNDS (push_bit 5 TEA_DELTA) (le32_at src 0) (le32_at src 1) of
     (y, z) \<Rightarrow> store_le32 y @ store_le32 z)"

definition xtea_setkey :: "u8 list \<Rightarrow> u32 list" where
  "xtea_setkey in_key = [le32_at in_key 0, le32_at in_key 1, le32_at in_key 2, le32_at in_key 3]"

text \<open>The subkeys are \<^verbatim>\<open>KEY[sum & 3]\<close> and \<^verbatim>\<open>KEY[sum >> 11 & 3]\<close>.  The loops return \<open>None\<close> when the fuel
  runs out.\<close>

fun xtea_enc_loop :: "nat \<Rightarrow> u32 list \<Rightarrow> u32 \<Rightarrow> u32 \<Rightarrow> u32 \<Rightarrow> (u32 \<times> u32) option" where
  "xtea_enc_loop fuel K tot y z =
     (if tot = XTEA_LIMIT then Some (y, z)
      else case fuel of
        0 \<Rightarrow> None
      | Suc fuel \<Rightarrow>
         (let y = y + (((push_bit 4 z XOR drop_bit 5 z) + z) XOR (tot + K ! unat (tot AND 3)));
              tot = tot + XTEA_DELTA;
              z = z + (((push_bit 4 y XOR drop_bit 5 y) + y) XOR (tot + K ! unat (drop_bit 11 tot AND 3)))
          in xtea_enc_loop fuel K tot y z))"

fun xtea_dec_loop :: "nat \<Rightarrow> u32 list \<Rightarrow> u32 \<Rightarrow> u32 \<Rightarrow> u32 \<Rightarrow> (u32 \<times> u32) option" where
  "xtea_dec_loop fuel K tot y z =
     (if tot = 0 then Some (y, z)
      else case fuel of
        0 \<Rightarrow> None
      | Suc fuel \<Rightarrow>
         (let z = z - (((push_bit 4 y XOR drop_bit 5 y) + y) XOR (tot + K ! unat (drop_bit 11 tot AND 3)));
              tot = tot - XTEA_DELTA;
              y = y - (((push_bit 4 z XOR drop_bit 5 z) + z) XOR (tot + K ! unat (tot AND 3)))
          in xtea_dec_loop fuel K tot y z))"

fun xeta_enc_loop :: "nat \<Rightarrow> u32 list \<Rightarrow> u32 \<Rightarrow> u32 \<Rightarrow> u32 \<Rightarrow> (u32 \<times> u32) option" where
  "xeta_enc_loop fuel K tot y z =
     (if tot = XTEA_LIMIT then Some (y, z)
      else case fuel of
        0 \<Rightarrow> None
      | Suc fuel \<Rightarrow>
         (let y = y + ((push_bit 4 z XOR drop_bit 5 z) + (z XOR tot) + K ! unat (tot AND 3));
              tot = tot + XTEA_DELTA;
              z = z + ((push_bit 4 y XOR drop_bit 5 y) + (y XOR tot) + K ! unat (drop_bit 11 tot AND 3))
          in xeta_enc_loop fuel K tot y z))"

fun xeta_dec_loop :: "nat \<Rightarrow> u32 list \<Rightarrow> u32 \<Rightarrow> u32 \<Rightarrow> u32 \<Rightarrow> (u32 \<times> u32) option" where
  "xeta_dec_loop fuel K tot y z =
     (if tot = 0 then Some (y, z)
      else case fuel of
        0 \<Rightarrow> None
      | Suc fuel \<Rightarrow>
         (let z = z - ((push_bit 4 y XOR drop_bit 5 y) + (y XOR tot) + K ! unat (drop_bit 11 tot AND 3));
              tot = tot - XTEA_DELTA;
              y = y - ((push_bit 4 z XOR drop_bit 5 z) + (z XOR tot) + K ! unat (tot AND 3))
          in xeta_dec_loop fuel K tot y z))"

declare xtea_enc_loop.simps [simp del] xtea_dec_loop.simps [simp del]
  xeta_enc_loop.simps [simp del] xeta_dec_loop.simps [simp del]

definition xtea_block :: "(u32 \<Rightarrow> u32 \<Rightarrow> (u32 \<times> u32) option) \<Rightarrow> u8 list \<Rightarrow> u8 list option" where
  "xtea_block loop src = (case loop (le32_at src 0) (le32_at src 1) of
     None \<Rightarrow> None | Some (y, z) \<Rightarrow> Some (store_le32 y @ store_le32 z))"

definition xtea_encrypt :: "nat \<Rightarrow> u32 list \<Rightarrow> u8 list \<Rightarrow> u8 list option" where
  "xtea_encrypt fuel K src = xtea_block (xtea_enc_loop fuel K 0) src"

definition xtea_decrypt :: "nat \<Rightarrow> u32 list \<Rightarrow> u8 list \<Rightarrow> u8 list option" where
  "xtea_decrypt fuel K src = xtea_block (xtea_dec_loop fuel K XTEA_LIMIT) src"

definition xeta_encrypt :: "nat \<Rightarrow> u32 list \<Rightarrow> u8 list \<Rightarrow> u8 list option" where
  "xeta_encrypt fuel K src = xtea_block (xeta_enc_loop fuel K 0) src"

definition xeta_decrypt :: "nat \<Rightarrow> u32 list \<Rightarrow> u8 list \<Rightarrow> u8 list option" where
  "xeta_decrypt fuel K src = xtea_block (xeta_dec_loop fuel K XTEA_LIMIT) src"

section \<open>Rounds and their inverses\<close>

text \<open>All three ciphers alternate additions of a function of the other half and of the sum.\<close>

type_synonym half = "u32 \<Rightarrow> u32 \<Rightarrow> u32"

fun rounds :: "half \<Rightarrow> half \<Rightarrow> nat \<Rightarrow> u32 \<Rightarrow> u32 \<Rightarrow> u32 \<Rightarrow> u32 \<times> u32" where
  "rounds F G 0 s y z = (y, z)"
| "rounds F G (Suc n) s y z = (let y = y + F s z; z = z + G s y in rounds F G n (s + XTEA_DELTA) y z)"

fun unrounds :: "half \<Rightarrow> half \<Rightarrow> nat \<Rightarrow> u32 \<Rightarrow> u32 \<Rightarrow> u32 \<Rightarrow> u32 \<times> u32" where
  "unrounds F G 0 s y z = (y, z)"
| "unrounds F G (Suc n) s y z =
     (let s = s - XTEA_DELTA; z = z - G s y; y = y - F s z in unrounds F G n s y z)"

lemma rounds_last:
  "rounds F G (Suc n) s y z = (case rounds F G n s y z of (y, z) \<Rightarrow>
     let t = s + word_of_nat n * XTEA_DELTA; y = y + F t z; z = z + G t y in (y, z))"
proof (induction n arbitrary: s y z)
  case (Suc n)
  have "rounds F G (Suc (Suc n)) s y z =
      rounds F G (Suc n) (s + XTEA_DELTA) (y + F s z) (z + G s (y + F s z))" by (simp add: Let_def)
  then show ?case using Suc.IH [of "s + XTEA_DELTA" "y + F s z" "z + G s (y + F s z)"]
    by (simp add: Let_def algebra_simps split: prod.splits)
qed (simp add: Let_def)

lemma unrounds_rounds:
  "rounds F G n s y z = (y', z') \<Longrightarrow> unrounds F G n (s + word_of_nat n * XTEA_DELTA) y' z' = (y, z)"
proof (induction n arbitrary: y' z')
  case (Suc n)
  obtain y1 z1 where r: "rounds F G n s y z = (y1, z1)" by fastforce
  let ?t = "s + word_of_nat n * XTEA_DELTA"
  have "y' = y1 + F ?t z1" "z' = z1 + G ?t y'"
    using Suc.prems rounds_last [of F G n s y z] by (auto simp: r Let_def)
  moreover have "s + word_of_nat (Suc n) * XTEA_DELTA - XTEA_DELTA = ?t" by (simp add: algebra_simps)
  ultimately show ?case using Suc.IH [OF r] by (simp only: unrounds.simps Let_def) simp
qed simp

definition tea_F :: "u32 list \<Rightarrow> half" where
  "tea_F K s z = (push_bit 4 z + K ! 0) XOR (z + (s + XTEA_DELTA)) XOR (drop_bit 5 z + K ! 1)"

definition tea_G :: "u32 list \<Rightarrow> half" where
  "tea_G K s y = (push_bit 4 y + K ! 2) XOR (y + (s + XTEA_DELTA)) XOR (drop_bit 5 y + K ! 3)"

definition xtea_F :: "u32 list \<Rightarrow> half" where
  "xtea_F K s z = ((push_bit 4 z XOR drop_bit 5 z) + z) XOR (s + K ! unat (s AND 3))"

definition xtea_G :: "u32 list \<Rightarrow> half" where
  "xtea_G K s y = (let s = s + XTEA_DELTA in ((push_bit 4 y XOR drop_bit 5 y) + y) XOR (s + K ! unat (drop_bit 11 s AND 3)))"

definition xeta_F :: "u32 list \<Rightarrow> half" where
  "xeta_F K s z = (push_bit 4 z XOR drop_bit 5 z) + (z XOR s) + K ! unat (s AND 3)"

definition xeta_G :: "u32 list \<Rightarrow> half" where
  "xeta_G K s y = (let s = s + XTEA_DELTA in (push_bit 4 y XOR drop_bit 5 y) + (y XOR s) + K ! unat (drop_bit 11 s AND 3))"

lemma deltas: "TEA_DELTA = XTEA_DELTA"
  by (simp add: TEA_DELTA_def XTEA_DELTA_def)

lemma tea_enc_rounds: "tea_enc_loop K n s y z = rounds (tea_F K) (tea_G K) n s y z"
  by (induction n arbitrary: s y z) (simp_all add: tea_F_def tea_G_def deltas Let_def)

lemma tea_dec_unrounds: "tea_dec_loop K n s y z = unrounds (tea_F K) (tea_G K) n s y z"
  by (induction n arbitrary: s y z) (simp_all add: tea_F_def tea_G_def deltas Let_def)

lemma limit_reached: "m < 32 \<Longrightarrow> word_of_nat m * XTEA_DELTA \<noteq> XTEA_LIMIT" "0 < m \<Longrightarrow> m \<le> 32 \<Longrightarrow> word_of_nat m * XTEA_DELTA \<noteq> 0"
proof -
  have "list_all (\<lambda>m. word_of_nat m * XTEA_DELTA \<noteq> XTEA_LIMIT) [0..<32]"
    "list_all (\<lambda>m. word_of_nat m * XTEA_DELTA \<noteq> 0) [1..<33]" by code_simp+
  then show "m < 32 \<Longrightarrow> word_of_nat m * XTEA_DELTA \<noteq> XTEA_LIMIT" "0 < m \<Longrightarrow> m \<le> 32 \<Longrightarrow> word_of_nat m * XTEA_DELTA \<noteq> 0"
    by (simp_all add: list_all_iff)
qed

lemma xtea_loops:
  assumes "m + n = 32"
  shows "xtea_enc_loop fuel K (word_of_nat m * XTEA_DELTA) y z =
      (if n \<le> fuel then Some (rounds (xtea_F K) (xtea_G K) n (word_of_nat m * XTEA_DELTA) y z) else None)"
    and "xeta_enc_loop fuel K (word_of_nat m * XTEA_DELTA) y z =
      (if n \<le> fuel then Some (rounds (xeta_F K) (xeta_G K) n (word_of_nat m * XTEA_DELTA) y z) else None)"
  using assms
proof (induction n arbitrary: m fuel y z)
  case 0
  { case 1 then show ?case by (simp add: xtea_enc_loop.simps XTEA_LIMIT_def mult.commute)
  next case 2 then show ?case by (simp add: xeta_enc_loop.simps XTEA_LIMIT_def mult.commute) }
next
  case (Suc n)
  { case 1
    show ?case
    proof (cases fuel)
      case 0
      then show ?thesis using 1 limit_reached(1) [of m] by (simp add: xtea_enc_loop.simps)
    next
      case (Suc f)
      then show ?thesis using 1 limit_reached(1) [of m] Suc.IH(1) [of "Suc m" f]
        by (subst xtea_enc_loop.simps) (simp add: Let_def xtea_F_def xtea_G_def algebra_simps)
    qed
  next
    case 2
    show ?case
    proof (cases fuel)
      case 0
      then show ?thesis using 2 limit_reached(1) [of m] by (simp add: xeta_enc_loop.simps)
    next
      case (Suc f)
      then show ?thesis using 2 limit_reached(1) [of m] Suc.IH(2) [of "Suc m" f]
        by (subst xeta_enc_loop.simps) (simp add: Let_def xeta_F_def xeta_G_def algebra_simps)
    qed }
qed

lemma xtea_unloops:
  assumes "n \<le> 32"
  shows "xtea_dec_loop fuel K (word_of_nat n * XTEA_DELTA) y z =
      (if n \<le> fuel then Some (unrounds (xtea_F K) (xtea_G K) n (word_of_nat n * XTEA_DELTA) y z) else None)"
    and "xeta_dec_loop fuel K (word_of_nat n * XTEA_DELTA) y z =
      (if n \<le> fuel then Some (unrounds (xeta_F K) (xeta_G K) n (word_of_nat n * XTEA_DELTA) y z) else None)"
  using assms
proof (induction n arbitrary: fuel y z)
  case 0
  { case 1 then show ?case by (simp add: xtea_dec_loop.simps)
  next case 2 then show ?case by (simp add: xeta_dec_loop.simps) }
next
  case (Suc n)
  have prev: "word_of_nat (Suc n) * XTEA_DELTA - XTEA_DELTA = word_of_nat n * XTEA_DELTA"
    and fwd: "word_of_nat n * XTEA_DELTA + XTEA_DELTA = word_of_nat (Suc n) * XTEA_DELTA" by (simp_all add: algebra_simps)
  { case 1
    show ?case
    proof (cases fuel)
      case 0
      then show ?thesis using 1 limit_reached(2) [of "Suc n"] by (simp add: xtea_dec_loop.simps)
    next
      case (Suc f)
      then show ?thesis using 1 limit_reached(2) [of "Suc n"] Suc.IH(1)
        by (subst xtea_dec_loop.simps)
           (simp add: Let_def xtea_F_def xtea_G_def prev fwd del: of_nat_Suc)
    qed
  next
    case 2
    show ?case
    proof (cases fuel)
      case 0
      then show ?thesis using 2 limit_reached(2) [of "Suc n"] by (simp add: xeta_dec_loop.simps)
    next
      case (Suc f)
      then show ?thesis using 2 limit_reached(2) [of "Suc n"] Suc.IH(2)
        by (subst xeta_dec_loop.simps)
           (simp add: Let_def xeta_F_def xeta_G_def prev fwd del: of_nat_Suc)
    qed }
qed

lemma limit_sums: "XTEA_LIMIT = word_of_nat 32 * XTEA_DELTA" "push_bit 5 TEA_DELTA = word_of_nat 32 * XTEA_DELTA"
  by (simp_all add: XTEA_LIMIT_def deltas push_bit_eq_mult mult.commute)

lemma start_sum: "(0 :: u32) = word_of_nat 0 * XTEA_DELTA"
  by simp

lemma xtea_encrypt_rounds:
  "xtea_encrypt fuel K src = (if 32 \<le> fuel then Some (case rounds (xtea_F K) (xtea_G K) 32 0 (le32_at src 0) (le32_at src 1) of
     (y, z) \<Rightarrow> store_le32 y @ store_le32 z) else None)"
  "xeta_encrypt fuel K src = (if 32 \<le> fuel then Some (case rounds (xeta_F K) (xeta_G K) 32 0 (le32_at src 0) (le32_at src 1) of
     (y, z) \<Rightarrow> store_le32 y @ store_le32 z) else None)"
  using xtea_loops [of 0 32 fuel K "le32_at src 0" "le32_at src 1"]
  by (auto simp: xtea_encrypt_def xeta_encrypt_def xtea_block_def split: prod.splits)

lemma xtea_decrypt_unrounds:
  "xtea_decrypt fuel K src = (if 32 \<le> fuel then Some (case unrounds (xtea_F K) (xtea_G K) 32 XTEA_LIMIT (le32_at src 0) (le32_at src 1) of
     (y, z) \<Rightarrow> store_le32 y @ store_le32 z) else None)"
  "xeta_decrypt fuel K src = (if 32 \<le> fuel then Some (case unrounds (xeta_F K) (xeta_G K) 32 XTEA_LIMIT (le32_at src 0) (le32_at src 1) of
     (y, z) \<Rightarrow> store_le32 y @ store_le32 z) else None)"
  using xtea_unloops [of 32 fuel K "le32_at src 0" "le32_at src 1"]
  unfolding limit_sums(1) [symmetric]
  by (auto simp: xtea_decrypt_def xeta_decrypt_def xtea_block_def split: prod.splits)

lemma block_rounds:
  assumes "length b = 8"
    and "case rounds F G 32 0 (le32_at b 0) (le32_at b 1) of (y, z) \<Rightarrow> c = store_le32 y @ store_le32 z"
  shows "(case unrounds F G 32 XTEA_LIMIT (le32_at c 0) (le32_at c 1) of (y, z) \<Rightarrow> store_le32 y @ store_le32 z) = b"
proof -
  obtain y z where r: "rounds F G 32 0 (le32_at b 0) (le32_at b 1) = (y, z)" by fastforce
  then have c: "c = store_le32 y @ store_le32 z" using assms(2) by simp
  have "unrounds F G 32 XTEA_LIMIT y z = (le32_at b 0, le32_at b 1)"
    using unrounds_rounds [OF r] by (simp add: limit_sums)
  then show ?thesis using block8(1) [OF assms(1)] by (simp add: c)
qed

interpretation tea: block_cipher 8 "tea_encrypt K" "tea_decrypt K" for K
proof
  show "\<exists>k. (8 :: nat) = 2 ^ k" by (rule exI [of _ 3]) simp
next
  fix b :: "u8 list"
  assume "length b = 8"
  then show "tea_decrypt K (tea_encrypt K b) = b"
    unfolding tea_decrypt_def tea_encrypt_def tea_enc_rounds tea_dec_unrounds limit_sums(2) limit_sums(1) [symmetric] TEA_ROUNDS_def
    by (rule block_rounds) (simp split: prod.splits)
qed (simp_all add: tea_encrypt_def tea_decrypt_def split: prod.splits)

interpretation xtea: block_cipher 8 "\<lambda>b. the (xtea_encrypt 32 K b)" "\<lambda>b. the (xtea_decrypt 32 K b)" for K
proof
  show "\<exists>k. (8 :: nat) = 2 ^ k" by (rule exI [of _ 3]) simp
next
  fix b :: "u8 list"
  assume b: "length b = 8"
  show "the (xtea_decrypt 32 K (the (xtea_encrypt 32 K b))) = b"
    using block_rounds [OF b, where F = "xtea_F K" and G = "xtea_G K"] by (simp add: xtea_encrypt_rounds xtea_decrypt_unrounds split: prod.splits)
qed (simp_all add: xtea_encrypt_rounds xtea_decrypt_unrounds split: prod.splits)

interpretation xeta: block_cipher 8 "\<lambda>b. the (xeta_encrypt 32 K b)" "\<lambda>b. the (xeta_decrypt 32 K b)" for K
proof
  show "\<exists>k. (8 :: nat) = 2 ^ k" by (rule exI [of _ 3]) simp
next
  fix b :: "u8 list"
  assume b: "length b = 8"
  show "the (xeta_decrypt 32 K (the (xeta_encrypt 32 K b))) = b"
    using block_rounds [OF b, where F = "xeta_F K" and G = "xeta_G K"] by (simp add: xtea_encrypt_rounds xtea_decrypt_unrounds split: prod.splits)
qed (simp_all add: xtea_encrypt_rounds xtea_decrypt_unrounds split: prod.splits)

text \<open>C28. The rounds of XTEA and XETA, which run until a wrapping sum equals a limit (encryption) or
  zero (decryption), always end, after exactly 32 turns for every key and block: with fewer
  turns allowed the loop has not ended, with 32 or more the block is returned.\<close>

theorem xtea_terminates:
  "(xtea_encrypt fuel K src \<noteq> None \<longleftrightarrow> 32 \<le> fuel) \<and> (xtea_decrypt fuel K src \<noteq> None \<longleftrightarrow> 32 \<le> fuel) \<and>
   (xeta_encrypt fuel K src \<noteq> None \<longleftrightarrow> 32 \<le> fuel) \<and> (xeta_decrypt fuel K src \<noteq> None \<longleftrightarrow> 32 \<le> fuel)"
  by (simp add: xtea_encrypt_rounds xtea_decrypt_unrounds)

end
