(* ===== verification/Serpent.thy ===== *)
theory Serpent
  imports Crypto_Modes
begin

text \<open>
  The Serpent cipher of \<^verbatim>\<open>crypto/serpent.c\<close>.  The S-boxes and the linear transformation are macros
  that update five variables in place; each is a function from the five values to the five
  values.  The body of \<^verbatim>\<open>serpent_encrypt\<close>, \<^verbatim>\<open>serpent_decrypt\<close> and \<^verbatim>\<open>serpent_setkey\<close> is a straight line of
  macro calls with hand-allocated registers: it is kept as the list of the calls with their
  operands, and run over the registers \<^verbatim>\<open>r0\<close> to \<^verbatim>\<open>r4\<close>.
\<close>

section \<open>Macros\<close>

definition rol32 :: "u32 \<Rightarrow> nat \<Rightarrow> u32" where
  "rol32 word shift = push_bit shift word OR drop_bit (32 - shift) word"

definition ror32 :: "u32 \<Rightarrow> nat \<Rightarrow> u32" where
  "ror32 word shift = drop_bit shift word OR push_bit (32 - shift) word"

definition PHI :: u32 where "PHI = 0x9e3779b9"

definition S0 :: "u32 \<Rightarrow> u32 \<Rightarrow> u32 \<Rightarrow> u32 \<Rightarrow> u32 \<Rightarrow> u32 list" where
  "S0 x0 x1 x2 x3 x4 =
     (let x4 = x3; x3 = x3 OR x0; x0 = x0 XOR x4; x4 = x4 XOR x2;
          x4 = NOT x4; x3 = x3 XOR x1; x1 = x1 AND x0; x1 = x1 XOR x4;
          x2 = x2 XOR x0; x0 = x0 XOR x3; x4 = x4 OR x0; x0 = x0 XOR x2;
          x2 = x2 AND x1; x3 = x3 XOR x2; x1 = NOT x1; x2 = x2 XOR x4;
          x1 = x1 XOR x2
      in [x0, x1, x2, x3, x4])"

definition S1 :: "u32 \<Rightarrow> u32 \<Rightarrow> u32 \<Rightarrow> u32 \<Rightarrow> u32 \<Rightarrow> u32 list" where
  "S1 x0 x1 x2 x3 x4 =
     (let x4 = x1; x1 = x1 XOR x0; x0 = x0 XOR x3; x3 = NOT x3;
          x4 = x4 AND x1; x0 = x0 OR x1; x3 = x3 XOR x2; x0 = x0 XOR x3;
          x1 = x1 XOR x3; x3 = x3 XOR x4; x1 = x1 OR x4; x4 = x4 XOR x2;
          x2 = x2 AND x0; x2 = x2 XOR x1; x1 = x1 OR x0; x0 = NOT x0;
          x0 = x0 XOR x2; x4 = x4 XOR x1
      in [x0, x1, x2, x3, x4])"

definition S2 :: "u32 \<Rightarrow> u32 \<Rightarrow> u32 \<Rightarrow> u32 \<Rightarrow> u32 \<Rightarrow> u32 list" where
  "S2 x0 x1 x2 x3 x4 =
     (let x3 = NOT x3; x1 = x1 XOR x0; x4 = x0; x0 = x0 AND x2;
          x0 = x0 XOR x3; x3 = x3 OR x4; x2 = x2 XOR x1; x3 = x3 XOR x1;
          x1 = x1 AND x0; x0 = x0 XOR x2; x2 = x2 AND x3; x3 = x3 OR x1;
          x0 = NOT x0; x3 = x3 XOR x0; x4 = x4 XOR x0; x0 = x0 XOR x2;
          x1 = x1 OR x2
      in [x0, x1, x2, x3, x4])"

definition S3 :: "u32 \<Rightarrow> u32 \<Rightarrow> u32 \<Rightarrow> u32 \<Rightarrow> u32 \<Rightarrow> u32 list" where
  "S3 x0 x1 x2 x3 x4 =
     (let x4 = x1; x1 = x1 XOR x3; x3 = x3 OR x0; x4 = x4 AND x0;
          x0 = x0 XOR x2; x2 = x2 XOR x1; x1 = x1 AND x3; x2 = x2 XOR x3;
          x0 = x0 OR x4; x4 = x4 XOR x3; x1 = x1 XOR x0; x0 = x0 AND x3;
          x3 = x3 AND x4; x3 = x3 XOR x2; x4 = x4 OR x1; x2 = x2 AND x1;
          x4 = x4 XOR x3; x0 = x0 XOR x3; x3 = x3 XOR x2
      in [x0, x1, x2, x3, x4])"

definition S4 :: "u32 \<Rightarrow> u32 \<Rightarrow> u32 \<Rightarrow> u32 \<Rightarrow> u32 \<Rightarrow> u32 list" where
  "S4 x0 x1 x2 x3 x4 =
     (let x4 = x3; x3 = x3 AND x0; x0 = x0 XOR x4; x3 = x3 XOR x2;
          x2 = x2 OR x4; x0 = x0 XOR x1; x4 = x4 XOR x3; x2 = x2 OR x0;
          x2 = x2 XOR x1; x1 = x1 AND x0; x1 = x1 XOR x4; x4 = x4 AND x2;
          x2 = x2 XOR x3; x4 = x4 XOR x0; x3 = x3 OR x1; x1 = NOT x1;
          x3 = x3 XOR x0
      in [x0, x1, x2, x3, x4])"

definition S5 :: "u32 \<Rightarrow> u32 \<Rightarrow> u32 \<Rightarrow> u32 \<Rightarrow> u32 \<Rightarrow> u32 list" where
  "S5 x0 x1 x2 x3 x4 =
     (let x4 = x1; x1 = x1 OR x0; x2 = x2 XOR x1; x3 = NOT x3;
          x4 = x4 XOR x0; x0 = x0 XOR x2; x1 = x1 AND x4; x4 = x4 OR x3;
          x4 = x4 XOR x0; x0 = x0 AND x3; x1 = x1 XOR x3; x3 = x3 XOR x2;
          x0 = x0 XOR x1; x2 = x2 AND x4; x1 = x1 XOR x2; x2 = x2 AND x0;
          x3 = x3 XOR x2
      in [x0, x1, x2, x3, x4])"

definition S6 :: "u32 \<Rightarrow> u32 \<Rightarrow> u32 \<Rightarrow> u32 \<Rightarrow> u32 \<Rightarrow> u32 list" where
  "S6 x0 x1 x2 x3 x4 =
     (let x4 = x1; x3 = x3 XOR x0; x1 = x1 XOR x2; x2 = x2 XOR x0;
          x0 = x0 AND x3; x1 = x1 OR x3; x4 = NOT x4; x0 = x0 XOR x1;
          x1 = x1 XOR x2; x3 = x3 XOR x4; x4 = x4 XOR x0; x2 = x2 AND x0;
          x4 = x4 XOR x1; x2 = x2 XOR x3; x3 = x3 AND x1; x3 = x3 XOR x0;
          x1 = x1 XOR x2
      in [x0, x1, x2, x3, x4])"

definition S7 :: "u32 \<Rightarrow> u32 \<Rightarrow> u32 \<Rightarrow> u32 \<Rightarrow> u32 \<Rightarrow> u32 list" where
  "S7 x0 x1 x2 x3 x4 =
     (let x1 = NOT x1; x4 = x1; x0 = NOT x0; x1 = x1 AND x2;
          x1 = x1 XOR x3; x3 = x3 OR x4; x4 = x4 XOR x2; x2 = x2 XOR x3;
          x3 = x3 XOR x0; x0 = x0 OR x1; x2 = x2 AND x0; x0 = x0 XOR x4;
          x4 = x4 XOR x3; x3 = x3 AND x0; x4 = x4 XOR x1; x2 = x2 XOR x4;
          x3 = x3 XOR x1; x4 = x4 OR x0; x4 = x4 XOR x1
      in [x0, x1, x2, x3, x4])"

definition SI0 :: "u32 \<Rightarrow> u32 \<Rightarrow> u32 \<Rightarrow> u32 \<Rightarrow> u32 \<Rightarrow> u32 list" where
  "SI0 x0 x1 x2 x3 x4 =
     (let x4 = x3; x1 = x1 XOR x0; x3 = x3 OR x1; x4 = x4 XOR x1;
          x0 = NOT x0; x2 = x2 XOR x3; x3 = x3 XOR x0; x0 = x0 AND x1;
          x0 = x0 XOR x2; x2 = x2 AND x3; x3 = x3 XOR x4; x2 = x2 XOR x3;
          x1 = x1 XOR x3; x3 = x3 AND x0; x1 = x1 XOR x0; x0 = x0 XOR x2;
          x4 = x4 XOR x3
      in [x0, x1, x2, x3, x4])"

definition SI1 :: "u32 \<Rightarrow> u32 \<Rightarrow> u32 \<Rightarrow> u32 \<Rightarrow> u32 \<Rightarrow> u32 list" where
  "SI1 x0 x1 x2 x3 x4 =
     (let x1 = x1 XOR x3; x4 = x0; x0 = x0 XOR x2; x2 = NOT x2;
          x4 = x4 OR x1; x4 = x4 XOR x3; x3 = x3 AND x1; x1 = x1 XOR x2;
          x2 = x2 AND x4; x4 = x4 XOR x1; x1 = x1 OR x3; x3 = x3 XOR x0;
          x2 = x2 XOR x0; x0 = x0 OR x4; x2 = x2 XOR x4; x1 = x1 XOR x0;
          x4 = x4 XOR x1
      in [x0, x1, x2, x3, x4])"

definition SI2 :: "u32 \<Rightarrow> u32 \<Rightarrow> u32 \<Rightarrow> u32 \<Rightarrow> u32 \<Rightarrow> u32 list" where
  "SI2 x0 x1 x2 x3 x4 =
     (let x2 = x2 XOR x1; x4 = x3; x3 = NOT x3; x3 = x3 OR x2;
          x2 = x2 XOR x4; x4 = x4 XOR x0; x3 = x3 XOR x1; x1 = x1 OR x2;
          x2 = x2 XOR x0; x1 = x1 XOR x4; x4 = x4 OR x3; x2 = x2 XOR x3;
          x4 = x4 XOR x2; x2 = x2 AND x1; x2 = x2 XOR x3; x3 = x3 XOR x4;
          x4 = x4 XOR x0
      in [x0, x1, x2, x3, x4])"

definition SI3 :: "u32 \<Rightarrow> u32 \<Rightarrow> u32 \<Rightarrow> u32 \<Rightarrow> u32 \<Rightarrow> u32 list" where
  "SI3 x0 x1 x2 x3 x4 =
     (let x2 = x2 XOR x1; x4 = x1; x1 = x1 AND x2; x1 = x1 XOR x0;
          x0 = x0 OR x4; x4 = x4 XOR x3; x0 = x0 XOR x3; x3 = x3 OR x1;
          x1 = x1 XOR x2; x1 = x1 XOR x3; x0 = x0 XOR x2; x2 = x2 XOR x3;
          x3 = x3 AND x1; x1 = x1 XOR x0; x0 = x0 AND x2; x4 = x4 XOR x3;
          x3 = x3 XOR x0; x0 = x0 XOR x1
      in [x0, x1, x2, x3, x4])"

definition SI4 :: "u32 \<Rightarrow> u32 \<Rightarrow> u32 \<Rightarrow> u32 \<Rightarrow> u32 \<Rightarrow> u32 list" where
  "SI4 x0 x1 x2 x3 x4 =
     (let x2 = x2 XOR x3; x4 = x0; x0 = x0 AND x1; x0 = x0 XOR x2;
          x2 = x2 OR x3; x4 = NOT x4; x1 = x1 XOR x0; x0 = x0 XOR x2;
          x2 = x2 AND x4; x2 = x2 XOR x0; x0 = x0 OR x4; x0 = x0 XOR x3;
          x3 = x3 AND x2; x4 = x4 XOR x3; x3 = x3 XOR x1; x1 = x1 AND x0;
          x4 = x4 XOR x1; x0 = x0 XOR x3
      in [x0, x1, x2, x3, x4])"

definition SI5 :: "u32 \<Rightarrow> u32 \<Rightarrow> u32 \<Rightarrow> u32 \<Rightarrow> u32 \<Rightarrow> u32 list" where
  "SI5 x0 x1 x2 x3 x4 =
     (let x4 = x1; x1 = x1 OR x2; x2 = x2 XOR x4; x1 = x1 XOR x3;
          x3 = x3 AND x4; x2 = x2 XOR x3; x3 = x3 OR x0; x0 = NOT x0;
          x3 = x3 XOR x2; x2 = x2 OR x0; x4 = x4 XOR x1; x2 = x2 XOR x4;
          x4 = x4 AND x0; x0 = x0 XOR x1; x1 = x1 XOR x3; x0 = x0 AND x2;
          x2 = x2 XOR x3; x0 = x0 XOR x2; x2 = x2 XOR x4; x4 = x4 XOR x3
      in [x0, x1, x2, x3, x4])"

definition SI6 :: "u32 \<Rightarrow> u32 \<Rightarrow> u32 \<Rightarrow> u32 \<Rightarrow> u32 \<Rightarrow> u32 list" where
  "SI6 x0 x1 x2 x3 x4 =
     (let x0 = x0 XOR x2; x4 = x0; x0 = x0 AND x3; x2 = x2 XOR x3;
          x0 = x0 XOR x2; x3 = x3 XOR x1; x2 = x2 OR x4; x2 = x2 XOR x3;
          x3 = x3 AND x0; x0 = NOT x0; x3 = x3 XOR x1; x1 = x1 AND x2;
          x4 = x4 XOR x0; x3 = x3 XOR x4; x4 = x4 XOR x2; x0 = x0 XOR x1;
          x2 = x2 XOR x0
      in [x0, x1, x2, x3, x4])"

definition SI7 :: "u32 \<Rightarrow> u32 \<Rightarrow> u32 \<Rightarrow> u32 \<Rightarrow> u32 \<Rightarrow> u32 list" where
  "SI7 x0 x1 x2 x3 x4 =
     (let x4 = x3; x3 = x3 AND x0; x0 = x0 XOR x2; x2 = x2 OR x4;
          x4 = x4 XOR x1; x0 = NOT x0; x1 = x1 OR x3; x4 = x4 XOR x0;
          x0 = x0 AND x2; x0 = x0 XOR x1; x1 = x1 AND x2; x3 = x3 XOR x2;
          x4 = x4 XOR x3; x2 = x2 AND x3; x3 = x3 OR x0; x1 = x1 XOR x4;
          x3 = x3 XOR x4; x4 = x4 AND x0; x4 = x4 XOR x2
      in [x0, x1, x2, x3, x4])"

definition LK :: "u32 list \<Rightarrow> nat \<Rightarrow> u32 \<Rightarrow> u32 \<Rightarrow> u32 \<Rightarrow> u32 \<Rightarrow> u32 \<Rightarrow> u32 list" where
  "LK k i x0 x1 x2 x3 x4 =
     (let x0 = rol32 x0 13; x2 = rol32 x2 3; x1 = x1 XOR x0; x4 = push_bit 3 x0;
          x3 = x3 XOR x2; x1 = x1 XOR x2; x1 = rol32 x1 1; x3 = x3 XOR x4;
          x3 = rol32 x3 7; x4 = x1; x0 = x0 XOR x1; x4 = push_bit 7 x4;
          x2 = x2 XOR x3; x0 = x0 XOR x3; x2 = x2 XOR x4; x3 = x3 XOR k ! (4 * i + 3);
          x1 = x1 XOR k ! (4 * i + 1); x0 = rol32 x0 5; x2 = rol32 x2 22; x0 = x0 XOR k ! (4 * i + 0);
          x2 = x2 XOR k ! (4 * i + 2)
      in [x0, x1, x2, x3, x4])"

definition KL :: "u32 list \<Rightarrow> nat \<Rightarrow> u32 \<Rightarrow> u32 \<Rightarrow> u32 \<Rightarrow> u32 \<Rightarrow> u32 \<Rightarrow> u32 list" where
  "KL k i x0 x1 x2 x3 x4 =
     (let x0 = x0 XOR k ! (4 * i + 0); x1 = x1 XOR k ! (4 * i + 1); x2 = x2 XOR k ! (4 * i + 2); x3 = x3 XOR k ! (4 * i + 3);
          x0 = ror32 x0 5; x2 = ror32 x2 22; x4 = x1; x2 = x2 XOR x3;
          x0 = x0 XOR x3; x4 = push_bit 7 x4; x0 = x0 XOR x1; x1 = ror32 x1 1;
          x2 = x2 XOR x4; x3 = ror32 x3 7; x4 = push_bit 3 x0; x1 = x1 XOR x0;
          x3 = x3 XOR x4; x0 = ror32 x0 13; x1 = x1 XOR x2; x3 = x3 XOR x2;
          x2 = ror32 x2 3
      in [x0, x1, x2, x3, x4])"

definition serpent_K :: "u32 list \<Rightarrow> nat \<Rightarrow> u32 \<Rightarrow> u32 \<Rightarrow> u32 \<Rightarrow> u32 \<Rightarrow> u32 list" where
  "serpent_K k i x0 x1 x2 x3 =
     (let x3 = x3 XOR k ! (4 * i + 3); x2 = x2 XOR k ! (4 * i + 2); x1 = x1 XOR k ! (4 * i + 1); x0 = x0 XOR k ! (4 * i + 0)
      in [x0, x1, x2, x3])"

section \<open>Encryption and decryption\<close>

datatype serpent_op = K_op nat | LK_op nat | KL_op nat | S_op nat | SI_op nat

definition sbox :: "nat \<Rightarrow> u32 \<Rightarrow> u32 \<Rightarrow> u32 \<Rightarrow> u32 \<Rightarrow> u32 \<Rightarrow> u32 list" where
  "sbox n = [S0, S1, S2, S3, S4, S5, S6, S7] ! n"

definition sbox_inv :: "nat \<Rightarrow> u32 \<Rightarrow> u32 \<Rightarrow> u32 \<Rightarrow> u32 \<Rightarrow> u32 \<Rightarrow> u32 list" where
  "sbox_inv n = [SI0, SI1, SI2, SI3, SI4, SI5, SI6, SI7] ! n"

text \<open>The values a macro leaves in its operands.\<close>

fun op_fun :: "u32 list \<Rightarrow> serpent_op \<Rightarrow> u32 list \<Rightarrow> u32 list" where
  "op_fun k (K_op i) [x0, x1, x2, x3] = serpent_K k i x0 x1 x2 x3"
| "op_fun k (LK_op i) [x0, x1, x2, x3, x4] = LK k i x0 x1 x2 x3 x4"
| "op_fun k (KL_op i) [x0, x1, x2, x3, x4] = KL k i x0 x1 x2 x3 x4"
| "op_fun k (S_op n) [x0, x1, x2, x3, x4] = sbox n x0 x1 x2 x3 x4"
| "op_fun k (SI_op n) [x0, x1, x2, x3, x4] = sbox_inv n x0 x1 x2 x3 x4"
| "op_fun k op xs = xs"

fun write_regs :: "nat list \<Rightarrow> 'a list \<Rightarrow> 'a list \<Rightarrow> 'a list" where
  "write_regs (x # xs) (v # vs) r = write_regs xs vs (r[x := v])"
| "write_regs xs vs r = r"

definition exec_op :: "u32 list \<Rightarrow> serpent_op \<times> nat list \<Rightarrow> u32 list \<Rightarrow> u32 list" where
  "exec_op k c r = write_regs (snd c) (op_fun k (fst c) (map ((!) r) (snd c))) r"

definition encrypt_calls :: "(serpent_op \<times> nat list) list" where
  "encrypt_calls =
    [ (K_op 0, [0, 1, 2, 3]), (S_op 0, [0, 1, 2, 3, 4]),
      (LK_op 1, [2, 1, 3, 0, 4]), (S_op 1, [2, 1, 3, 0, 4]),
      (LK_op 2, [4, 3, 0, 2, 1]), (S_op 2, [4, 3, 0, 2, 1]),
      (LK_op 3, [1, 3, 4, 2, 0]), (S_op 3, [1, 3, 4, 2, 0]),
      (LK_op 4, [2, 0, 3, 1, 4]), (S_op 4, [2, 0, 3, 1, 4]),
      (LK_op 5, [0, 3, 1, 4, 2]), (S_op 5, [0, 3, 1, 4, 2]),
      (LK_op 6, [2, 0, 3, 4, 1]), (S_op 6, [2, 0, 3, 4, 1]),
      (LK_op 7, [3, 1, 0, 4, 2]), (S_op 7, [3, 1, 0, 4, 2]),
      (LK_op 8, [2, 0, 4, 3, 1]), (S_op 0, [2, 0, 4, 3, 1]),
      (LK_op 9, [4, 0, 3, 2, 1]), (S_op 1, [4, 0, 3, 2, 1]),
      (LK_op 10, [1, 3, 2, 4, 0]), (S_op 2, [1, 3, 2, 4, 0]),
      (LK_op 11, [0, 3, 1, 4, 2]), (S_op 3, [0, 3, 1, 4, 2]),
      (LK_op 12, [4, 2, 3, 0, 1]), (S_op 4, [4, 2, 3, 0, 1]),
      (LK_op 13, [2, 3, 0, 1, 4]), (S_op 5, [2, 3, 0, 1, 4]),
      (LK_op 14, [4, 2, 3, 1, 0]), (S_op 6, [4, 2, 3, 1, 0]),
      (LK_op 15, [3, 0, 2, 1, 4]), (S_op 7, [3, 0, 2, 1, 4]),
      (LK_op 16, [4, 2, 1, 3, 0]), (S_op 0, [4, 2, 1, 3, 0]),
      (LK_op 17, [1, 2, 3, 4, 0]), (S_op 1, [1, 2, 3, 4, 0]),
      (LK_op 18, [0, 3, 4, 1, 2]), (S_op 2, [0, 3, 4, 1, 2]),
      (LK_op 19, [2, 3, 0, 1, 4]), (S_op 3, [2, 3, 0, 1, 4]),
      (LK_op 20, [1, 4, 3, 2, 0]), (S_op 4, [1, 4, 3, 2, 0]),
      (LK_op 21, [4, 3, 2, 0, 1]), (S_op 5, [4, 3, 2, 0, 1]),
      (LK_op 22, [1, 4, 3, 0, 2]), (S_op 6, [1, 4, 3, 0, 2]),
      (LK_op 23, [3, 2, 4, 0, 1]), (S_op 7, [3, 2, 4, 0, 1]),
      (LK_op 24, [1, 4, 0, 3, 2]), (S_op 0, [1, 4, 0, 3, 2]),
      (LK_op 25, [0, 4, 3, 1, 2]), (S_op 1, [0, 4, 3, 1, 2]),
      (LK_op 26, [2, 3, 1, 0, 4]), (S_op 2, [2, 3, 1, 0, 4]),
      (LK_op 27, [4, 3, 2, 0, 1]), (S_op 3, [4, 3, 2, 0, 1]),
      (LK_op 28, [0, 1, 3, 4, 2]), (S_op 4, [0, 1, 3, 4, 2]),
      (LK_op 29, [1, 3, 4, 2, 0]), (S_op 5, [1, 3, 4, 2, 0]),
      (LK_op 30, [0, 1, 3, 2, 4]), (S_op 6, [0, 1, 3, 2, 4]),
      (LK_op 31, [3, 4, 1, 2, 0]), (S_op 7, [3, 4, 1, 2, 0]),
      (K_op 32, [0, 1, 2, 3]) ]"

definition decrypt_calls :: "(serpent_op \<times> nat list) list" where
  "decrypt_calls =
    [ (K_op 32, [0, 1, 2, 3]), (SI_op 7, [0, 1, 2, 3, 4]),
      (KL_op 31, [1, 3, 0, 4, 2]), (SI_op 6, [1, 3, 0, 4, 2]),
      (KL_op 30, [0, 2, 4, 1, 3]), (SI_op 5, [0, 2, 4, 1, 3]),
      (KL_op 29, [2, 3, 0, 4, 1]), (SI_op 4, [2, 3, 0, 4, 1]),
      (KL_op 28, [2, 0, 1, 4, 3]), (SI_op 3, [2, 0, 1, 4, 3]),
      (KL_op 27, [1, 2, 3, 4, 0]), (SI_op 2, [1, 2, 3, 4, 0]),
      (KL_op 26, [2, 0, 4, 3, 1]), (SI_op 1, [2, 0, 4, 3, 1]),
      (KL_op 25, [1, 0, 4, 3, 2]), (SI_op 0, [1, 0, 4, 3, 2]),
      (KL_op 24, [4, 2, 0, 1, 3]), (SI_op 7, [4, 2, 0, 1, 3]),
      (KL_op 23, [2, 1, 4, 3, 0]), (SI_op 6, [2, 1, 4, 3, 0]),
      (KL_op 22, [4, 0, 3, 2, 1]), (SI_op 5, [4, 0, 3, 2, 1]),
      (KL_op 21, [0, 1, 4, 3, 2]), (SI_op 4, [0, 1, 4, 3, 2]),
      (KL_op 20, [0, 4, 2, 3, 1]), (SI_op 3, [0, 4, 2, 3, 1]),
      (KL_op 19, [2, 0, 1, 3, 4]), (SI_op 2, [2, 0, 1, 3, 4]),
      (KL_op 18, [0, 4, 3, 1, 2]), (SI_op 1, [0, 4, 3, 1, 2]),
      (KL_op 17, [2, 4, 3, 1, 0]), (SI_op 0, [2, 4, 3, 1, 0]),
      (KL_op 16, [3, 0, 4, 2, 1]), (SI_op 7, [3, 0, 4, 2, 1]),
      (KL_op 15, [0, 2, 3, 1, 4]), (SI_op 6, [0, 2, 3, 1, 4]),
      (KL_op 14, [3, 4, 1, 0, 2]), (SI_op 5, [3, 4, 1, 0, 2]),
      (KL_op 13, [4, 2, 3, 1, 0]), (SI_op 4, [4, 2, 3, 1, 0]),
      (KL_op 12, [4, 3, 0, 1, 2]), (SI_op 3, [4, 3, 0, 1, 2]),
      (KL_op 11, [0, 4, 2, 1, 3]), (SI_op 2, [0, 4, 2, 1, 3]),
      (KL_op 10, [4, 3, 1, 2, 0]), (SI_op 1, [4, 3, 1, 2, 0]),
      (KL_op 9, [0, 3, 1, 2, 4]), (SI_op 0, [0, 3, 1, 2, 4]),
      (KL_op 8, [1, 4, 3, 0, 2]), (SI_op 7, [1, 4, 3, 0, 2]),
      (KL_op 7, [4, 0, 1, 2, 3]), (SI_op 6, [4, 0, 1, 2, 3]),
      (KL_op 6, [1, 3, 2, 4, 0]), (SI_op 5, [1, 3, 2, 4, 0]),
      (KL_op 5, [3, 0, 1, 2, 4]), (SI_op 4, [3, 0, 1, 2, 4]),
      (KL_op 4, [3, 1, 4, 2, 0]), (SI_op 3, [3, 1, 4, 2, 0]),
      (KL_op 3, [4, 3, 0, 2, 1]), (SI_op 2, [4, 3, 0, 2, 1]),
      (KL_op 2, [3, 1, 2, 0, 4]), (SI_op 1, [3, 1, 2, 0, 4]),
      (KL_op 1, [4, 1, 2, 0, 3]), (SI_op 0, [4, 1, 2, 0, 3]),
      (K_op 0, [2, 3, 1, 4]) ]"

text \<open>The fifth register has no initial value in the code; every macro writes it first.\<close>

definition serpent_encrypt :: "u32 list \<Rightarrow> u8 list \<Rightarrow> u8 list" where
  "serpent_encrypt k s =
     (let r = fold (exec_op k) encrypt_calls [le32_at s 0, le32_at s 1, le32_at s 2, le32_at s 3, 0]
      in store_le32 (r ! 0) @ store_le32 (r ! 1) @ store_le32 (r ! 2) @ store_le32 (r ! 3))"

definition serpent_decrypt :: "u32 list \<Rightarrow> u8 list \<Rightarrow> u8 list" where
  "serpent_decrypt k s =
     (let r = fold (exec_op k) decrypt_calls [le32_at s 0, le32_at s 1, le32_at s 2, le32_at s 3, 0]
      in store_le32 (r ! 2) @ store_le32 (r ! 3) @ store_le32 (r ! 1) @ store_le32 (r ! 4))"

section \<open>Key schedule\<close>

text \<open>\<^verbatim>\<open>k\<close> is a pointer into the expanded key that moves by 50 words; \<open>base\<close> is where it points.\<close>

datatype key_op = Keyiter int nat nat nat nat int | Kadd int | SBox nat "nat list"
  | Storekeys "nat list" int | Loadkeys "nat list" int

fun exec_key :: "key_op \<Rightarrow> u32 list \<times> int \<times> u32 list \<Rightarrow> u32 list \<times> int \<times> u32 list" where
  "exec_key (Keyiter a b c d i j) (k, base, r) =
     (let v = r ! b XOR r ! d; v = v XOR r ! c; v = v XOR k ! nat (base + a);
          v = v XOR (PHI XOR word_of_nat i); v = rol32 v 11
      in (k[nat (base + j) := v], base, r[b := v]))"
| "exec_key (Kadd n) (k, base, r) = (k, base + n, r)"
| "exec_key (SBox n xs) (k, base, r) = (k, base, exec_op k (S_op n, xs) r)"
| "exec_key (Storekeys xs i) (k, base, r) =
     (write_regs [nat (base + i), nat (base + i) + 1, nat (base + i) + 2, nat (base + i) + 3] (map ((!) r) xs) k, base, r)"
| "exec_key (Loadkeys xs i) (k, base, r) =
     (k, base, write_regs xs (map ((!) k) [nat (base + i), nat (base + i) + 1, nat (base + i) + 2, nat (base + i) + 3]) r)"

definition setkey_keyiters :: "key_op list" where
  "setkey_keyiters =
    [ Keyiter 0 0 4 2 0 0, Keyiter 1 1 0 3 1 1, Keyiter 2 2 1 4 2 2,
      Keyiter 3 3 2 0 3 3, Keyiter 4 4 3 1 4 4, Keyiter 5 0 4 2 5 5,
      Keyiter 6 1 0 3 6 6, Keyiter 7 2 1 4 7 7, Keyiter 0 3 2 0 8 8,
      Keyiter 1 4 3 1 9 9, Keyiter 2 0 4 2 10 10, Keyiter 3 1 0 3 11 11,
      Keyiter 4 2 1 4 12 12, Keyiter 5 3 2 0 13 13, Keyiter 6 4 3 1 14 14,
      Keyiter 7 0 4 2 15 15, Keyiter 8 1 0 3 16 16, Keyiter 9 2 1 4 17 17,
      Keyiter 10 3 2 0 18 18, Keyiter 11 4 3 1 19 19, Keyiter 12 0 4 2 20 20,
      Keyiter 13 1 0 3 21 21, Keyiter 14 2 1 4 22 22, Keyiter 15 3 2 0 23 23,
      Keyiter 16 4 3 1 24 24, Keyiter 17 0 4 2 25 25, Keyiter 18 1 0 3 26 26,
      Keyiter 19 2 1 4 27 27, Keyiter 20 3 2 0 28 28, Keyiter 21 4 3 1 29 29,
      Keyiter 22 0 4 2 30 30, Keyiter 23 1 0 3 31 31, Kadd 50,
      Keyiter (-26) 2 1 4 32 (-18), Keyiter (-25) 3 2 0 33 (-17), Keyiter (-24) 4 3 1 34 (-16),
      Keyiter (-23) 0 4 2 35 (-15), Keyiter (-22) 1 0 3 36 (-14), Keyiter (-21) 2 1 4 37 (-13),
      Keyiter (-20) 3 2 0 38 (-12), Keyiter (-19) 4 3 1 39 (-11), Keyiter (-18) 0 4 2 40 (-10),
      Keyiter (-17) 1 0 3 41 (-9), Keyiter (-16) 2 1 4 42 (-8), Keyiter (-15) 3 2 0 43 (-7),
      Keyiter (-14) 4 3 1 44 (-6), Keyiter (-13) 0 4 2 45 (-5), Keyiter (-12) 1 0 3 46 (-4),
      Keyiter (-11) 2 1 4 47 (-3), Keyiter (-10) 3 2 0 48 (-2), Keyiter (-9) 4 3 1 49 (-1),
      Keyiter (-8) 0 4 2 50 0, Keyiter (-7) 1 0 3 51 1, Keyiter (-6) 2 1 4 52 2,
      Keyiter (-5) 3 2 0 53 3, Keyiter (-4) 4 3 1 54 4, Keyiter (-3) 0 4 2 55 5,
      Keyiter (-2) 1 0 3 56 6, Keyiter (-1) 2 1 4 57 7, Keyiter 0 3 2 0 58 8,
      Keyiter 1 4 3 1 59 9, Keyiter 2 0 4 2 60 10, Keyiter 3 1 0 3 61 11,
      Keyiter 4 2 1 4 62 12, Keyiter 5 3 2 0 63 13, Keyiter 6 4 3 1 64 14,
      Keyiter 7 0 4 2 65 15, Keyiter 8 1 0 3 66 16, Keyiter 9 2 1 4 67 17,
      Keyiter 10 3 2 0 68 18, Keyiter 11 4 3 1 69 19, Keyiter 12 0 4 2 70 20,
      Keyiter 13 1 0 3 71 21, Keyiter 14 2 1 4 72 22, Keyiter 15 3 2 0 73 23,
      Keyiter 16 4 3 1 74 24, Keyiter 17 0 4 2 75 25, Keyiter 18 1 0 3 76 26,
      Keyiter 19 2 1 4 77 27, Keyiter 20 3 2 0 78 28, Keyiter 21 4 3 1 79 29,
      Keyiter 22 0 4 2 80 30, Keyiter 23 1 0 3 81 31, Kadd 50,
      Keyiter (-26) 2 1 4 82 (-18), Keyiter (-25) 3 2 0 83 (-17), Keyiter (-24) 4 3 1 84 (-16),
      Keyiter (-23) 0 4 2 85 (-15), Keyiter (-22) 1 0 3 86 (-14), Keyiter (-21) 2 1 4 87 (-13),
      Keyiter (-20) 3 2 0 88 (-12), Keyiter (-19) 4 3 1 89 (-11), Keyiter (-18) 0 4 2 90 (-10),
      Keyiter (-17) 1 0 3 91 (-9), Keyiter (-16) 2 1 4 92 (-8), Keyiter (-15) 3 2 0 93 (-7),
      Keyiter (-14) 4 3 1 94 (-6), Keyiter (-13) 0 4 2 95 (-5), Keyiter (-12) 1 0 3 96 (-4),
      Keyiter (-11) 2 1 4 97 (-3), Keyiter (-10) 3 2 0 98 (-2), Keyiter (-9) 4 3 1 99 (-1),
      Keyiter (-8) 0 4 2 100 0, Keyiter (-7) 1 0 3 101 1, Keyiter (-6) 2 1 4 102 2,
      Keyiter (-5) 3 2 0 103 3, Keyiter (-4) 4 3 1 104 4, Keyiter (-3) 0 4 2 105 5,
      Keyiter (-2) 1 0 3 106 6, Keyiter (-1) 2 1 4 107 7, Keyiter 0 3 2 0 108 8,
      Keyiter 1 4 3 1 109 9, Keyiter 2 0 4 2 110 10, Keyiter 3 1 0 3 111 11,
      Keyiter 4 2 1 4 112 12, Keyiter 5 3 2 0 113 13, Keyiter 6 4 3 1 114 14,
      Keyiter 7 0 4 2 115 15, Keyiter 8 1 0 3 116 16, Keyiter 9 2 1 4 117 17,
      Keyiter 10 3 2 0 118 18, Keyiter 11 4 3 1 119 19, Keyiter 12 0 4 2 120 20,
      Keyiter 13 1 0 3 121 21, Keyiter 14 2 1 4 122 22, Keyiter 15 3 2 0 123 23,
      Keyiter 16 4 3 1 124 24, Keyiter 17 0 4 2 125 25, Keyiter 18 1 0 3 126 26,
      Keyiter 19 2 1 4 127 27, Keyiter 20 3 2 0 128 28, Keyiter 21 4 3 1 129 29,
      Keyiter 22 0 4 2 130 30, Keyiter 23 1 0 3 131 31 ]"

definition setkey_sboxes :: "key_op list" where
  "setkey_sboxes =
    [ SBox 3 [3, 4, 0, 1, 2], Storekeys [1, 2, 4, 3] 28, Loadkeys [1, 2, 4, 3] 24,
      SBox 4 [1, 2, 4, 3, 0], Storekeys [2, 4, 3, 0] 24, Loadkeys [2, 4, 3, 0] 20,
      SBox 5 [2, 4, 3, 0, 1], Storekeys [1, 2, 4, 0] 20, Loadkeys [1, 2, 4, 0] 16,
      SBox 6 [1, 2, 4, 0, 3], Storekeys [4, 3, 2, 0] 16, Loadkeys [4, 3, 2, 0] 12,
      SBox 7 [4, 3, 2, 0, 1], Storekeys [1, 2, 0, 4] 12, Loadkeys [1, 2, 0, 4] 8,
      SBox 0 [1, 2, 0, 4, 3], Storekeys [0, 2, 4, 1] 8, Loadkeys [0, 2, 4, 1] 4,
      SBox 1 [0, 2, 4, 1, 3], Storekeys [3, 4, 1, 0] 4, Loadkeys [3, 4, 1, 0] 0,
      SBox 2 [3, 4, 1, 0, 2], Storekeys [2, 4, 3, 0] 0, Loadkeys [2, 4, 3, 0] (-4),
      SBox 3 [2, 4, 3, 0, 1], Storekeys [0, 1, 4, 2] (-4), Loadkeys [0, 1, 4, 2] (-8),
      SBox 4 [0, 1, 4, 2, 3], Storekeys [1, 4, 2, 3] (-8), Loadkeys [1, 4, 2, 3] (-12),
      SBox 5 [1, 4, 2, 3, 0], Storekeys [0, 1, 4, 3] (-12), Loadkeys [0, 1, 4, 3] (-16),
      SBox 6 [0, 1, 4, 3, 2], Storekeys [4, 2, 1, 3] (-16), Loadkeys [4, 2, 1, 3] (-20),
      SBox 7 [4, 2, 1, 3, 0], Storekeys [0, 1, 3, 4] (-20), Loadkeys [0, 1, 3, 4] (-24),
      SBox 0 [0, 1, 3, 4, 2], Storekeys [3, 1, 4, 0] (-24), Loadkeys [3, 1, 4, 0] (-28),
      Kadd (-50), SBox 1 [3, 1, 4, 0, 2], Storekeys [2, 4, 0, 3] 22,
      Loadkeys [2, 4, 0, 3] 18, SBox 2 [2, 4, 0, 3, 1], Storekeys [1, 4, 2, 3] 18,
      Loadkeys [1, 4, 2, 3] 14, SBox 3 [1, 4, 2, 3, 0], Storekeys [3, 0, 4, 1] 14,
      Loadkeys [3, 0, 4, 1] 10, SBox 4 [3, 0, 4, 1, 2], Storekeys [0, 4, 1, 2] 10,
      Loadkeys [0, 4, 1, 2] 6, SBox 5 [0, 4, 1, 2, 3], Storekeys [3, 0, 4, 2] 6,
      Loadkeys [3, 0, 4, 2] 2, SBox 6 [3, 0, 4, 2, 1], Storekeys [4, 1, 0, 2] 2,
      Loadkeys [4, 1, 0, 2] (-2), SBox 7 [4, 1, 0, 2, 3], Storekeys [3, 0, 2, 4] (-2),
      Loadkeys [3, 0, 2, 4] (-6), SBox 0 [3, 0, 2, 4, 1], Storekeys [2, 0, 4, 3] (-6),
      Loadkeys [2, 0, 4, 3] (-10), SBox 1 [2, 0, 4, 3, 1], Storekeys [1, 4, 3, 2] (-10),
      Loadkeys [1, 4, 3, 2] (-14), SBox 2 [1, 4, 3, 2, 0], Storekeys [0, 4, 1, 2] (-14),
      Loadkeys [0, 4, 1, 2] (-18), SBox 3 [0, 4, 1, 2, 3], Storekeys [2, 3, 4, 0] (-18),
      Loadkeys [2, 3, 4, 0] (-22), Kadd (-50), SBox 4 [2, 3, 4, 0, 1],
      Storekeys [3, 4, 0, 1] 28, Loadkeys [3, 4, 0, 1] 24, SBox 5 [3, 4, 0, 1, 2],
      Storekeys [2, 3, 4, 1] 24, Loadkeys [2, 3, 4, 1] 20, SBox 6 [2, 3, 4, 1, 0],
      Storekeys [4, 0, 3, 1] 20, Loadkeys [4, 0, 3, 1] 16, SBox 7 [4, 0, 3, 1, 2],
      Storekeys [2, 3, 1, 4] 16, Loadkeys [2, 3, 1, 4] 12, SBox 0 [2, 3, 1, 4, 0],
      Storekeys [1, 3, 4, 2] 12, Loadkeys [1, 3, 4, 2] 8, SBox 1 [1, 3, 4, 2, 0],
      Storekeys [0, 4, 2, 1] 8, Loadkeys [0, 4, 2, 1] 4, SBox 2 [0, 4, 2, 1, 3],
      Storekeys [3, 4, 0, 1] 4, Loadkeys [3, 4, 0, 1] 0, SBox 3 [3, 4, 0, 1, 2],
      Storekeys [1, 2, 4, 3] 0 ]"

text \<open>\<open>old\<close> is what the expanded key array held before; its first 32 bytes are overwritten by the
  key, a byte 1 and zeros.\<close>

definition serpent_setkey :: "u32 list \<Rightarrow> u8 list \<Rightarrow> u32 list" where
  "serpent_setkey old key =
     (let k8 = (if length key < 32 then key @ [1] @ replicate (31 - length key) 0 else key);
          k = map (le32_at k8) [0..<8] @ drop 8 old;
          r = [k ! 3, k ! 4, k ! 5, k ! 6, k ! 7]
      in fst (fold exec_key (setkey_keyiters @ setkey_sboxes) (k, 0, r)))"

section \<open>The reversed variant\<close>

definition tnepres_setkey :: "u32 list \<Rightarrow> u8 list \<Rightarrow> u32 list" where
  "tnepres_setkey old key = serpent_setkey old (rev key)"

definition tnepres_crypt :: "(u8 list \<Rightarrow> u8 list) \<Rightarrow> u8 list \<Rightarrow> u8 list" where
  "tnepres_crypt crypt s =
     (let rd = crypt (store_le32 (swab32 (le32_at s 3)) @ store_le32 (swab32 (le32_at s 2)) @
                 store_le32 (swab32 (le32_at s 1)) @ store_le32 (swab32 (le32_at s 0)))
      in store_le32 (swab32 (le32_at rd 3)) @ store_le32 (swab32 (le32_at rd 2)) @
         store_le32 (swab32 (le32_at rd 1)) @ store_le32 (swab32 (le32_at rd 0)))"

definition tnepres_encrypt :: "u32 list \<Rightarrow> u8 list \<Rightarrow> u8 list" where
  "tnepres_encrypt k = tnepres_crypt (serpent_encrypt k)"

definition tnepres_decrypt :: "u32 list \<Rightarrow> u8 list \<Rightarrow> u8 list" where
  "tnepres_decrypt k = tnepres_crypt (serpent_decrypt k)"

section \<open>S-boxes and linear transformation are inverted\<close>

text \<open>Where each macro leaves its four results, as positions among its operands.\<close>

definition out_pos :: "serpent_op \<Rightarrow> nat list" where
  "out_pos op = (case op of
     S_op n \<Rightarrow> [[2, 1, 3, 0], [4, 2, 3, 0], [4, 1, 0, 3], [3, 4, 1, 0], [1, 2, 3, 4], [4, 0, 1, 3], [2, 4, 1, 3], [4, 2, 3, 0]] ! n
   | SI_op n \<Rightarrow> [[2, 4, 1, 0], [4, 1, 2, 3], [1, 4, 3, 2], [2, 0, 4, 3], [0, 2, 4, 3], [1, 4, 0, 2], [2, 4, 3, 0], [1, 3, 0, 4]] ! n
   | _ \<Rightarrow> [0, 1, 2, 3])"

definition op_ok :: "serpent_op \<Rightarrow> bool" where
  "op_ok op = (case op of S_op n \<Rightarrow> n < 8 | SI_op n \<Rightarrow> n < 8 | _ \<Rightarrow> True)"

text \<open>The effect on the four values, whatever the scratch operand.\<close>

definition op_abs :: "u32 list \<Rightarrow> serpent_op \<Rightarrow> u32 list \<Rightarrow> u32 list" where
  "op_abs k op t = (case op of K_op i \<Rightarrow> op_fun k op t | _ \<Rightarrow> map ((!) (op_fun k op (t @ [0]))) (out_pos op))"

fun op_inv :: "serpent_op \<Rightarrow> serpent_op" where
  "op_inv (K_op i) = K_op i"
| "op_inv (LK_op i) = KL_op i"
| "op_inv (KL_op i) = LK_op i"
| "op_inv (S_op n) = SI_op n"
| "op_inv (SI_op n) = S_op n"

lemma words_eqI:
  fixes xs ys :: "u32 list"
  assumes "\<And>n. n < 32 \<Longrightarrow> map (\<lambda>w. bit w n) xs = map (\<lambda>w. bit w n) ys"
  shows "xs = ys"
proof (rule nth_equalityI)
  show len: "length xs = length ys" using assms [of 0] map_eq_imp_length_eq by fastforce
  fix i
  assume i: "i < length xs"
  show "xs ! i = ys ! i"
  proof (rule bit_word_eqI)
    fix n
    assume "n < LENGTH(32)"
    then have "map (\<lambda>w. bit w n) xs ! i = map (\<lambda>w. bit w n) ys ! i" using assms [of n] by simp
    then show "bit (xs ! i) n = bit (ys ! i) n" using i len by simp
  qed
qed

lemma SI0_S0:
  "map ((!) (SI0 (S0 a b c d e ! 2) (S0 a b c d e ! 1) (S0 a b c d e ! 3) (S0 a b c d e ! 0) f)) [2, 4, 1, 0] = [a, b, c, d]"
  (is "?l = ?r")
proof (rule words_eqI)
  fix n :: nat
  assume "n < 32"
  then show "map (\<lambda>w. bit w n) ?l = map (\<lambda>w. bit w n) ?r"
    by (cases "bit a n"; cases "bit b n"; cases "bit c n"; cases "bit d n")
       (simp_all add: S0_def SI0_def Let_def bit_simps)
qed

lemma SI1_S1:
  "map ((!) (SI1 (S1 a b c d e ! 4) (S1 a b c d e ! 2) (S1 a b c d e ! 3) (S1 a b c d e ! 0) f)) [4, 1, 2, 3] = [a, b, c, d]"
  (is "?l = ?r")
proof (rule words_eqI)
  fix n :: nat
  assume "n < 32"
  then show "map (\<lambda>w. bit w n) ?l = map (\<lambda>w. bit w n) ?r"
    by (cases "bit a n"; cases "bit b n"; cases "bit c n"; cases "bit d n")
       (simp_all add: S1_def SI1_def Let_def bit_simps)
qed

lemma SI2_S2:
  "map ((!) (SI2 (S2 a b c d e ! 4) (S2 a b c d e ! 1) (S2 a b c d e ! 0) (S2 a b c d e ! 3) f)) [1, 4, 3, 2] = [a, b, c, d]"
  (is "?l = ?r")
proof (rule words_eqI)
  fix n :: nat
  assume "n < 32"
  then show "map (\<lambda>w. bit w n) ?l = map (\<lambda>w. bit w n) ?r"
    by (cases "bit a n"; cases "bit b n"; cases "bit c n"; cases "bit d n")
       (simp_all add: S2_def SI2_def Let_def bit_simps)
qed

lemma SI3_S3:
  "map ((!) (SI3 (S3 a b c d e ! 3) (S3 a b c d e ! 4) (S3 a b c d e ! 1) (S3 a b c d e ! 0) f)) [2, 0, 4, 3] = [a, b, c, d]"
  (is "?l = ?r")
proof (rule words_eqI)
  fix n :: nat
  assume "n < 32"
  then show "map (\<lambda>w. bit w n) ?l = map (\<lambda>w. bit w n) ?r"
    by (cases "bit a n"; cases "bit b n"; cases "bit c n"; cases "bit d n")
       (simp_all add: S3_def SI3_def Let_def bit_simps)
qed

lemma SI4_S4:
  "map ((!) (SI4 (S4 a b c d e ! 1) (S4 a b c d e ! 2) (S4 a b c d e ! 3) (S4 a b c d e ! 4) f)) [0, 2, 4, 3] = [a, b, c, d]"
  (is "?l = ?r")
proof (rule words_eqI)
  fix n :: nat
  assume "n < 32"
  then show "map (\<lambda>w. bit w n) ?l = map (\<lambda>w. bit w n) ?r"
    by (cases "bit a n"; cases "bit b n"; cases "bit c n"; cases "bit d n")
       (simp_all add: S4_def SI4_def Let_def bit_simps)
qed

lemma SI5_S5:
  "map ((!) (SI5 (S5 a b c d e ! 4) (S5 a b c d e ! 0) (S5 a b c d e ! 1) (S5 a b c d e ! 3) f)) [1, 4, 0, 2] = [a, b, c, d]"
  (is "?l = ?r")
proof (rule words_eqI)
  fix n :: nat
  assume "n < 32"
  then show "map (\<lambda>w. bit w n) ?l = map (\<lambda>w. bit w n) ?r"
    by (cases "bit a n"; cases "bit b n"; cases "bit c n"; cases "bit d n")
       (simp_all add: S5_def SI5_def Let_def bit_simps)
qed

lemma SI6_S6:
  "map ((!) (SI6 (S6 a b c d e ! 2) (S6 a b c d e ! 4) (S6 a b c d e ! 1) (S6 a b c d e ! 3) f)) [2, 4, 3, 0] = [a, b, c, d]"
  (is "?l = ?r")
proof (rule words_eqI)
  fix n :: nat
  assume "n < 32"
  then show "map (\<lambda>w. bit w n) ?l = map (\<lambda>w. bit w n) ?r"
    by (cases "bit a n"; cases "bit b n"; cases "bit c n"; cases "bit d n")
       (simp_all add: S6_def SI6_def Let_def bit_simps)
qed

lemma SI7_S7:
  "map ((!) (SI7 (S7 a b c d e ! 4) (S7 a b c d e ! 2) (S7 a b c d e ! 3) (S7 a b c d e ! 0) f)) [1, 3, 0, 4] = [a, b, c, d]"
  (is "?l = ?r")
proof (rule words_eqI)
  fix n :: nat
  assume "n < 32"
  then show "map (\<lambda>w. bit w n) ?l = map (\<lambda>w. bit w n) ?r"
    by (cases "bit a n"; cases "bit b n"; cases "bit c n"; cases "bit d n")
       (simp_all add: S7_def SI7_def Let_def bit_simps)
qed

lemma rol_ror:
  assumes "s < 32"
  shows "ror32 (rol32 x s) s = x" and "rol32 (ror32 x s) s = x"
proof -
  show "ror32 (rol32 x s) s = x"
  proof (rule bit_word_eqI)
    fix n
    assume "n < LENGTH(32)"
    then show "bit (ror32 (rol32 x s) s) n = bit x n" using assms
      by (cases "n + s < 32") (auto simp: rol32_def ror32_def bit_simps add.commute dest: bit_imp_le_length)
  qed
  show "rol32 (ror32 x s) s = x"
  proof (rule bit_word_eqI)
    fix n
    assume "n < LENGTH(32)"
    then show "bit (rol32 (ror32 x s) s) n = bit x n" using assms
      by (cases "s \<le> n") (auto simp: rol32_def ror32_def bit_simps add.commute dest: bit_imp_le_length)
  qed
qed

lemma KL_LK: "take 4 (KL k i (LK k i a b c d e ! 0) (LK k i a b c d e ! 1) (LK k i a b c d e ! 2) (LK k i a b c d e ! 3) f) = [a, b, c, d]"
  by (simp add: LK_def KL_def Let_def xor.assoc xor.left_commute rol_ror)

lemma serpent_K_K: "serpent_K k i (serpent_K k i a b c d ! 0) (serpent_K k i a b c d ! 1) (serpent_K k i a b c d ! 2) (serpent_K k i a b c d ! 3) = [a, b, c, d]"
  by (simp add: serpent_K_def Let_def xor.assoc)

lemmas sbox_defs = S0_def S1_def S2_def S3_def S4_def S5_def S6_def S7_def
  SI0_def SI1_def SI2_def SI3_def SI4_def SI5_def SI6_def SI7_def

lemma nat_less_8: "(n :: nat) < 8 \<Longrightarrow> n = 0 \<or> n = 1 \<or> n = 2 \<or> n = 3 \<or> n = 4 \<or> n = 5 \<or> n = 6 \<or> n = 7"
  by linarith

lemma sbox_scratch: "n < 8 \<Longrightarrow> sbox n a b c d e = sbox n a b c d f" "n < 8 \<Longrightarrow> sbox_inv n a b c d e = sbox_inv n a b c d f"
  by (drule nat_less_8, elim disjE; simp add: sbox_def sbox_inv_def sbox_defs Let_def)+

lemma LK_scratch: "LK k i a b c d e = LK k i a b c d f" "KL k i a b c d e = KL k i a b c d f"
  by (simp_all add: LK_def KL_def Let_def)

lemma sbox_length [simp]: "n < 8 \<Longrightarrow> length (sbox n a b c d e) = 5" "n < 8 \<Longrightarrow> length (sbox_inv n a b c d e) = 5"
  by (drule nat_less_8, elim disjE; simp add: sbox_def sbox_inv_def sbox_defs Let_def)+

lemmas sbox_inverses = SI0_S0 [unfolded One_nat_def] SI1_S1 [unfolded One_nat_def] SI2_S2 [unfolded One_nat_def]
  SI3_S3 [unfolded One_nat_def] SI4_S4 [unfolded One_nat_def] SI5_S5 [unfolded One_nat_def]
  SI6_S6 [unfolded One_nat_def] SI7_S7 [unfolded One_nat_def]

lemma sbox_inv_sbox:
  assumes "n < 8"
  shows "map ((!) (sbox_inv n (sbox n a b c d e ! (out_pos (S_op n) ! 0)) (sbox n a b c d e ! (out_pos (S_op n) ! 1))
      (sbox n a b c d e ! (out_pos (S_op n) ! 2)) (sbox n a b c d e ! (out_pos (S_op n) ! 3)) f)) (out_pos (SI_op n)) = [a, b, c, d]"
  using nat_less_8 [OF assms]
  by (elim disjE; simp add: sbox_def sbox_inv_def out_pos_def sbox_inverses del: list.map)

section \<open>Register allocation\<close>

text \<open>A sequence of macro calls is well allocated when each call finds the four values in its first
  four operands, in order.\<close>

fun check_calls :: "(serpent_op \<times> nat list) list \<Rightarrow> nat list \<Rightarrow> nat list option" where
  "check_calls [] ord = Some ord"
| "check_calls ((op, xs) # cs) ord =
     (if op_ok op \<and> distinct xs \<and> list_all (\<lambda>x. x < 5) xs \<and> take 4 xs = ord \<and>
         length xs = (case op of K_op _ \<Rightarrow> 4 | _ \<Rightarrow> 5)
      then check_calls cs (map ((!) xs) (out_pos op)) else None)"

lemma length_write_regs [simp]: "length (write_regs xs vs r) = length r"
  by (induction xs vs r rule: write_regs.induct) simp_all

lemma write_regs_other: "y \<notin> set xs \<Longrightarrow> write_regs xs vs r ! y = r ! y"
  by (induction xs vs r rule: write_regs.induct) auto

lemma write_regs_nth:
  "distinct xs \<Longrightarrow> list_all (\<lambda>x. x < length r) xs \<Longrightarrow> length vs = length xs \<Longrightarrow> i < length xs \<Longrightarrow>
    write_regs xs vs r ! (xs ! i) = vs ! i"
proof (induction xs vs r arbitrary: i rule: write_regs.induct)
  case (1 x xs v vs r)
  then show ?case by (cases i) (simp_all add: write_regs_other)
qed simp_all

lemma op_fun_length:
  assumes "op_ok op" and "length ys = (case op of K_op _ \<Rightarrow> 4 | _ \<Rightarrow> 5)"
  shows "length (op_fun k op ys) = length ys"
  using assms
  by (cases "(k, op, ys)" rule: op_fun.cases)
     (auto simp: op_ok_def serpent_K_def LK_def KL_def Let_def split: serpent_op.splits)

lemma out_pos_range: "op_ok op \<Longrightarrow> p \<in> set (out_pos op) \<Longrightarrow> p < (case op of K_op _ \<Rightarrow> 4 | _ \<Rightarrow> 5)"
  by (cases op) (auto simp: op_ok_def out_pos_def dest!: nat_less_8)

lemma op_fun_scratch:
  "op_ok op \<Longrightarrow> (\<And>i. op \<noteq> K_op i) \<Longrightarrow> op_fun k op [a, b, c, d, e] = op_fun k op [a, b, c, d, 0]"
  using sbox_scratch [of _ a b c d e 0] LK_scratch [of k _ a b c d e 0]
  by (cases op) (auto simp: op_ok_def)

lemma list5_exhaust:
  assumes "length p = 5" obtains a b c d e where "p = [a, b, c, d, e]"
  using assms that by (auto simp: numeral_eq_Suc length_Suc_conv)

lemma op_fun_abs:
  assumes "op_ok op" and "length ys = (case op of K_op _ \<Rightarrow> 4 | _ \<Rightarrow> 5)"
  shows "map ((!) (op_fun k op ys)) (out_pos op) = op_abs k op (take 4 ys)"
proof (cases "\<exists>i. op = K_op i")
  case True
  then obtain i a b c d where "op = K_op i" "ys = [a, b, c, d]" using assms list4_exhaust by (metis serpent_op.case(1))
  then show ?thesis by (simp add: op_abs_def out_pos_def serpent_K_def Let_def)
next
  case False
  then have "length ys = 5" using assms(2) by (auto split: serpent_op.splits)
  then obtain a b c d e where ys: "ys = [a, b, c, d, e]" by (rule list5_exhaust)
  have "op_fun k op ys = op_fun k op (take 4 ys @ [0])" unfolding ys using op_fun_scratch [OF assms(1)] False by simp
  then show ?thesis using False by (simp only:) (auto simp: op_abs_def split: serpent_op.splits)
qed

lemma exec_op_abs:
  assumes "op_ok op" and "length xs = (case op of K_op _ \<Rightarrow> 4 | _ \<Rightarrow> 5)" and "distinct xs" and "list_all (\<lambda>x. x < length r) xs"
  shows "map ((!) (exec_op k (op, xs) r)) (map ((!) xs) (out_pos op)) = op_abs k op (map ((!) r) (take 4 xs))"
proof -
  let ?vs = "op_fun k op (map ((!) r) xs)"
  have len: "length ?vs = length xs" using op_fun_length [OF assms(1)] assms(2) by simp
  have "map ((!) (exec_op k (op, xs) r)) (map ((!) xs) (out_pos op)) = map ((!) ?vs) (out_pos op)"
    using out_pos_range [OF assms(1)] assms(2-4) len by (auto simp: exec_op_def write_regs_nth)
  also have "\<dots> = op_abs k op (take 4 (map ((!) r) xs))" using assms(1,2) by (intro op_fun_abs) simp_all
  finally show ?thesis by (simp only: take_map)
qed

lemma check_calls_sound:
  "check_calls cs ord = Some ord' \<Longrightarrow> length r = 5 \<Longrightarrow>
    map ((!) (fold (exec_op k) cs r)) ord' = fold (op_abs k) (map fst cs) (map ((!) r) ord) \<and>
    length (fold (exec_op k) cs r) = 5"
proof (induction cs ord arbitrary: r rule: check_calls.induct)
  case (2 op xs cs ord)
  have ok: "op_ok op" "length xs = (case op of K_op _ \<Rightarrow> 4 | _ \<Rightarrow> 5)" "distinct xs" "list_all (\<lambda>x. x < length r) xs"
    "take 4 xs = ord" "check_calls cs (map ((!) xs) (out_pos op)) = Some ord'"
    using 2(2,3) by (auto split: if_splits)
  have "length (exec_op k (op, xs) r) = 5" using 2(3) by (simp add: exec_op_def)
  then show ?case using 2(1) [OF _ ok(6), of "exec_op k (op, xs) r"] exec_op_abs [OF ok(1-4), of k] 2(2) ok(5)
    by (auto split: if_splits)
qed simp

lemma op_abs_inv:
  assumes "op_ok op" and "length t = 4" and "case op of KL_op i \<Rightarrow> False | SI_op n \<Rightarrow> False | _ \<Rightarrow> True"
  shows "op_abs k (op_inv op) (op_abs k op t) = t" and "length (op_abs k op t) = 4"
proof -
  obtain a b c d where t: "t = [a, b, c, d]" using assms(2) by (rule list4_exhaust)
  have "op_abs k (op_inv op) (op_abs k op t) = t \<and> length (op_abs k op t) = 4"
  proof (cases op)
    case (S_op n)
    then have n: "n < 8" using assms(1) by (simp add: op_ok_def)
    have pos: "length (out_pos (S_op n)) = 4" using nat_less_8 [OF n] by (auto simp: out_pos_def)
    then obtain p0 p1 p2 p3 where ps: "out_pos (S_op n) = [p0, p1, p2, p3]" by (rule list4_exhaust)
    show ?thesis using sbox_inv_sbox [OF n, of a b c d 0 0] by (simp add: S_op t op_abs_def ps)
  next
    case (LK_op i)
    then show ?thesis using KL_LK [of k i a b c d 0 0] by (simp add: t op_abs_def out_pos_def KL_def Let_def)
  next
    case (K_op i)
    then show ?thesis using serpent_K_K [of k i a b c d] by (simp add: t op_abs_def serpent_K_def Let_def xor.assoc)
  qed (use assms(3) in auto)
  then show "op_abs k (op_inv op) (op_abs k op t) = t" and "length (op_abs k op t) = 4" by auto
qed

lemma fold_op_inv:
  assumes "list_all (\<lambda>op. op_ok op \<and> (case op of KL_op i \<Rightarrow> False | SI_op n \<Rightarrow> False | _ \<Rightarrow> True)) ops" and "length t = 4"
  shows "fold (op_abs k) (rev (map op_inv ops)) (fold (op_abs k) ops t) = t"
  using assms by (induction ops arbitrary: t) (simp_all add: op_abs_inv)

lemma encrypt_allocated: "check_calls encrypt_calls [0, 1, 2, 3] = Some [0, 1, 2, 3]"
  by code_simp

lemma decrypt_allocated: "check_calls decrypt_calls [0, 1, 2, 3] = Some [2, 3, 1, 4]"
  by code_simp

lemma decrypt_reverses: "map fst decrypt_calls = rev (map op_inv (map fst encrypt_calls))"
  by code_simp

lemma encrypt_forward:
  "list_all (\<lambda>op. op_ok op \<and> (case op of KL_op i \<Rightarrow> False | SI_op n \<Rightarrow> False | _ \<Rightarrow> True)) (map fst encrypt_calls)"
  by code_simp

lemma serpent_encrypt_abs:
  assumes "fold (op_abs k) (map fst encrypt_calls) [le32_at s 0, le32_at s 1, le32_at s 2, le32_at s 3] = [a, b, c, d]"
  shows "serpent_encrypt k s = store_le32 a @ store_le32 b @ store_le32 c @ store_le32 d"
  using check_calls_sound [OF encrypt_allocated, of "[le32_at s 0, le32_at s 1, le32_at s 2, le32_at s 3, 0]" k] assms
  by (simp add: serpent_encrypt_def Let_def)

lemma serpent_decrypt_abs:
  assumes "fold (op_abs k) (map fst decrypt_calls) [le32_at s 0, le32_at s 1, le32_at s 2, le32_at s 3] = [a, b, c, d]"
  shows "serpent_decrypt k s = store_le32 a @ store_le32 b @ store_le32 c @ store_le32 d"
  using check_calls_sound [OF decrypt_allocated, of "[le32_at s 0, le32_at s 1, le32_at s 2, le32_at s 3, 0]" k] assms
  by (simp add: serpent_decrypt_def Let_def)

lemma fold_op_length:
  assumes "list_all (\<lambda>op. op_ok op \<and> (case op of KL_op i \<Rightarrow> False | SI_op n \<Rightarrow> False | _ \<Rightarrow> True)) ops" and "length t = 4"
  shows "length (fold (op_abs k) ops t) = 4"
  using assms by (induction ops arbitrary: t) (simp_all add: op_abs_inv)

lemma serpent_roundtrip:
  assumes "length s = 16"
  shows "serpent_decrypt k (serpent_encrypt k s) = s"
proof -
  let ?t = "[le32_at s 0, le32_at s 1, le32_at s 2, le32_at s 3]"
  obtain a b c d where enc: "fold (op_abs k) (map fst encrypt_calls) ?t = [a, b, c, d]"
    using fold_op_length [OF encrypt_forward, of ?t k] list4_exhaust by fastforce
  have "fold (op_abs k) (map fst decrypt_calls) [a, b, c, d] = ?t"
    using fold_op_inv [OF encrypt_forward, of ?t k] enc by (simp add: decrypt_reverses)
  moreover have "[le32_at (serpent_encrypt k s) 0, le32_at (serpent_encrypt k s) 1,
      le32_at (serpent_encrypt k s) 2, le32_at (serpent_encrypt k s) 3] = [a, b, c, d]"
    unfolding serpent_encrypt_abs [OF enc] by (simp add: numeral_eq_Suc)
  ultimately show ?thesis using serpent_decrypt_abs [of k "serpent_encrypt k s"] block16 [OF assms] by simp
qed

lemma serpent_length [simp]: "length (serpent_encrypt k s) = 16" "length (serpent_decrypt k s) = 16"
  by (simp_all add: serpent_encrypt_def serpent_decrypt_def Let_def)

interpretation serpent: block_cipher 16 "serpent_encrypt k" "serpent_decrypt k" for k
proof
  show "\<exists>k. (16 :: nat) = 2 ^ k" by (rule exI [of _ 4]) simp
qed (simp_all add: serpent_roundtrip)

lemma tnepres_length [simp]: "length (tnepres_crypt crypt s) = 16"
  by (simp add: tnepres_crypt_def Let_def)

lemma tnepres_lengths [simp]: "length (tnepres_encrypt k s) = 16" "length (tnepres_decrypt k s) = 16"
  by (simp_all add: tnepres_encrypt_def tnepres_decrypt_def)

lemma tnepres_roundtrip:
  assumes "length s = 16"
  shows "tnepres_decrypt k (tnepres_encrypt k s) = s"
proof -
  let ?rs = "store_le32 (swab32 (le32_at s 3)) @ store_le32 (swab32 (le32_at s 2)) @
    store_le32 (swab32 (le32_at s 1)) @ store_le32 (swab32 (le32_at s 0))"
  let ?rd = "serpent_encrypt k ?rs"
  have "store_le32 (le32_at ?rd 0) @ store_le32 (le32_at ?rd 1) @ store_le32 (le32_at ?rd 2) @ store_le32 (le32_at ?rd 3) = ?rd"
    by (rule block16) simp
  then have "tnepres_decrypt k (tnepres_encrypt k s) =
      (let r = serpent_decrypt k ?rd in store_le32 (swab32 (le32_at r 3)) @ store_le32 (swab32 (le32_at r 2)) @
         store_le32 (swab32 (le32_at r 1)) @ store_le32 (swab32 (le32_at r 0)))"
    by (simp add: tnepres_decrypt_def tnepres_encrypt_def tnepres_crypt_def Let_def swab32_swab32 numeral_eq_Suc)
  also have "serpent_decrypt k ?rd = ?rs" by (rule serpent_roundtrip) simp
  finally show ?thesis using block16 [OF assms] by (simp add: Let_def swab32_swab32 numeral_eq_Suc)
qed

interpretation tnepres: block_cipher 16 "tnepres_encrypt k" "tnepres_decrypt k" for k
proof
  show "\<exists>k. (16 :: nat) = 2 ^ k" by (rule exI [of _ 4]) simp
qed (simp_all add: tnepres_roundtrip)

section \<open>The key schedule\<close>

text \<open>The recurrence of the prekeys, of which the unrolled code computes 132 in registers, and the
  S-boxes applied to groups of four in the order 3, 2, 1, 0, 7, ...\<close>

fun prekey :: "u32 list \<Rightarrow> nat \<Rightarrow> u32" where
  "prekey k i = (if i < 8 then k ! i
     else rol32 (prekey k (i - 8) XOR prekey k (i - 5) XOR prekey k (i - 3) XOR prekey k (i - 1) XOR
       PHI XOR word_of_nat (i - 8)) 11)"

declare prekey.simps [simp del]

definition round_key :: "u32 list \<Rightarrow> nat \<Rightarrow> u32 list" where
  "round_key k m = op_abs [] (S_op ((35 - m) mod 8)) (map (prekey k) [4 * m + 8, 4 * m + 9, 4 * m + 10, 4 * m + 11])"

datatype aval = Pre nat | Sub nat nat nat | Unk

fun agrees :: "u32 list \<Rightarrow> aval \<Rightarrow> u32 \<Rightarrow> bool" where
  "agrees k (Pre i) v = (v = prekey k i)"
| "agrees k (Sub n m l) v =
     (v = op_abs [] (S_op n) (map (prekey k) [4 * m + 8, 4 * m + 9, 4 * m + 10, 4 * m + 11]) ! l)"
| "agrees k Unk v = True"

definition sbox_out :: "nat \<Rightarrow> nat \<Rightarrow> aval list" where
  "sbox_out n m = map (\<lambda>p. case filter (\<lambda>l. out_pos (S_op n) ! l = p) [0, 1, 2, 3] of
     [] \<Rightarrow> Unk | l # _ \<Rightarrow> Sub n m l) [0, 1, 2, 3, 4]"

fun check_key :: "key_op \<Rightarrow> aval list \<times> int \<times> aval list \<Rightarrow> (aval list \<times> int \<times> aval list) option" where
  "check_key (Keyiter a b c d i j) (k, base, r) =
     (if b < 5 \<and> c < 5 \<and> d < 5 \<and> nat (base + a) < 132 \<and> nat (base + j) < 132 \<and>
         r ! b = Pre (i + 3) \<and> r ! d = Pre (i + 5) \<and> r ! c = Pre (i + 7) \<and> k ! nat (base + a) = Pre i
      then Some (k[nat (base + j) := Pre (i + 8)], base, r[b := Pre (i + 8)]) else None)"
| "check_key (Kadd n) (k, base, r) = Some (k, base + n, r)"
| "check_key (SBox n xs) (k, base, r) =
     (case map ((!) r) (take 4 xs) of
        [Pre p, Pre p1, Pre p2, Pre p3] \<Rightarrow>
          (let m = (p - 8) div 4 in
           if n < 8 \<and> length xs = 5 \<and> distinct xs \<and> list_all (\<lambda>x. x < 5) xs \<and> p = 4 * m + 8 \<and>
              p1 = p + 1 \<and> p2 = p + 2 \<and> p3 = p + 3
           then Some (k, base, write_regs xs (sbox_out n m) r) else None)
      | _ \<Rightarrow> None)"
| "check_key (Storekeys xs i) (k, base, r) =
     (if length xs = 4 \<and> list_all (\<lambda>x. x < 5) xs \<and> nat (base + i) + 3 < 132 then
        Some (write_regs [nat (base + i), nat (base + i) + 1, nat (base + i) + 2, nat (base + i) + 3] (map ((!) r) xs) k, base, r)
      else None)"
| "check_key (Loadkeys xs i) (k, base, r) =
     (if length xs = 4 \<and> list_all (\<lambda>x. x < 5) xs \<and> nat (base + i) + 3 < 132 then
        Some (k, base, write_regs xs (map ((!) k) [nat (base + i), nat (base + i) + 1, nat (base + i) + 2, nat (base + i) + 3]) r)
      else None)"

fun check_keys :: "key_op list \<Rightarrow> aval list \<times> int \<times> aval list \<Rightarrow> (aval list \<times> int \<times> aval list) option" where
  "check_keys [] st = Some st"
| "check_keys (op # ops) st = (case check_key op st of None \<Rightarrow> None | Some st \<Rightarrow> check_keys ops st)"

definition krel :: "u32 list \<Rightarrow> u32 list \<times> int \<times> u32 list \<Rightarrow> aval list \<times> int \<times> aval list \<Rightarrow> bool" where
  "krel key st ast = (case st of (k, base, r) \<Rightarrow> case ast of (ak, abase, ar) \<Rightarrow>
     list_all2 (agrees key) ak k \<and> abase = base \<and> list_all2 (agrees key) ar r \<and> length k = 132 \<and> length r = 5)"

lemma write_regs_rel:
  "list_all2 P as bs \<Longrightarrow> list_all2 P ar r \<Longrightarrow> list_all2 P (write_regs xs as ar) (write_regs xs bs r)"
proof (induction xs as ar arbitrary: bs r rule: write_regs.induct)
  case (1 x xs v vs r)
  then show ?case by (auto simp: list_all2_Cons1 intro!: 1 list_all2_update_cong)
qed (auto simp: list_all2_Cons1)

lemma read_regs_rel: "list_all2 P ar r \<Longrightarrow> list_all (\<lambda>x. x < length r) xs \<Longrightarrow> list_all2 P (map ((!) ar) xs) (map ((!) r) xs)"
  by (auto simp: list_all2_conv_all_nth list_all_iff)

lemma out_pos_length: "n < 8 \<Longrightarrow> length (out_pos (S_op n)) = 4"
  by (drule nat_less_8) (auto simp: out_pos_def)

lemma sbox_out_rel:
  assumes "n < 8" and "length ys = 5" and "take 4 ys = map (prekey key) [4 * m + 8, 4 * m + 9, 4 * m + 10, 4 * m + 11]"
  shows "list_all2 (agrees key) (sbox_out n m) (op_fun k (S_op n) ys)"
proof -
  obtain a b c d e where ys: "ys = [a, b, c, d, e]" using assms(2) by (rule list5_exhaust)
  have t: "map (prekey key) [4 * m + 8, 4 * m + 9, 4 * m + 10, 4 * m + 11] = [a, b, c, d]" using assms(3) by (simp add: ys)
  have same: "sbox n a b c d e = sbox n a b c d 0" using sbox_scratch(1) [OF assms(1)] by blast
  let ?f = "\<lambda>p. case filter (\<lambda>l. out_pos (S_op n) ! l = p) [0, 1, 2, 3] of [] \<Rightarrow> Unk | l # _ \<Rightarrow> Sub n m l"
  have each: "agrees key (?f p) (sbox n a b c d e ! p)" for p
  proof (cases "filter (\<lambda>l. out_pos (S_op n) ! l = p) [0, 1, 2, 3]")
    case (Cons l ls)
    then have "l \<in> set (filter (\<lambda>l. out_pos (S_op n) ! l = p) [0, 1, 2, 3])" by (simp only: list.set_intros)
    then have "l \<in> set [0, 1, 2, 3]" and p: "out_pos (S_op n) ! l = p" by (simp_all only: set_filter mem_Collect_eq)
    then have "l < 4" by auto
    then have "op_abs [] (S_op n) [a, b, c, d] ! l = sbox n a b c d e ! p"
      using out_pos_length [OF assms(1)] p by (simp add: op_abs_def same)
    then show ?thesis by (simp only: Cons list.case agrees.simps t)
  next
    case Nil
    then show ?thesis by (simp only: Nil list.case agrees.simps)
  qed
  obtain v0 v1 v2 v3 v4 where v: "sbox n a b c d e = [v0, v1, v2, v3, v4]"
    using list5_exhaust [OF sbox_length(1) [OF assms(1)]] by metis
  show ?thesis
    using each [of 0] each [of 1] each [of 2] each [of 3] each [of 4]
    by (simp only: sbox_out_def ys op_fun.simps v list.map list_all2_Cons list_all2_Nil nth_Cons_0 One_nat_def nth_Cons_Suc numeral_nat)
qed

lemma check_key_sound:
  assumes "krel key st ast" and "check_key op ast = Some ast'"
  shows "krel key (exec_key op st) ast'"
proof -
  obtain k base r ak ar where st: "st = (k, base, r)" and ast: "ast = (ak, base, ar)"
    and rel: "list_all2 (agrees key) ak k" "list_all2 (agrees key) ar r" "length k = 132" "length r = 5"
    using assms(1) by (auto simp: krel_def split: prod.splits)
  show ?thesis
  proof (cases op)
    case (Keyiter a b c d i j)
    have chk: "b < 5" "c < 5" "d < 5" "nat (base + a) < 132" "ar ! b = Pre (i + 3)" "ar ! d = Pre (i + 5)" "ar ! c = Pre (i + 7)"
      "ak ! nat (base + a) = Pre i" "ast' = (ak[nat (base + j) := Pre (i + 8)], base, ar[b := Pre (i + 8)])"
      using assms(2) by (auto simp: ast Keyiter split: if_splits)
    have vals: "r ! b = prekey key (i + 3)" "r ! d = prekey key (i + 5)" "r ! c = prekey key (i + 7)" "k ! nat (base + a) = prekey key i"
      using list_all2_nthD2 [OF rel(2), of b] list_all2_nthD2 [OF rel(2), of c] list_all2_nthD2 [OF rel(2), of d]
        list_all2_nthD2 [OF rel(1), of "nat (base + a)"] chk rel(3,4) by simp_all
    have "rol32 ((((r ! b XOR r ! d) XOR r ! c) XOR k ! nat (base + a)) XOR (PHI XOR word_of_nat i)) 11 = prekey key (i + 8)"
      unfolding vals by (subst prekey.simps) (simp add: ac_simps)
    then show ?thesis using rel
      by (simp add: krel_def st Keyiter chk(9) Let_def list_all2_update_cong)
  next
    case (Kadd n)
    then show ?thesis using assms(2) rel by (auto simp: krel_def st ast)
  next
    case (SBox n xs)
    obtain p p1 p2 p3 where m4: "map ((!) ar) (take 4 xs) = [Pre p, Pre p1, Pre p2, Pre p3]"
      using assms(2) by (auto simp: ast SBox split: list.splits aval.splits)
    let ?m = "(p - 8) div 4"
    have chk: "n < 8" "length xs = 5" "list_all (\<lambda>x. x < 5) xs" "p = 4 * ?m + 8" "p1 = p + 1" "p2 = p + 2" "p3 = p + 3"
      "ast' = (ak, base, write_regs xs (sbox_out n ?m) ar)"
      using assms(2) by (auto simp: ast SBox m4 Let_def split: if_splits)
    have "list_all2 (agrees key) (map ((!) ar) (take 4 xs)) (map ((!) r) (take 4 xs))"
      using rel chk(3) by (intro read_regs_rel) (auto simp: list_all_iff dest: in_set_takeD)
    then have "map ((!) r) (take 4 xs) = map (prekey key) [p, p1, p2, p3]" by (auto simp: m4 list_all2_Cons1)
    then have "map ((!) r) (take 4 xs) = map (prekey key) [4 * ?m + 8, 4 * ?m + 9, 4 * ?m + 10, 4 * ?m + 11]"
    proof -
      have "p1 = 4 * ?m + 9" "p2 = 4 * ?m + 10" "p3 = 4 * ?m + 11" using chk(4-7) by linarith+
      then show ?thesis using \<open>map ((!) r) (take 4 xs) = _\<close> chk(4) by metis
    qed
    then have "list_all2 (agrees key) (sbox_out n ?m) (op_fun k (S_op n) (map ((!) r) xs))"
      using chk by (intro sbox_out_rel) (simp_all add: take_map)
    then show ?thesis using rel by (simp add: krel_def st SBox chk(8) exec_op_def write_regs_rel)
  next
    case (Storekeys xs i)
    then have chk: "list_all (\<lambda>x. x < 5) xs" "ast' = (write_regs [nat (base + i), nat (base + i) + 1, nat (base + i) + 2, nat (base + i) + 3] (map ((!) ar) xs) ak, base, ar)"
      using assms(2) by (auto simp: ast split: if_splits)
    then show ?thesis using rel by (auto simp: krel_def st Storekeys intro!: write_regs_rel read_regs_rel)
  next
    case (Loadkeys xs i)
    then have chk: "nat (base + i) + 3 < 132" "ast' = (ak, base, write_regs xs (map ((!) ak) [nat (base + i), nat (base + i) + 1, nat (base + i) + 2, nat (base + i) + 3]) ar)"
      using assms(2) by (auto simp: ast split: if_splits)
    have "list_all2 (agrees key) (map ((!) ak) [nat (base + i), nat (base + i) + 1, nat (base + i) + 2, nat (base + i) + 3])
        (map ((!) k) [nat (base + i), nat (base + i) + 1, nat (base + i) + 2, nat (base + i) + 3])"
      using rel chk(1) by (intro read_regs_rel) simp_all
    then show ?thesis using rel by (simp only: krel_def st Loadkeys chk(2) exec_key.simps prod.case write_regs_rel length_write_regs)
  qed
qed

lemma check_keys_sound: "krel key st ast \<Longrightarrow> check_keys ops ast = Some ast' \<Longrightarrow> krel key (fold exec_key ops st) ast'"
proof (induction ops arbitrary: st ast)
  case (Cons op ops)
  then obtain ast1 where "check_key op ast = Some ast1" "check_keys ops ast1 = Some ast'" by (auto split: option.splits)
  then show ?case using Cons.IH [of "exec_key op st" ast1] check_key_sound [OF Cons.prems(1)] by simp
qed simp

lemma check_keys_append:
  "check_keys xs st = Some st' \<Longrightarrow> check_keys ys st' = Some st'' \<Longrightarrow> check_keys (xs @ ys) st = Some st''"
  by (induction xs arbitrary: st) (auto split: option.splits)

lemma keyiters_checked:
  "check_keys setkey_keyiters (map Pre [0..<8] @ replicate 124 Unk, 0, map Pre [3..<8]) =
     Some (map Pre [8..<140], 100, map Pre [138, 139, 135, 136, 137])"
  by code_simp

lemma sboxes_checked:
  "map_option fst (check_keys setkey_sboxes (map Pre [8..<140], 100, map Pre [138, 139, 135, 136, 137])) =
     Some (concat (map (\<lambda>m. map (Sub ((35 - m) mod 8) m) [0, 1, 2, 3]) [0..<33]))"
  by code_simp

definition padded_key :: "u8 list \<Rightarrow> u32 list" where
  "padded_key key = map (le32_at (if length key < 32 then key @ [1] @ replicate (31 - length key) 0 else key)) [0..<8]"

lemma agrees_concat:
  "list_all2 (agrees k) (concat (map (\<lambda>m. map (Sub ((35 - m) mod 8) m) [0, 1, 2, 3]) ms)) vs \<Longrightarrow>
    vs = concat (map (round_key k) ms)"
proof (induction ms arbitrary: vs)
  case (Cons m ms)
  let ?n = "(35 - m) mod 8" and ?ks = "map (prekey k) [4 * m + 8, 4 * m + 9, 4 * m + 10, 4 * m + 11]"
  have "length (round_key k m) = 4" by (simp add: round_key_def op_abs_def out_pos_length)
  then obtain a b c d where rk: "round_key k m = [a, b, c, d]" by (rule list4_exhaust)
  obtain v0 v1 v2 v3 ws where vs: "vs = v0 # v1 # v2 # v3 # ws"
    "agrees k (Sub ?n m 0) v0" "agrees k (Sub ?n m 1) v1" "agrees k (Sub ?n m 2) v2" "agrees k (Sub ?n m 3) v3"
    "list_all2 (agrees k) (concat (map (\<lambda>m. map (Sub ((35 - m) mod 8) m) [0, 1, 2, 3]) ms)) ws"
    using Cons.prems by (auto simp: list_all2_Cons1 simp del: agrees.simps)
  then show ?case using Cons.IH [OF vs(6)] rk [unfolded round_key_def] rk by (simp only: agrees.simps) simp
qed simp

text \<open>C16. Key schedule equivalence: the unrolled key schedule, with its moving pointer, rotating registers and S-boxes
  applied from the last round key to the first, stores the 33 round keys of the Serpent
  recurrence: the prekeys in groups of four under the S-boxes 3, 2, 1, 0, 7, ..., whatever the
  array held before.\<close>

theorem serpent_setkey_recurrence:
  assumes "length old = 132"
  shows "serpent_setkey old key = concat (map (round_key (padded_key key)) [0..<33])"
proof -
  let ?k = "padded_key key"
  let ?st = "(?k @ drop 8 old, 0, [?k ! 3, ?k ! 4, ?k ! 5, ?k ! 6, ?k ! 7])"
  let ?ast = "(map Pre [0..<8] @ replicate 124 Unk, 0, map Pre [3..<8])"
  have k8: "length ?k = 8" by (simp add: padded_key_def)
  have pre: "prekey ?k i = ?k ! i" if "i < 8" for i using that by (simp add: prekey.simps)
  have upt: "[3..<8] = [3, 4, 5, 6, 7 :: nat]" by (simp add: upt_rec)
  have "list_all2 (agrees ?k) (map Pre [0..<8] @ replicate 124 Unk) (?k @ drop 8 old)"
    using assms k8 pre by (auto simp: list_all2_conv_all_nth nth_append)
  then have "krel ?k ?st ?ast" using assms k8 pre by (simp add: krel_def upt)
  moreover obtain ast where "check_keys (setkey_keyiters @ setkey_sboxes) ?ast = Some ast"
    "fst ast = concat (map (\<lambda>m. map (Sub ((35 - m) mod 8) m) [0, 1, 2, 3]) [0..<33])"
    using check_keys_append [OF keyiters_checked] sboxes_checked by (auto simp del: upt.simps)
  ultimately have "list_all2 (agrees ?k) (concat (map (\<lambda>m. map (Sub ((35 - m) mod 8) m) [0, 1, 2, 3]) [0..<33]))
      (fst (fold exec_key (setkey_keyiters @ setkey_sboxes) ?st))"
    using check_keys_sound [of ?k ?st ?ast "setkey_keyiters @ setkey_sboxes" ast] by (auto simp: krel_def split: prod.splits)
  then have "fst (fold exec_key (setkey_keyiters @ setkey_sboxes) ?st) = concat (map (round_key ?k) [0..<33])"
    by (rule agrees_concat)
  moreover have "serpent_setkey old key = fst (fold exec_key (setkey_keyiters @ setkey_sboxes) ?st)"
    unfolding serpent_setkey_def Let_def padded_key_def [symmetric] using k8 by (simp add: nth_append)
  ultimately show ?thesis by simp
qed

theorem serpent_setkey_recurrence_witness:
  "serpent_setkey (replicate 132 0) [1, 2, 3] = concat (map (round_key (padded_key [1, 2, 3])) [0..<33])"
  using serpent_setkey_recurrence [of "replicate 132 0" "[1, 2, 3]"] by simp

end
