(* ===== verification/Crypto_Algs.thy ===== *)
theory Crypto_Algs
  imports Tea Serpent Blowfish
begin

text \<open>
  The registered ciphers and the key setup of \<^verbatim>\<open>crypto/cipher.c\<close>, and the properties of the modes
  over them.  A cipher is registered by a structure of its block size, key sizes and
  functions; the context its key setup fills is an array of words.
\<close>

record crypto_alg =
  cra_blocksize :: nat
  cra_alignmask :: u32
  cia_min_keysize :: nat
  cia_max_keysize :: nat
  cia_setkey :: "u32 list \<Rightarrow> u8 list \<Rightarrow> u32 list"
  cia_encrypt :: "u32 list \<Rightarrow> u8 list \<Rightarrow> u8 list"
  cia_decrypt :: "u32 list \<Rightarrow> u8 list \<Rightarrow> u8 list"

text \<open>The key setup gets the memory of the context as it was, and returns it as it leaves it.\<close>

definition tea_alg :: crypto_alg where
  "tea_alg = \<lparr>cra_blocksize = 8, cra_alignmask = 3, cia_min_keysize = 16, cia_max_keysize = 16,
     cia_setkey = \<lambda>old. tea_setkey, cia_encrypt = tea_encrypt, cia_decrypt = tea_decrypt\<rparr>"

definition xtea_alg :: crypto_alg where
  "xtea_alg = \<lparr>cra_blocksize = 8, cra_alignmask = 3, cia_min_keysize = 16, cia_max_keysize = 16,
     cia_setkey = \<lambda>old. xtea_setkey, cia_encrypt = \<lambda>k b. the (xtea_encrypt 32 k b),
     cia_decrypt = \<lambda>k b. the (xtea_decrypt 32 k b)\<rparr>"

definition xeta_alg :: crypto_alg where
  "xeta_alg = \<lparr>cra_blocksize = 8, cra_alignmask = 3, cia_min_keysize = 16, cia_max_keysize = 16,
     cia_setkey = \<lambda>old. xtea_setkey, cia_encrypt = \<lambda>k b. the (xeta_encrypt 32 k b),
     cia_decrypt = \<lambda>k b. the (xeta_decrypt 32 k b)\<rparr>"

definition serpent_alg :: crypto_alg where
  "serpent_alg = \<lparr>cra_blocksize = 16, cra_alignmask = 3, cia_min_keysize = 0, cia_max_keysize = 32,
     cia_setkey = serpent_setkey, cia_encrypt = serpent_encrypt, cia_decrypt = serpent_decrypt\<rparr>"

definition tnepres_alg :: crypto_alg where
  "tnepres_alg = \<lparr>cra_blocksize = 16, cra_alignmask = 3, cia_min_keysize = 0, cia_max_keysize = 32,
     cia_setkey = tnepres_setkey, cia_encrypt = tnepres_encrypt, cia_decrypt = tnepres_decrypt\<rparr>"

definition blowfish_alg :: crypto_alg where
  "blowfish_alg = \<lparr>cra_blocksize = 8, cra_alignmask = 3, cia_min_keysize = 4, cia_max_keysize = 56,
     cia_setkey = \<lambda>old. bf_setkey, cia_encrypt = bf_encrypt, cia_decrypt = bf_decrypt\<rparr>"

definition registered :: "crypto_alg list" where
  "registered = [tea_alg, xtea_alg, xeta_alg, serpent_alg, tnepres_alg, blowfish_alg]"

text \<open>A key that is not aligned is copied to an allocated buffer first; \<open>alloc\<close> tells whether that
  succeeds.\<close>

definition setkey_unaligned :: "crypto_alg \<Rightarrow> bool \<Rightarrow> u32 list \<Rightarrow> u8 list \<Rightarrow> u32 list kres" where
  "setkey_unaligned alg alloc old key = (if \<not> alloc then Inl ENOMEM else Inr (cia_setkey alg old key))"

definition cipher_setkey :: "crypto_alg \<Rightarrow> u32 \<Rightarrow> bool \<Rightarrow> u32 list \<Rightarrow> u8 list \<Rightarrow> u32 list kres" where
  "cipher_setkey alg addr alloc old key =
     (if length key < cia_min_keysize alg \<or> cia_max_keysize alg < length key then Inl EINVAL
      else if addr AND cra_alignmask alg \<noteq> 0 then setkey_unaligned alg alloc old key
      else Inr (cia_setkey alg old key))"

section \<open>Properties\<close>

text \<open>Data in equal pieces whose first block is unaligned, with memory for the copies; for the
  examples.\<close>

definition mem_example :: "nat \<Rightarrow> bool \<Rightarrow> walk_mem" where
  "mem_example c same = \<lparr>contig = \<lambda>r. c, same_buf = \<lambda>r. same, aligned_at = \<lambda>r. r < 20, page_ok = True, buf_ok = True,
     iv_aligned = False, iv_buf_ok = True, in_irq = False\<rparr>"

lemma mem_example_ok: "mem_ok (mem_example c same)"
  by (simp add: mem_ok_def mem_example_def)

lemmas alg_defs = tea_alg_def xtea_alg_def xeta_alg_def serpent_alg_def tnepres_alg_def blowfish_alg_def

lemma registered_cipher:
  assumes "alg \<in> set registered"
  shows "block_cipher (cra_blocksize alg) (cia_encrypt alg ctx) (cia_decrypt alg ctx)"
  using assms tea.block_cipher_axioms xtea.block_cipher_axioms xeta.block_cipher_axioms
    serpent.block_cipher_axioms tnepres.block_cipher_axioms blowfish.block_cipher_axioms
  by (auto simp: registered_def alg_defs)

text \<open>C7. Every registered cipher in ECB, CBC and PCBC mode decrypts what it encrypted: for every key
  the key setup accepts, every initial vector and every message of whole blocks, however the
  data is scattered and whether parts are processed in place or not, on either side; the
  chaining values left behind agree too.  The walk must get the memory it may need, and must not run in an interrupt.\<close>

theorem modes_roundtrip:
  assumes "alg \<in> set registered" and "cipher_setkey alg addr alloc old key = Inr ctx"
    and "length iv = cra_blocksize alg" and "cra_blocksize alg dvd length src"
    and "mem_ok layout" and "mem_ok layout'"
  shows "(\<exists>out. crypto_ecb_crypt (cia_encrypt alg ctx) (cra_blocksize alg) layout src = Some (Inr (), out) \<and>
       crypto_ecb_crypt (cia_decrypt alg ctx) (cra_blocksize alg) layout' out = Some (Inr (), src)) \<and>
    (\<exists>out iv'. crypto_cbc_encrypt (cia_encrypt alg ctx) (cra_blocksize alg) layout src iv = Some (Inr (), out, iv') \<and>
       crypto_cbc_decrypt (cia_decrypt alg ctx) (cra_blocksize alg) layout' out iv = Some (Inr (), src, iv')) \<and>
    (\<exists>out iv'. crypto_pcbc_encrypt (cia_encrypt alg ctx) (cra_blocksize alg) layout src iv = Some (Inr (), out, iv') \<and>
       crypto_pcbc_decrypt (cia_decrypt alg ctx) (cra_blocksize alg) layout' out iv = Some (Inr (), src, iv'))"
  using registered_cipher [OF assms(1), of ctx] assms(3-6)
  by (intro conjI block_cipher.ecb_roundtrip block_cipher.cbc_roundtrip block_cipher.pcbc_roundtrip) simp_all

theorem modes_roundtrip_witness:
  "\<exists>out iv'. crypto_cbc_encrypt (cia_encrypt serpent_alg (serpent_setkey [] [])) 16 (mem_example 24 True) (replicate 48 7) (replicate 16 1) =
       Some (Inr (), out, iv') \<and>
     crypto_cbc_decrypt (cia_decrypt serpent_alg (serpent_setkey [] [])) 16 (mem_example 7 False) out (replicate 16 1) =
       Some (Inr (), replicate 48 7, iv')"
  using modes_roundtrip [of serpent_alg 0 False "[]" "[]" "serpent_setkey [] []" "replicate 16 1" "replicate 48 7" "mem_example 24 True" "mem_example 7 False"]
  by (simp add: registered_def serpent_alg_def cipher_setkey_def mem_example_ok)

text \<open>C21. CTR mode applied twice with the same initial counter gives back the message, for every
  registered cipher, every message length and every pair of scatter layouts, when the walk gets the memory it may need.\<close>

theorem ctr_mode_roundtrip:
  assumes "alg \<in> set registered" and "cipher_setkey alg addr alloc old key = Inr ctx" and "length iv = cra_blocksize alg"
    and "mem_ok layout" and "mem_ok layout'"
  shows "\<exists>out iv'. crypto_ctr_crypt (cia_encrypt alg ctx) (cra_blocksize alg) layout src iv = Some (Inr (), out, iv') \<and>
    length out = length src \<and> crypto_ctr_crypt (cia_encrypt alg ctx) (cra_blocksize alg) layout' out iv = Some (Inr (), src, iv')"
  using registered_cipher [OF assms(1), of ctx] assms(3-5) by (intro block_cipher.ctr_roundtrip)

theorem ctr_mode_roundtrip_witness:
  "\<exists>out iv'. crypto_ctr_crypt (cia_encrypt blowfish_alg (bf_setkey [1, 2, 3, 4])) 8 (mem_example 3 True) (replicate 21 7) (replicate 8 0xff) = Some (Inr (), out, iv') \<and>
     length out = 21 \<and>
     crypto_ctr_crypt (cia_encrypt blowfish_alg (bf_setkey [1, 2, 3, 4])) 8 (mem_example 100 True) out (replicate 8 0xff) = Some (Inr (), replicate 21 7, iv')"
  using ctr_mode_roundtrip [of blowfish_alg 0 False "[]" "[1, 2, 3, 4]" "bf_setkey [1, 2, 3, 4]" "replicate 8 0xff" "mem_example 3 True" "mem_example 100 True" "replicate 21 7"]
  by (simp add: registered_def blowfish_alg_def cipher_setkey_def mem_example_ok)

text \<open>C30. With the memory the walk may need, the block modes reject every message that is not a whole number of blocks with
  \<^verbatim>\<open>-EINVAL\<close>, and the key setup rejects keys of a length the cipher does not have; it fails for
  lack of memory only when an unaligned key could not be copied.\<close>

theorem modes_reject_partial_blocks:
  assumes "alg \<in> set registered" and "length iv = cra_blocksize alg" and "\<not> cra_blocksize alg dvd length src"
    and "mem_ok layout"
  shows "map_option fst (crypto_ecb_crypt (cia_encrypt alg ctx) (cra_blocksize alg) layout src) = Some (Inl EINVAL) \<and>
    map_option fst (crypto_cbc_encrypt (cia_encrypt alg ctx) (cra_blocksize alg) layout src iv) = Some (Inl EINVAL) \<and>
    map_option fst (crypto_pcbc_encrypt (cia_encrypt alg ctx) (cra_blocksize alg) layout src iv) = Some (Inl EINVAL) \<and>
    map_option fst (crypto_cbc_decrypt (cia_decrypt alg ctx) (cra_blocksize alg) layout src iv) = Some (Inl EINVAL) \<and>
    map_option fst (crypto_pcbc_decrypt (cia_decrypt alg ctx) (cra_blocksize alg) layout src iv) = Some (Inl EINVAL) \<and>
    (cipher_setkey alg addr alloc old key = Inl EINVAL \<longleftrightarrow>
       length key < cia_min_keysize alg \<or> cia_max_keysize alg < length key) \<and>
    (cipher_setkey alg addr alloc old key = Inl ENOMEM \<longrightarrow> \<not> alloc \<and> addr AND cra_alignmask alg \<noteq> 0)"
  using block_cipher.modes_reject [OF registered_cipher [OF assms(1), of ctx] assms(2-4)]
  by (simp add: cipher_setkey_def setkey_unaligned_def)

theorem modes_reject_partial_blocks_witness:
  "map_option fst (crypto_cbc_encrypt (cia_encrypt tea_alg [1, 2, 3, 4]) 8 (mem_example 8 True) (replicate 9 0) (replicate 8 0)) = Some (Inl EINVAL)"
  using modes_reject_partial_blocks [of tea_alg "replicate 8 0" "replicate 9 0" "mem_example 8 True" "[1, 2, 3, 4]"]
  by (simp add: registered_def tea_alg_def mem_example_ok)

text \<open>C39. The modes when memory fails.  For every registered cipher, message (of whole blocks, in CTR mode of any length) and
  layout of the data, and whichever allocations succeed: the mode writes a prefix of what it writes with all memory available.
  The prefix is whole unless the walk came to a point where data was not aligned and no page could be had, or a bounce buffer was
  needed and could not be had.  Only the second is reported (\<^verbatim>\<open>-ENOMEM\<close>); without a page the mode returns success, and when the
  data is unaligned from the start it has then written nothing.  A mode is undefined exactly in an interrupt and when an
  unaligned initial vector cannot be copied: it then reads fields of the walk that were never set.\<close>

theorem modes_without_memory:
  assumes "alg \<in> set registered" and "n = cra_blocksize alg" and "length iv = n" and "mem_ok all"
  shows "(n dvd length src \<longrightarrow>
      memory_outcome m n src (crypto_ecb_crypt (cia_encrypt alg ctx) n m src) (crypto_ecb_crypt (cia_encrypt alg ctx) n all src) \<and>
      memory_outcome m n src (map_option (apsnd fst) (crypto_cbc_encrypt (cia_encrypt alg ctx) n m src iv))
        (map_option (apsnd fst) (crypto_cbc_encrypt (cia_encrypt alg ctx) n all src iv)) \<and>
      memory_outcome m n src (map_option (apsnd fst) (crypto_cbc_decrypt (cia_decrypt alg ctx) n m src iv))
        (map_option (apsnd fst) (crypto_cbc_decrypt (cia_decrypt alg ctx) n all src iv)) \<and>
      memory_outcome m n src (map_option (apsnd fst) (crypto_pcbc_encrypt (cia_encrypt alg ctx) n m src iv))
        (map_option (apsnd fst) (crypto_pcbc_encrypt (cia_encrypt alg ctx) n all src iv)) \<and>
      memory_outcome m n src (map_option (apsnd fst) (crypto_pcbc_decrypt (cia_decrypt alg ctx) n m src iv))
        (map_option (apsnd fst) (crypto_pcbc_decrypt (cia_decrypt alg ctx) n all src iv))) \<and>
    memory_outcome m n src (map_option (apsnd fst) (crypto_ctr_crypt (cia_encrypt alg ctx) n m src iv))
      (map_option (apsnd fst) (crypto_ctr_crypt (cia_encrypt alg ctx) n all src iv))"
  using block_cipher.modes_memory [OF registered_cipher [OF assms(1), of ctx], of iv src all m]
    block_cipher.ctr_memory [OF registered_cipher [OF assms(1), of ctx], of iv all m src] assms(2-4) by simp

text \<open>Three blocks that are not aligned, without a page to copy them: the call succeeds and nothing is encrypted.\<close>

definition mem_fails :: walk_mem where
  "mem_fails = \<lparr>contig = \<lambda>r. 16, same_buf = \<lambda>r. False, aligned_at = \<lambda>r. False, page_ok = False, buf_ok = True,
     iv_aligned = True, iv_buf_ok = True, in_irq = False\<rparr>"

lemma memory_outcome_fails: "memory_outcome mem_fails n src result full \<Longrightarrow> src \<noteq> [] \<Longrightarrow> result = Some (Inr (), [])"
  unfolding memory_outcome_def mem_fails_def by auto

theorem modes_without_memory_witness:
  "crypto_ecb_crypt (cia_encrypt tea_alg [1, 2, 3, 4]) 8 mem_fails (replicate 24 1) = Some (Inr (), [])"
proof (rule memory_outcome_fails)
  have "tea_alg \<in> set registered" "8 = cra_blocksize tea_alg" "length (replicate 8 0 :: u8 list) = 8"
    by (simp_all add: registered_def tea_alg_def)
  from modes_without_memory [OF this mem_example_ok [of 8 True], of "replicate 24 1" mem_fails "[1, 2, 3, 4]"]
  show "memory_outcome mem_fails 8 (replicate 24 1) (crypto_ecb_crypt (cia_encrypt tea_alg [1, 2, 3, 4]) 8 mem_fails (replicate 24 1))
      (crypto_ecb_crypt (cia_encrypt tea_alg [1, 2, 3, 4]) 8 (mem_example 8 True) (replicate 24 1))"
    by (rule conjunct1 [OF mp [OF conjunct1]]) simp
qed simp

end
