(* ===== verification/Fair_Waiting.thy ===== *)
theory Fair_Waiting
  imports Main
begin

text \<open>
  Waiting in the queue of a lock, over infinite runs.  A lock is a labelled transition system; the
  locales state when a waiting task is served, and the components that are locks interpret
  them.
\<close>

definition is_run :: "('s \<Rightarrow> 'e \<Rightarrow> 's \<Rightarrow> bool) \<Rightarrow> (nat \<Rightarrow> 's) \<Rightarrow> (nat \<Rightarrow> 'e) \<Rightarrow> bool" where
  "is_run step sts evs = (\<forall>i. step (sts i) (evs i) (sts (Suc i)))"

text \<open>A waiting task has a rank that no step increases and that every step of progress decreases,
  until the task is served.\<close>

locale ranked_wait =
  fixes step :: "'s \<Rightarrow> 'e \<Rightarrow> 's \<Rightarrow> bool" and good :: "'s \<Rightarrow> bool"
    and waits :: "'t \<Rightarrow> 's \<Rightarrow> bool" and served :: "'t \<Rightarrow> 's \<Rightarrow> bool" and rank :: "'t \<Rightarrow> 's \<Rightarrow> nat"
    and progress :: "'e \<Rightarrow> bool"
  assumes good_step: "good s \<Longrightarrow> step s e s' \<Longrightarrow> good s'"
    and wait_step: "good s \<Longrightarrow> step s e s' \<Longrightarrow> waits t s \<Longrightarrow>
      served t s' \<or> waits t s' \<and> rank t s' + of_bool (progress e) \<le> rank t s"
begin

lemma run_good: "is_run step sts evs \<Longrightarrow> good (sts 0) \<Longrightarrow> good (sts i)"
  by (induction i) (auto simp: is_run_def intro: good_step)

lemma waits_on:
  assumes "is_run step sts evs" and "good (sts 0)" and "waits t (sts i)"
  shows "(\<exists>j. i < j \<and> j \<le> i + n \<and> served t (sts j)) \<or>
    waits t (sts (i + n)) \<and> rank t (sts (i + n)) + card {j. i \<le> j \<and> j < i + n \<and> progress (evs j)} \<le> rank t (sts i)"
proof (induction n)
  case (Suc n)
  let ?P = "\<lambda>n. {j. i \<le> j \<and> j < i + n \<and> progress (evs j)}"
  show ?case
  proof (cases "\<exists>j. i < j \<and> j \<le> i + Suc n \<and> served t (sts j)")
    case False
    then have w: "waits t (sts (i + n))" and r: "rank t (sts (i + n)) + card (?P n) \<le> rank t (sts i)"
      and ns: "\<not> served t (sts (Suc (i + n)))"
      using Suc.IH by auto
    have "step (sts (i + n)) (evs (i + n)) (sts (Suc (i + n)))" using assms(1) by (simp add: is_run_def)
    from wait_step [OF run_good [OF assms(1,2)] this w] ns
    have w': "waits t (sts (Suc (i + n)))"
      and r': "rank t (sts (Suc (i + n))) + of_bool (progress (evs (i + n))) \<le> rank t (sts (i + n))" by auto
    have "?P (Suc n) = (if progress (evs (i + n)) then insert (i + n) (?P n) else ?P n)" by (auto simp: less_Suc_eq)
    then have "card (?P (Suc n)) = card (?P n) + of_bool (progress (evs (i + n)))" by (simp add: card_insert_if)
    with w' r r' show ?thesis by (simp del: of_bool_eq_iff)
  qed blast
qed (simp add: assms(3))

lemma eventually_served:
  assumes "is_run step sts evs" and "good (sts 0)" and "waits t (sts i)"
    and "\<And>k. i \<le> k \<Longrightarrow> waits t (sts k) \<Longrightarrow> \<exists>j\<ge>k. progress (evs j)"
  shows "\<exists>j>i. served t (sts j)"
  using assms(3,4)
proof (induction "rank t (sts i)" arbitrary: i rule: less_induct)
  case less
  obtain k where k: "i \<le> k" "progress (evs k)" using less.prems by blast
  show ?case
  proof (cases "\<exists>j. i < j \<and> j \<le> i + (Suc k - i) \<and> served t (sts j)")
    case False
    then have w: "waits t (sts (Suc k))"
      and r: "rank t (sts (Suc k)) + card {j. i \<le> j \<and> j < Suc k \<and> progress (evs j)} \<le> rank t (sts i)"
      using waits_on [OF assms(1,2) less.prems(1), of "Suc k - i"] k by auto
    have "finite {j. i \<le> j \<and> j < Suc k \<and> progress (evs j)}" by simp
    moreover have "k \<in> {j. i \<le> j \<and> j < Suc k \<and> progress (evs j)}" using k by simp
    ultimately have "0 < card {j. i \<le> j \<and> j < Suc k \<and> progress (evs j)}" using card_gt_0_iff by blast
    then have "\<exists>j>Suc k. served t (sts j)" using r w k less.prems by (intro less.hyps) auto
    then show ?thesis using k by (meson le_less_trans less_Suc_eq_le less_trans)
  qed blast
qed

end

text \<open>Where tasks hold the lock while others wait, serving follows from holders letting go.\<close>

locale held_wait = ranked_wait step good waits served rank progress
  for step :: "'s \<Rightarrow> 'e \<Rightarrow> 's \<Rightarrow> bool" and good and waits :: "'t \<Rightarrow> 's \<Rightarrow> bool" and served rank progress +
  fixes holds :: "'u \<Rightarrow> 's \<Rightarrow> bool" and lets_go :: "'u \<Rightarrow> 'e \<Rightarrow> bool"
  assumes held: "good s \<Longrightarrow> waits t s \<Longrightarrow> \<exists>u. holds u s"
    and lets_go_progress: "lets_go u e \<Longrightarrow> progress e"
begin

lemma no_starvation:
  assumes "is_run step sts evs" and "good (sts 0)"
    and fair: "\<And>k u. holds u (sts k) \<Longrightarrow> \<exists>j\<ge>k. lets_go u (evs j)"
    and "waits t (sts i)"
  shows "\<exists>j>i. served t (sts j)"
  using assms(1,2,4)
proof (rule eventually_served)
  fix k assume "waits t (sts k)"
  then obtain u where "holds u (sts k)" using held run_good [OF assms(1,2)] by blast
  then show "\<exists>j\<ge>k. progress (evs j)" using fair lets_go_progress by blast
qed

end

end
