(* ===== verification/Rwsem.thy ===== *)
theory Rwsem
  imports Kernel_Prelude Fair_Waiting
begin

text \<open>
  Read-write semaphores: \<^verbatim>\<open>lib/rwsem-spinlock.c\<close>, the implementation the 32-bit ARM configuration
  selects.  Every operation runs under the semaphore's spinlock, so it is one step; a task
  that waits is woken by the operation that hands it the lock.  The system around the
  semaphore records which tasks hold it and checks that callers follow the locking rules.
\<close>

section \<open>The semaphore\<close>

record rwsem_waiter =
  rw_task :: nat
  rw_flags :: u32

definition RWSEM_WAITING_FOR_READ :: u32 where "RWSEM_WAITING_FOR_READ = 0x00000001"
definition RWSEM_WAITING_FOR_WRITE :: u32 where "RWSEM_WAITING_FOR_WRITE = 0x00000002"

record rw_semaphore =
  activity :: "32 word"
  wait_list :: "rwsem_waiter list"

definition init_rwsem :: rw_semaphore where
  "init_rwsem = \<lparr>activity = 0, wait_list = []\<rparr>"

text \<open>\<open>got_lock\<close> tells whether the spinlock was free.\<close>

definition rwsem_is_locked :: "bool \<Rightarrow> rw_semaphore \<Rightarrow> bool" where
  "rwsem_is_locked got_lock sem = (if got_lock then activity sem \<noteq> 0 else True)"

text \<open>The loop that grants read locks to the front of the queue: the waiters woken, and those left.\<close>

fun wake_readers :: "rwsem_waiter list \<Rightarrow> rwsem_waiter list \<times> rwsem_waiter list" where
  "wake_readers [] = ([], [])"
| "wake_readers (w # ws) =
     (if rw_flags w AND RWSEM_WAITING_FOR_READ \<noteq> 0
      then (case wake_readers ws of (woken, left) \<Rightarrow> (w # woken, left)) else ([], w # ws))"

text \<open>Taking the first entry of an empty queue is undefined (\<open>None\<close>).\<close>

definition rwsem_do_wake :: "rw_semaphore \<Rightarrow> bool \<Rightarrow> (rwsem_waiter list \<times> rw_semaphore) option" where
  "rwsem_do_wake sem wakewrite = (case wait_list sem of
     [] \<Rightarrow> None
   | waiter # ws \<Rightarrow>
       if \<not> wakewrite \<and> rw_flags waiter AND RWSEM_WAITING_FOR_WRITE \<noteq> 0 then Some ([], sem)
       else if wakewrite \<and> rw_flags waiter AND RWSEM_WAITING_FOR_WRITE \<noteq> 0
       then Some ([waiter], sem\<lparr>activity := -1, wait_list := ws\<rparr>)
       else (case wake_readers (waiter # ws) of (woken, left) \<Rightarrow>
         Some (woken, sem\<lparr>wait_list := left, activity := activity sem + word_of_nat (length woken)\<rparr>)))"

definition rwsem_wake_one_writer :: "rw_semaphore \<Rightarrow> (rwsem_waiter list \<times> rw_semaphore) option" where
  "rwsem_wake_one_writer sem = (case wait_list sem of
     [] \<Rightarrow> None
   | waiter # ws \<Rightarrow> Some ([waiter], sem\<lparr>activity := -1, wait_list := ws\<rparr>))"

text \<open>Taking the lock returns whether it was granted at once; otherwise the task is queued.\<close>

definition down_read :: "nat \<Rightarrow> rw_semaphore \<Rightarrow> bool \<times> rw_semaphore" where
  "down_read tsk sem =
     (if 0 \<le> sint (activity sem) \<and> wait_list sem = [] then (True, sem\<lparr>activity := activity sem + 1\<rparr>)
      else (False, sem\<lparr>wait_list := wait_list sem @ [\<lparr>rw_task = tsk, rw_flags = RWSEM_WAITING_FOR_READ\<rparr>]\<rparr>))"

definition down_read_trylock :: "rw_semaphore \<Rightarrow> bool \<times> rw_semaphore" where
  "down_read_trylock sem =
     (if 0 \<le> sint (activity sem) \<and> wait_list sem = [] then (True, sem\<lparr>activity := activity sem + 1\<rparr>)
      else (False, sem))"

definition down_write_nested :: "nat \<Rightarrow> rw_semaphore \<Rightarrow> bool \<times> rw_semaphore" where
  "down_write_nested tsk sem =
     (if activity sem = 0 \<and> wait_list sem = [] then (True, sem\<lparr>activity := -1\<rparr>)
      else (False, sem\<lparr>wait_list := wait_list sem @ [\<lparr>rw_task = tsk, rw_flags = RWSEM_WAITING_FOR_WRITE\<rparr>]\<rparr>))"

definition down_write :: "nat \<Rightarrow> rw_semaphore \<Rightarrow> bool \<times> rw_semaphore" where
  "down_write tsk sem = down_write_nested tsk sem"

definition down_write_trylock :: "rw_semaphore \<Rightarrow> bool \<times> rw_semaphore" where
  "down_write_trylock sem =
     (if activity sem = 0 \<and> wait_list sem = [] then (True, sem\<lparr>activity := -1\<rparr>) else (False, sem))"

text \<open>Releasing returns the waiters that are handed the lock.\<close>

definition up_read :: "rw_semaphore \<Rightarrow> (rwsem_waiter list \<times> rw_semaphore) option" where
  "up_read sem =
     (let sem = sem\<lparr>activity := activity sem - 1\<rparr> in
      if activity sem = 0 \<and> wait_list sem \<noteq> [] then rwsem_wake_one_writer sem else Some ([], sem))"

definition up_write :: "rw_semaphore \<Rightarrow> (rwsem_waiter list \<times> rw_semaphore) option" where
  "up_write sem =
     (let sem = sem\<lparr>activity := 0\<rparr> in
      if wait_list sem \<noteq> [] then rwsem_do_wake sem True else Some ([], sem))"

definition downgrade_write :: "rw_semaphore \<Rightarrow> (rwsem_waiter list \<times> rw_semaphore) option" where
  "downgrade_write sem =
     (let sem = sem\<lparr>activity := 1\<rparr> in
      if wait_list sem \<noteq> [] then rwsem_do_wake sem False else Some ([], sem))"

section \<open>Tasks using the semaphore\<close>

record rw_sys =
  rsem :: rw_semaphore
  rd_tasks :: "nat list"
  wr_tasks :: "nat list"

datatype rw_event =
    Down_read nat | Try_read nat | Down_write nat | Try_write nat
  | Up_read nat | Up_write nat | Downgrade nat

definition is_reader :: "rwsem_waiter \<Rightarrow> bool" where
  "is_reader w = (rw_flags w AND RWSEM_WAITING_FOR_READ \<noteq> 0)"

definition is_writer :: "rwsem_waiter \<Rightarrow> bool" where
  "is_writer w = (rw_flags w AND RWSEM_WAITING_FOR_WRITE \<noteq> 0)"

text \<open>A woken task returns from the call it made: for reading or for writing.\<close>

definition grant :: "rwsem_waiter list \<Rightarrow> rw_sys \<Rightarrow> rw_sys" where
  "grant woken S = S\<lparr>rd_tasks := rd_tasks S @ map rw_task (filter is_reader woken),
     wr_tasks := wr_tasks S @ map rw_task (filter is_writer woken)\<rparr>"

definition take_read :: "nat \<Rightarrow> bool \<times> rw_semaphore \<Rightarrow> rw_sys \<Rightarrow> rw_sys" where
  "take_read t r S = S\<lparr>rsem := snd r, rd_tasks := rd_tasks S @ (if fst r then [t] else [])\<rparr>"

definition take_write :: "nat \<Rightarrow> bool \<times> rw_semaphore \<Rightarrow> rw_sys \<Rightarrow> rw_sys" where
  "take_write t r S = S\<lparr>rsem := snd r, wr_tasks := wr_tasks S @ (if fst r then [t] else [])\<rparr>"

fun rw_exec :: "rw_event \<Rightarrow> rw_sys \<Rightarrow> rw_sys option" where
  "rw_exec (Down_read t) S = Some (take_read t (down_read t (rsem S)) S)"
| "rw_exec (Try_read t) S = Some (take_read t (down_read_trylock (rsem S)) S)"
| "rw_exec (Down_write t) S = Some (take_write t (down_write t (rsem S)) S)"
| "rw_exec (Try_write t) S = Some (take_write t (down_write_trylock (rsem S)) S)"
| "rw_exec (Up_read t) S =
     map_option (\<lambda>(woken, sem). grant woken (S\<lparr>rsem := sem, rd_tasks := remove1 t (rd_tasks S)\<rparr>)) (up_read (rsem S))"
| "rw_exec (Up_write t) S =
     map_option (\<lambda>(woken, sem). grant woken (S\<lparr>rsem := sem, wr_tasks := remove1 t (wr_tasks S)\<rparr>)) (up_write (rsem S))"
| "rw_exec (Downgrade t) S =
     map_option (\<lambda>(woken, sem). grant woken (S\<lparr>rsem := sem, wr_tasks := remove1 t (wr_tasks S),
         rd_tasks := rd_tasks S @ [t]\<rparr>)) (downgrade_write (rsem S))"

text \<open>The locking rules: a task takes the lock only when it neither has it nor waits for it, and
  releases what it has.  Tasks are named by process numbers, which lie below \<^verbatim>\<open>PID_MAX_DEFAULT\<close>.\<close>

definition PID_MAX_DEFAULT :: nat where "PID_MAX_DEFAULT = 0x8000"

abbreviation rw_tasks :: "rw_sys \<Rightarrow> nat list" where
  "rw_tasks S \<equiv> rd_tasks S @ wr_tasks S @ map rw_task (wait_list (rsem S))"

fun rw_legal :: "rw_event \<Rightarrow> rw_sys \<Rightarrow> bool" where
  "rw_legal (Up_read t) S = (t \<in> set (rd_tasks S))"
| "rw_legal (Up_write t) S = (t \<in> set (wr_tasks S))"
| "rw_legal (Downgrade t) S = (t \<in> set (wr_tasks S))"
| "rw_legal (Down_read t) S = (t < PID_MAX_DEFAULT \<and> t \<notin> set (rw_tasks S))"
| "rw_legal (Try_read t) S = (t < PID_MAX_DEFAULT \<and> t \<notin> set (rw_tasks S))"
| "rw_legal (Down_write t) S = (t < PID_MAX_DEFAULT \<and> t \<notin> set (rw_tasks S))"
| "rw_legal (Try_write t) S = (t < PID_MAX_DEFAULT \<and> t \<notin> set (rw_tasks S))"

definition rw_step :: "rw_sys \<Rightarrow> rw_event \<Rightarrow> rw_sys \<Rightarrow> bool" where
  "rw_step S e S' = (rw_legal e S \<and> rw_exec e S = Some S')"

definition rw_init :: rw_sys where
  "rw_init = \<lparr>rsem = init_rwsem, rd_tasks = [], wr_tasks = []\<rparr>"

inductive rw_reach :: "rw_sys \<Rightarrow> bool" where
  rw_start: "rw_reach rw_init"
| rw_next: "rw_reach S \<Longrightarrow> rw_step S e S' \<Longrightarrow> rw_reach S'"

section \<open>The invariant\<close>

text \<open>The activity count says who holds the lock, and the lock is never idle, nor the front of the queue
  a reader among readers, while tasks wait.\<close>

definition rw_inv :: "rw_sys \<Rightarrow> bool" where
  "rw_inv S \<longleftrightarrow> distinct (rw_tasks S) \<and> (\<forall>t \<in> set (rw_tasks S). t < PID_MAX_DEFAULT) \<and>
     (\<forall>w \<in> set (wait_list (rsem S)). is_reader w \<noteq> is_writer w) \<and>
     (if wr_tasks S = [] then activity (rsem S) = word_of_nat (length (rd_tasks S))
      else length (wr_tasks S) = 1 \<and> rd_tasks S = [] \<and> activity (rsem S) = -1) \<and>
     (wait_list (rsem S) \<noteq> [] \<longrightarrow> wr_tasks S \<noteq> [] \<or> rd_tasks S \<noteq> [] \<and> is_writer (hd (wait_list (rsem S))))"

lemma wake_readers_eq: "wake_readers ws = (takeWhile is_reader ws, dropWhile is_reader ws)"
  by (induction ws) (auto simp: is_reader_def)

lemma distinct_below: "distinct xs \<Longrightarrow> \<forall>x \<in> set xs. x < n \<Longrightarrow> length xs \<le> n"
  using card_mono [of "{..<n}" "set xs"] by (auto simp: distinct_card)

lemma new_waiter [simp]:
  "is_reader \<lparr>rw_task = t, rw_flags = RWSEM_WAITING_FOR_READ\<rparr>" "\<not> is_writer \<lparr>rw_task = t, rw_flags = RWSEM_WAITING_FOR_READ\<rparr>"
  "is_writer \<lparr>rw_task = t, rw_flags = RWSEM_WAITING_FOR_WRITE\<rparr>" "\<not> is_reader \<lparr>rw_task = t, rw_flags = RWSEM_WAITING_FOR_WRITE\<rparr>"
  by (simp_all add: is_reader_def is_writer_def RWSEM_WAITING_FOR_READ_def RWSEM_WAITING_FOR_WRITE_def)

lemma rw_few:
  assumes "rw_inv S" shows "length (rd_tasks S) \<le> 0x8000" and "length (rw_tasks S) \<le> 0x8000"
  using distinct_below [of "rw_tasks S" PID_MAX_DEFAULT] assms by (simp_all add: rw_inv_def PID_MAX_DEFAULT_def)

text \<open>At the numbers of tasks there can be, the count does not wrap around.\<close>

lemma few_word:
  assumes "n \<le> 0x8001"
  shows "(word_of_nat n :: 32 word) = 0 \<longleftrightarrow> n = 0" and "0 \<le> sint (word_of_nat n :: 32 word)" and "(word_of_nat n :: 32 word) \<noteq> -1"
proof -
  have u: "unat (word_of_nat n :: 32 word) = n" using assms by (intro unat_word_of_nat_small) simp
  show "(word_of_nat n :: 32 word) = 0 \<longleftrightarrow> n = 0" using u by (metis unat_0 unat_eq_zero)
  show "0 \<le> sint (word_of_nat n :: 32 word)" using sint_small [of "word_of_nat n :: 32 word"] u assms by simp
  then show "(word_of_nat n :: 32 word) \<noteq> -1" by auto
qed

lemma take_read_inv:
  assumes "rw_inv S" and "t < PID_MAX_DEFAULT" and "t \<notin> set (rw_tasks S)"
  shows "rw_inv (take_read t (down_read t (rsem S)) S)" and "rw_inv (take_read t (down_read_trylock (rsem S)) S)"
  using assms few_word [of "length (rd_tasks S)"] rw_few [OF assms(1)]
  by (auto simp: rw_inv_def take_read_def down_read_def down_read_trylock_def hd_append split: if_splits)

lemma take_write_inv:
  assumes "rw_inv S" and "t < PID_MAX_DEFAULT" and "t \<notin> set (rw_tasks S)"
  shows "rw_inv (take_write t (down_write t (rsem S)) S)" and "rw_inv (take_write t (down_write_trylock (rsem S)) S)"
  using assms few_word [of "length (rd_tasks S)"] rw_few [OF assms(1)]
  by (auto simp: rw_inv_def take_write_def down_write_def down_write_nested_def down_write_trylock_def hd_append split: if_splits)

lemma split_queue:
  assumes "\<forall>w \<in> set ws. is_reader w \<noteq> is_writer w"
  shows "filter is_reader (takeWhile is_reader ws) = takeWhile is_reader ws" and "filter is_writer (takeWhile is_reader ws) = []"
    and "dropWhile is_reader ws \<noteq> [] \<Longrightarrow> is_writer (hd (dropWhile is_reader ws))"
  using assms by (induction ws) auto

lemma up_read_inv:
  assumes "rw_inv S" and t: "t \<in> set (rd_tasks S)"
  obtains S' where "rw_exec (Up_read t) S = Some S'" and "rw_inv S'"
proof -
  let ?n = "length (rd_tasks S)"
  have wr: "wr_tasks S = []" and act: "activity (rsem S) = word_of_nat ?n" and pos: "0 < ?n"
    using assms by (auto simp: rw_inv_def split: if_splits)
  have less: "activity (rsem S) - 1 = word_of_nat (?n - 1)" using act pos by (simp add: of_nat_diff Suc_le_eq)
  have zero: "activity (rsem S) - 1 = 0 \<longleftrightarrow> ?n = 1"
    unfolding less by (subst few_word(1)) (use rw_few(1) [OF assms(1)] pos in linarith)+
  have len: "length (remove1 t (rd_tasks S)) = ?n - 1" using t by (simp add: length_remove1)
  show thesis
  proof (cases "?n = 1 \<and> wait_list (rsem S) \<noteq> []")
    case True
    then obtain w ws where ws: "wait_list (rsem S) = w # ws" by (cases "wait_list (rsem S)") auto
    have w: "is_writer w" "\<not> is_reader w" using assms(1) ws wr by (auto simp: rw_inv_def)
    have rd: "rd_tasks S = [t]" using True t by (cases "rd_tasks S") auto
    show ?thesis
      using that assms(1) True w ws zero wr rd
      by (simp add: rw_inv_def up_read_def rwsem_wake_one_writer_def grant_def)
  next
    case False
    then have "up_read (rsem S) = Some ([], (rsem S)\<lparr>activity := activity (rsem S) - 1\<rparr>)"
      using zero by (auto simp: up_read_def)
    moreover have "remove1 t (rd_tasks S) \<noteq> []" if "wait_list (rsem S) \<noteq> []" using that False len pos by (cases ?n) auto
    ultimately show ?thesis
      using that assms(1) wr less len by (auto simp: rw_inv_def grant_def dest: notin_set_remove1 set_remove1_subset [THEN subsetD])
  qed
qed

lemma writer_only:
  assumes "rw_inv S" and "t \<in> set (wr_tasks S)"
  shows "wr_tasks S = [t]" and "rd_tasks S = []" and "activity (rsem S) = -1"
  using assms by (auto simp: rw_inv_def length_Suc_conv split: if_splits)

lemma readers_woken_inv:
  assumes "distinct (B @ map rw_task ws)" and "\<forall>t \<in> set (B @ map rw_task ws). t < PID_MAX_DEFAULT"
    and "\<forall>w \<in> set ws. is_reader w \<noteq> is_writer w" and "B \<noteq> [] \<or> ws \<noteq> [] \<and> is_reader (hd ws)"
    and "rd_tasks S = B @ map rw_task (takeWhile is_reader ws)" and "wr_tasks S = []"
    and "wait_list (rsem S) = dropWhile is_reader ws" and "activity (rsem S) = word_of_nat (length (rd_tasks S))"
  shows "rw_inv S"
proof -
  have ws: "map rw_task ws = map rw_task (takeWhile is_reader ws) @ map rw_task (dropWhile is_reader ws)"
    by (simp flip: map_append)
  have "distinct (rw_tasks S)" "\<forall>t \<in> set (rw_tasks S). t < PID_MAX_DEFAULT"
    using assms(1,2) unfolding assms(5-7) ws by simp_all
  moreover have "rd_tasks S \<noteq> []" using assms(4) unfolding assms(5) by (cases ws) auto
  moreover have "\<forall>w \<in> set (wait_list (rsem S)). is_reader w \<noteq> is_writer w"
    using assms(3) unfolding assms(7) by (meson set_dropWhileD)
  ultimately show ?thesis using assms(6-8) split_queue(3) [OF assms(3)] by (simp add: rw_inv_def)
qed

lemma rw_invD:
  assumes "rw_inv S"
  shows "distinct (rw_tasks S)" and "\<forall>t \<in> set (rw_tasks S). t < PID_MAX_DEFAULT" and "\<forall>w \<in> set (wait_list (rsem S)). is_reader w \<noteq> is_writer w"
  using assms by (simp_all add: rw_inv_def)

lemma up_write_inv:
  assumes "rw_inv S" and "t \<in> set (wr_tasks S)"
  obtains S' where "rw_exec (Up_write t) S = Some S'" and "rw_inv S'"
proof (cases "wait_list (rsem S)")
  case Nil
  then show thesis using that assms(1) writer_only [OF assms] by (simp add: rw_inv_def up_write_def grant_def)
next
  case (Cons w ws)
  show thesis
  proof (cases "is_writer w")
    case True
    then show ?thesis
      using that assms(1) writer_only [OF assms] Cons
      by (auto simp: rw_inv_def up_write_def rwsem_do_wake_def grant_def is_writer_def)
  next
    case False
    then have w: "is_reader w" "rw_flags w AND RWSEM_WAITING_FOR_WRITE = 0"
      using rw_invD(3) [OF assms(1)] Cons by (auto simp: is_writer_def)
    obtain S' where S': "rw_exec (Up_write t) S = Some S'" and fields:
      "rd_tasks S' = [] @ map rw_task (takeWhile is_reader (w # ws))" "wr_tasks S' = []"
      "wait_list (rsem S') = dropWhile is_reader (w # ws)" "activity (rsem S') = word_of_nat (length (rd_tasks S'))"
      using writer_only [OF assms] Cons w split_queue [OF rw_invD(3) [OF assms(1)]]
      by (simp add: up_write_def rwsem_do_wake_def grant_def wake_readers_eq)
    have "rw_inv S'"
      using rw_invD [OF assms(1)] writer_only [OF assms] w(1) unfolding Cons by (intro readers_woken_inv [OF _ _ _ _ fields]) simp_all
    then show ?thesis using that S' by blast
  qed
qed

lemma downgrade_inv:
  assumes "rw_inv S" and "t \<in> set (wr_tasks S)"
  obtains S' where "rw_exec (Downgrade t) S = Some S'" and "rw_inv S'"
proof -
  have "\<exists>S'. rw_exec (Downgrade t) S = Some S' \<and> rd_tasks S' = [t] @ map rw_task (takeWhile is_reader (wait_list (rsem S))) \<and>
      wr_tasks S' = [] \<and> wait_list (rsem S') = dropWhile is_reader (wait_list (rsem S)) \<and>
      activity (rsem S') = word_of_nat (length (rd_tasks S'))"
  proof (cases "wait_list (rsem S)")
    case (Cons w ws)
    then show ?thesis
      using writer_only [OF assms] split_queue [OF rw_invD(3) [OF assms(1)]] rw_invD(3) [OF assms(1)]
      by (cases "is_writer w") (simp_all add: downgrade_write_def rwsem_do_wake_def grant_def wake_readers_eq is_writer_def)
  qed (use writer_only [OF assms] in \<open>simp add: downgrade_write_def grant_def\<close>)
  then obtain S' where S': "rw_exec (Downgrade t) S = Some S'" and fields:
    "rd_tasks S' = [t] @ map rw_task (takeWhile is_reader (wait_list (rsem S)))" "wr_tasks S' = []"
    "wait_list (rsem S') = dropWhile is_reader (wait_list (rsem S))" "activity (rsem S') = word_of_nat (length (rd_tasks S'))"
    by blast
  have "rw_inv S'"
    using rw_invD [OF assms(1)] writer_only [OF assms] by (intro readers_woken_inv [OF _ _ _ _ fields]) simp_all
  then show thesis using that S' by blast
qed

lemma rw_exec_inv:
  assumes "rw_inv S" and "rw_legal e S"
  obtains S' where "rw_exec e S = Some S'" and "rw_inv S'"
  using assms take_read_inv take_write_inv
  by (cases e) (auto elim: up_read_inv up_write_inv downgrade_inv)

lemma rw_init_inv: "rw_inv rw_init"
  by (simp add: rw_inv_def rw_init_def init_rwsem_def)

lemma rw_step_inv: "rw_inv S \<Longrightarrow> rw_step S e S' \<Longrightarrow> rw_inv S'"
  by (auto simp: rw_step_def elim: rw_exec_inv)

lemma rw_reach_inv: "rw_reach S \<Longrightarrow> rw_inv S"
  by (induction rule: rw_reach.induct) (auto intro: rw_init_inv rw_step_inv)

section \<open>No starvation\<close>

text \<open>The work ahead of a waiting task: a writer counts twice, because it may downgrade before it
  releases.\<close>

definition waiter_work :: "rwsem_waiter \<Rightarrow> nat" where
  "waiter_work w = (if is_writer w then 2 else 1)"

definition work_ahead :: "rwsem_waiter \<Rightarrow> rw_sys \<Rightarrow> nat" where
  "work_ahead w S = length (rd_tasks S) + 2 * length (wr_tasks S) +
     sum_list (map waiter_work (takeWhile (\<lambda>x. x \<noteq> w) (wait_list (rsem S))))"

definition rw_waits :: "rwsem_waiter \<Rightarrow> rw_sys \<Rightarrow> bool" where
  "rw_waits w S = (w \<in> set (wait_list (rsem S)))"

definition rw_served :: "rwsem_waiter \<Rightarrow> rw_sys \<Rightarrow> bool" where
  "rw_served w S = (rw_task w \<in> set (if is_writer w then wr_tasks S else rd_tasks S))"

fun rw_releases :: "nat \<Rightarrow> rw_event \<Rightarrow> bool" where
  "rw_releases t (Up_read u) = (t = u)"
| "rw_releases t (Up_write u) = (t = u)"
| "rw_releases t _ = False"

fun rw_progress :: "rw_event \<Rightarrow> bool" where
  "rw_progress (Up_read u) = True"
| "rw_progress (Up_write u) = True"
| "rw_progress (Downgrade u) = True"
| "rw_progress _ = False"

lemma takeWhile_neq_append: "w \<in> set xs \<Longrightarrow> takeWhile (\<lambda>x. x \<noteq> w) (xs @ ys) = takeWhile (\<lambda>x. x \<noteq> w) xs"
  by (simp add: takeWhile_append1)

lemma work_taken:
  assumes "rw_waits w S"
  shows "rw_waits w (take_read t (down_read t (rsem S)) S) \<and> work_ahead w (take_read t (down_read t (rsem S)) S) = work_ahead w S"
    and "rw_waits w (take_read t (down_read_trylock (rsem S)) S) \<and> work_ahead w (take_read t (down_read_trylock (rsem S)) S) = work_ahead w S"
    and "rw_waits w (take_write t (down_write t (rsem S)) S) \<and> work_ahead w (take_write t (down_write t (rsem S)) S) = work_ahead w S"
    and "rw_waits w (take_write t (down_write_trylock (rsem S)) S) \<and> work_ahead w (take_write t (down_write_trylock (rsem S)) S) = work_ahead w S"
  using assms
  by (auto simp: rw_waits_def work_ahead_def take_read_def take_write_def down_read_def down_read_trylock_def down_write_def
      down_write_nested_def down_write_trylock_def takeWhile_neq_append)

text \<open>Handing the lock to the front of the queue serves the waiter or leaves the work ahead of it as it
  was.\<close>

lemma work_granted:
  assumes "\<forall>x \<in> set (woken @ left). is_reader x \<noteq> is_writer x" and "w \<in> set (woken @ left)"
    and "wait_list (rsem S) = left"
  shows "rw_served w (grant woken S) \<or>
    rw_waits w (grant woken S) \<and>
    work_ahead w (grant woken S) = length (rd_tasks S) + 2 * length (wr_tasks S) +
      sum_list (map waiter_work (takeWhile (\<lambda>x. x \<noteq> w) (woken @ left)))"
proof (cases "w \<in> set woken")
  case True
  then show ?thesis using assms(1) by (auto simp: rw_served_def grant_def)
next
  case False
  have kinds: "\<forall>x \<in> set woken. is_reader x \<noteq> is_writer x" using assms(1) by simp
  then have "sum_list (map waiter_work woken) = length (filter is_reader woken) + 2 * length (filter is_writer woken)"
    by (induction woken) (auto simp: waiter_work_def)
  moreover have "takeWhile (\<lambda>x. x \<noteq> w) (woken @ left) = woken @ takeWhile (\<lambda>x. x \<noteq> w) left"
    using False by (subst takeWhile_append2) auto
  ultimately show ?thesis
    using False assms(2,3) by (simp add: rw_waits_def grant_def work_ahead_def)
qed

lemma wake_splits:
  assumes "rwsem_do_wake sem wr = Some (woken, sem')" shows "wait_list sem = woken @ wait_list sem'"
  using assms by (auto simp: rwsem_do_wake_def wake_readers_eq split: list.splits if_splits)

lemma release_splits:
  "up_read sem = Some (woken, sem') \<Longrightarrow> wait_list sem = woken @ wait_list sem'"
  "up_write sem = Some (woken, sem') \<Longrightarrow> wait_list sem = woken @ wait_list sem'"
  "downgrade_write sem = Some (woken, sem') \<Longrightarrow> wait_list sem = woken @ wait_list sem'"
  by (auto simp: up_read_def rwsem_wake_one_writer_def up_write_def downgrade_write_def Let_def
      split: if_splits list.splits dest!: wake_splits)

lemma release_result:
  assumes "rw_progress e" and "rw_step S e S'"
  obtains woken T where "wait_list (rsem S) = woken @ wait_list (rsem T)" and "S' = grant woken T"
    and "length (rd_tasks T) + 2 * length (wr_tasks T) < length (rd_tasks S) + 2 * length (wr_tasks S)"
proof (cases e)
  case (Up_read t)
  then obtain woken sem where r: "up_read (rsem S) = Some (woken, sem)" and t: "t \<in> set (rd_tasks S)"
    and S': "S' = grant woken (S\<lparr>rsem := sem, rd_tasks := remove1 t (rd_tasks S)\<rparr>)"
    using assms(2) by (auto simp: rw_step_def)
  show thesis
    by (rule that [OF _ S']) (use release_splits(1) [OF r] length_pos_if_in_set [OF t] t in \<open>simp_all add: length_remove1\<close>)
next
  case (Up_write t)
  then obtain woken sem where r: "up_write (rsem S) = Some (woken, sem)" and t: "t \<in> set (wr_tasks S)"
    and S': "S' = grant woken (S\<lparr>rsem := sem, wr_tasks := remove1 t (wr_tasks S)\<rparr>)"
    using assms(2) by (auto simp: rw_step_def)
  show thesis
    by (rule that [OF _ S']) (use release_splits(2) [OF r] length_pos_if_in_set [OF t] t in \<open>simp_all add: length_remove1\<close>)
next
  case (Downgrade t)
  then obtain woken sem where r: "downgrade_write (rsem S) = Some (woken, sem)" and t: "t \<in> set (wr_tasks S)"
    and S': "S' = grant woken (S\<lparr>rsem := sem, wr_tasks := remove1 t (wr_tasks S), rd_tasks := rd_tasks S @ [t]\<rparr>)"
    using assms(2) by (auto simp: rw_step_def)
  obtain n where "length (wr_tasks S) = Suc n" using t by (cases "wr_tasks S") auto
  then show thesis
    by (intro that [OF _ S']) (use release_splits(3) [OF r] t in \<open>simp_all add: length_remove1\<close>)
qed (use assms(1) in simp_all)

lemma rw_wait_step:
  assumes "rw_inv S" and "rw_step S e S'" and "rw_waits w S"
  shows "rw_served w S' \<or> rw_waits w S' \<and> work_ahead w S' + of_bool (rw_progress e) \<le> work_ahead w S"
proof (cases "rw_progress e")
  case False
  then show ?thesis using assms(2,3) work_taken [OF assms(3)] by (cases e) (auto simp: rw_step_def)
next
  case True
  then obtain woken T where rel: "wait_list (rsem S) = woken @ wait_list (rsem T)" "S' = grant woken T"
    "length (rd_tasks T) + 2 * length (wr_tasks T) < length (rd_tasks S) + 2 * length (wr_tasks S)"
    using assms(2) by (rule release_result)
  have "w \<in> set (woken @ wait_list (rsem T))" using assms(3) rel(1) by (simp add: rw_waits_def)
  moreover have "\<forall>x \<in> set (woken @ wait_list (rsem T)). is_reader x \<noteq> is_writer x" using rw_invD(3) [OF assms(1)] rel(1) by simp
  ultimately show ?thesis
    using work_granted [of woken "wait_list (rsem T)" w T] rel True by (auto simp: work_ahead_def)
qed

interpretation rwsem: held_wait rw_step rw_inv rw_waits rw_served work_ahead rw_progress
  "\<lambda>t S. t \<in> set (rd_tasks S @ wr_tasks S)" rw_releases
proof
  show "rw_inv S'" if "rw_inv S" "rw_step S e S'" for S e S' using that by (rule rw_step_inv)
  show "rw_served w S' \<or> rw_waits w S' \<and> work_ahead w S' + of_bool (rw_progress e) \<le> work_ahead w S"
    if "rw_inv S" "rw_step S e S'" "rw_waits w S" for S e S' w using that by (rule rw_wait_step)
  show "\<exists>t. t \<in> set (rd_tasks S @ wr_tasks S)" if "rw_inv S" "rw_waits w S" for S w
  proof -
    have "rd_tasks S @ wr_tasks S \<noteq> []" using that by (auto simp: rw_inv_def rw_waits_def)
    then show ?thesis by (meson last_in_set)
  qed
  show "rw_progress e" if "rw_releases t e" for t e using that by (cases e) auto
qed

section \<open>Properties\<close>

text \<open>C4. A read-write semaphore excludes: in every state that callers obeying the locking rules can
  reach, either one task holds it for writing and none for reading, or none for writing; the
  activity count is that of the header's comment; when it is free nobody waits; and no
  operation then takes the front of an empty queue.\<close>

theorem rwsem_exclusion:
  assumes "rw_reach S"
  shows "(wr_tasks S = [] \<and> activity (rsem S) = word_of_nat (length (rd_tasks S)) \<or>
      rd_tasks S = [] \<and> length (wr_tasks S) = 1 \<and> activity (rsem S) = -1) \<and>
    distinct (rw_tasks S) \<and> (activity (rsem S) = 0 \<longrightarrow> rw_tasks S = []) \<and>
    (rw_legal e S \<longrightarrow> rw_exec e S \<noteq> None)"
proof -
  note inv = rw_reach_inv [OF assms]
  show ?thesis
  proof (intro conjI impI)
    show "wr_tasks S = [] \<and> activity (rsem S) = word_of_nat (length (rd_tasks S)) \<or>
        rd_tasks S = [] \<and> length (wr_tasks S) = 1 \<and> activity (rsem S) = -1"
      using inv by (simp add: rw_inv_def split: if_splits)
    show "distinct (rw_tasks S)" by (rule rw_invD(1) [OF inv])
    show "rw_tasks S = []" if zero: "activity (rsem S) = 0"
    proof -
      have wr: "wr_tasks S = []" using inv zero by (cases "wr_tasks S = []") (simp_all add: rw_inv_def)
      then have "(word_of_nat (length (rd_tasks S)) :: 32 word) = 0" using inv zero by (simp add: rw_inv_def)
      then have "rd_tasks S = []" using few_word(1) [of "length (rd_tasks S)"] rw_few(1) [OF inv] by simp
      then show ?thesis using inv wr by (simp add: rw_inv_def)
    qed
    show "rw_exec e S \<noteq> None" if "rw_legal e S" using rw_exec_inv [OF inv that] by fastforce
  qed
qed

text \<open>A system in which two tasks pass the write lock to each other.\<close>

definition ping_state :: "nat \<Rightarrow> rw_sys" where
  "ping_state i = (let a = (if i mod 4 < 2 then 1 else 2 :: nat) in
     if even i then \<lparr>rsem = \<lparr>activity = -1, wait_list = [\<lparr>rw_task = 3 - a, rw_flags = RWSEM_WAITING_FOR_WRITE\<rparr>]\<rparr>,
         rd_tasks = [], wr_tasks = [a]\<rparr>
     else \<lparr>rsem = \<lparr>activity = -1, wait_list = []\<rparr>, rd_tasks = [], wr_tasks = [3 - a]\<rparr>)"

definition ping_event :: "nat \<Rightarrow> rw_event" where
  "ping_event i = (let a = (if i mod 4 < 2 then 1 else 2 :: nat) in if even i then Up_write a else Down_write a)"

lemma mod4_cases: "(i :: nat) mod 4 = 0 \<or> i mod 4 = 1 \<or> i mod 4 = 2 \<or> i mod 4 = 3"
  by linarith

lemma ping_run: "is_run rw_step ping_state ping_event"
proof -
  have "rw_step (ping_state i) (ping_event i) (ping_state (Suc i))" for i
  proof -
    have "even i \<longleftrightarrow> even (i mod 4)" by presburger
    moreover have "Suc i mod 4 = Suc (i mod 4) mod 4" by presburger
    ultimately show ?thesis using mod4_cases [of i]
      by (auto simp: ping_state_def ping_event_def rw_step_def PID_MAX_DEFAULT_def take_write_def down_write_def down_write_nested_def
          up_write_def rwsem_do_wake_def grant_def is_reader_def is_writer_def RWSEM_WAITING_FOR_READ_def RWSEM_WAITING_FOR_WRITE_def)
  qed
  then show ?thesis by (simp add: is_run_def)
qed

lemma ping_reach: "rw_reach (ping_state 0)"
proof -
  let ?S = "\<lparr>rsem = \<lparr>activity = -1, wait_list = []\<rparr>, rd_tasks = [], wr_tasks = [1]\<rparr> :: rw_sys"
  have "rw_step rw_init (Down_write 1) ?S"
    by (simp add: rw_step_def rw_init_def init_rwsem_def PID_MAX_DEFAULT_def take_write_def down_write_def down_write_nested_def)
  then have "rw_reach ?S" by (rule rw_next [OF rw_start])
  moreover have "rw_step ?S (Down_write 2) (ping_state 0)"
    by (simp add: rw_step_def ping_state_def PID_MAX_DEFAULT_def take_write_def down_write_def down_write_nested_def)
  ultimately show ?thesis by (rule rw_next)
qed

theorem rwsem_exclusion_witness:
  "rw_exec (Up_write 1) (ping_state 0) \<noteq> None \<and> length (wr_tasks (ping_state 0)) = 1"
  using rwsem_exclusion [OF ping_reach, of "Up_write 1"] by (simp add: ping_state_def)

text \<open>C5. No task starves: in every infinite run in which each task that gets the semaphore releases it
  again, each waiting task is granted what it waits for, readers and writers alike; at most
  \<^const>\<open>work_ahead\<close> releases and downgrades pass before.\<close>

theorem rwsem_no_starvation:
  assumes "is_run rw_step sts evs" and "rw_reach (sts 0)"
    and "\<forall>k t. t \<in> set (rd_tasks (sts k) @ wr_tasks (sts k)) \<longrightarrow> (\<exists>j\<ge>k. rw_releases t (evs j))"
    and "w \<in> set (wait_list (rsem (sts i)))"
  shows "(\<exists>j>i. rw_task w \<in> set (if is_writer w then wr_tasks (sts j) else rd_tasks (sts j))) \<and>
    (\<forall>n. (\<forall>j. i < j \<and> j \<le> i + n \<longrightarrow> \<not> rw_served w (sts j)) \<longrightarrow>
       card {j. i \<le> j \<and> j < i + n \<and> rw_progress (evs j)} \<le> work_ahead w (sts i))"
proof -
  note inv = rw_reach_inv [OF assms(2)]
  have w: "rw_waits w (sts i)" using assms(4) by (simp add: rw_waits_def)
  have "\<exists>j>i. rw_served w (sts j)"
    by (rule rwsem.no_starvation [OF assms(1) inv _ w]) (use assms(3) in blast)
  moreover have "card {j. i \<le> j \<and> j < i + n \<and> rw_progress (evs j)} \<le> work_ahead w (sts i)"
    if "\<forall>j. i < j \<and> j \<le> i + n \<longrightarrow> \<not> rw_served w (sts j)" for n
    using rwsem.waits_on [OF assms(1) inv w, of n] that by (meson add_leE)
  ultimately show ?thesis by (simp add: rw_served_def)
qed

theorem rwsem_no_starvation_witness:
  "\<exists>j>0. 2 \<in> set (wr_tasks (ping_state j))"
proof -
  let ?w = "\<lparr>rw_task = 2, rw_flags = RWSEM_WAITING_FOR_WRITE\<rparr>"
  have "\<exists>j\<ge>k. rw_releases t (ping_event j)" if "t \<in> set (rd_tasks (ping_state k) @ wr_tasks (ping_state k))" for k t
  proof -
    have "even k \<longleftrightarrow> even (k mod 4)" "Suc k mod 4 = Suc (k mod 4) mod 4" by presburger+
    then have "rw_releases t (ping_event (if even k then k else Suc k))"
      using that mod4_cases [of k] by (auto simp: ping_state_def ping_event_def)
    then show ?thesis by (intro exI [of _ "if even k then k else Suc k"]) simp
  qed
  then show ?thesis
    using rwsem_no_starvation [OF ping_run ping_reach, of ?w 0] by (simp add: ping_state_def)
qed

end
