(* ===== verification/Semaphore.thy ===== *)
theory Semaphore
  imports Kernel_Prelude Fair_Waiting
begin

text \<open>
  Counting semaphores: \<^verbatim>\<open>kernel/semaphore.c\<close>, with \<^verbatim>\<open>signal_pending_state\<close> of \<^verbatim>\<open>sched.h\<close> and
  \<^verbatim>\<open>schedule_timeout\<close> of \<^verbatim>\<open>kernel/timer.c\<close>.  The lock is released only while a task sleeps, so a
  call is one step up to its sleep, and one step each time the task runs again.
\<close>

section \<open>Sleeping\<close>

definition TASK_INTERRUPTIBLE :: u32 where "TASK_INTERRUPTIBLE = 1"
definition TASK_UNINTERRUPTIBLE :: u32 where "TASK_UNINTERRUPTIBLE = 2"
definition TASK_WAKEKILL :: u32 where "TASK_WAKEKILL = 128"
definition TASK_KILLABLE :: u32 where "TASK_KILLABLE = TASK_WAKEKILL OR TASK_UNINTERRUPTIBLE"

text \<open>The pending signals of a task: whether there are any, and whether one kills.\<close>

record task_signals =
  sig_pending :: bool
  sig_fatal :: bool

definition signal_pending_state :: "u32 \<Rightarrow> task_signals \<Rightarrow> bool" where
  "signal_pending_state state p =
     (if state AND (TASK_INTERRUPTIBLE OR TASK_WAKEKILL) = 0 then False
      else if \<not> sig_pending p then False
      else state AND TASK_INTERRUPTIBLE \<noteq> 0 \<or> sig_fatal p)"

definition MAX_SCHEDULE_TIMEOUT :: u32 where "MAX_SCHEDULE_TIMEOUT = drop_bit 1 (NOT 0)"

text \<open>\<open>j0\<close> and \<open>j1\<close> are the clock ticks before and after the sleep; a timeout is a signed number.\<close>

definition schedule_timeout :: "u32 \<Rightarrow> u32 \<Rightarrow> u32 \<Rightarrow> u32" where
  "schedule_timeout timeout j0 j1 =
     (let timeout = (if timeout = MAX_SCHEDULE_TIMEOUT then timeout
                     else if sint timeout < 0 then timeout
                     else let expire = timeout + j0 in expire - j1)
      in if sint timeout < 0 then 0 else timeout)"

section \<open>The semaphore\<close>

record semaphore_waiter =
  sw_task :: nat
  sw_state :: u32
  sw_timeout :: u32

record semaphore =
  sem_count :: u32
  sem_wait_list :: "semaphore_waiter list"

definition sema_init :: "u32 \<Rightarrow> semaphore" where
  "sema_init val = \<lparr>sem_count = val, sem_wait_list = []\<rparr>"

text \<open>The head of the loop of \<^verbatim>\<open>__down_common\<close>: an error to return, or sleep.\<close>

definition down_check :: "u32 \<Rightarrow> u32 \<Rightarrow> task_signals \<Rightarrow> unit kres" where
  "down_check state timeout p =
     (if signal_pending_state state p then Inl EINTR
      else if sint timeout \<le> 0 then Inl ETIME else Inr ())"

text \<open>The result is \<open>None\<close> when the task sleeps on the wait list.\<close>

definition down_common :: "nat \<Rightarrow> u32 \<Rightarrow> u32 \<Rightarrow> task_signals \<Rightarrow> semaphore \<Rightarrow> unit kres option \<times> semaphore" where
  "down_common task state timeout p sem = (case down_check state timeout p of
     Inl e \<Rightarrow> (Some (Inl e), sem)
   | Inr _ \<Rightarrow> (None, sem\<lparr>sem_wait_list := sem_wait_list sem @ [\<lparr>sw_task = task, sw_state = state, sw_timeout = timeout\<rparr>]\<rparr>))"

text \<open>What a task does when it runs again: return if \<^verbatim>\<open>up\<close> has chosen it, else check again.\<close>

definition down_resume :: "bool \<Rightarrow> semaphore_waiter \<Rightarrow> u32 \<Rightarrow> u32 \<Rightarrow> task_signals \<Rightarrow> semaphore \<Rightarrow> unit kres option \<times> semaphore" where
  "down_resume up waiter j0 j1 p sem =
     (let timeout = schedule_timeout (sw_timeout waiter) j0 j1 in
      if up then (Some (Inr ()), sem)
      else case down_check (sw_state waiter) timeout p of
        Inl e \<Rightarrow> (Some (Inl e), sem\<lparr>sem_wait_list := remove1 waiter (sem_wait_list sem)\<rparr>)
      | Inr _ \<Rightarrow> (None, sem\<lparr>sem_wait_list := map (\<lambda>w. if w = waiter then w\<lparr>sw_timeout := timeout\<rparr> else w) (sem_wait_list sem)\<rparr>))"

datatype down_kind = Down | Down_interruptible | Down_killable | Down_timeout u32

fun down_args :: "down_kind \<Rightarrow> u32 \<times> u32" where
  "down_args Down = (TASK_UNINTERRUPTIBLE, MAX_SCHEDULE_TIMEOUT)"
| "down_args Down_interruptible = (TASK_INTERRUPTIBLE, MAX_SCHEDULE_TIMEOUT)"
| "down_args Down_killable = (TASK_KILLABLE, MAX_SCHEDULE_TIMEOUT)"
| "down_args (Down_timeout jiffies) = (TASK_UNINTERRUPTIBLE, jiffies)"

definition sem_down :: "down_kind \<Rightarrow> nat \<Rightarrow> task_signals \<Rightarrow> semaphore \<Rightarrow> unit kres option \<times> semaphore" where
  "sem_down k task p sem =
     (if sem_count sem > 0 then (Some (Inr ()), sem\<lparr>sem_count := sem_count sem - 1\<rparr>)
      else down_common task (fst (down_args k)) (snd (down_args k)) p sem)"

text \<open>The result is that of the C function: true when the semaphore was not taken.\<close>

definition down_trylock :: "semaphore \<Rightarrow> bool \<times> semaphore" where
  "down_trylock sem =
     (let count = sem_count sem - 1 in
      if 0 \<le> sint count then (False, sem\<lparr>sem_count := count\<rparr>) else (sint count < 0, sem))"

text \<open>Releasing returns the waiter it chose, taken off the list with its \<^verbatim>\<open>up\<close> flag set.\<close>

definition sem_up :: "semaphore \<Rightarrow> semaphore_waiter option \<times> semaphore" where
  "sem_up sem = (case sem_wait_list sem of
     [] \<Rightarrow> (None, sem\<lparr>sem_count := sem_count sem + 1\<rparr>)
   | waiter # ws \<Rightarrow> (Some waiter, sem\<lparr>sem_wait_list := ws\<rparr>))"

section \<open>Tasks using the semaphore\<close>

text \<open>\<open>upped\<close> holds the waiters whose \<^verbatim>\<open>up\<close> flag is set and that have not run since; \<open>ret\<close> is what the last
  call of a task returned; \<open>gets\<close> and \<open>ups\<close> count acquisitions and releases.\<close>

record sem_sys =
  ssem :: semaphore
  upped :: "semaphore_waiter list"
  ret :: "nat \<Rightarrow> unit kres option"
  gets :: nat
  ups :: nat

datatype sem_event =
    E_down down_kind nat task_signals
  | E_resume semaphore_waiter u32 u32 task_signals
  | E_trylock nat
  | E_up

abbreviation sem_tasks :: "sem_sys \<Rightarrow> nat list" where
  "sem_tasks S \<equiv> map sw_task (sem_wait_list (ssem S) @ upped S)"

fun sem_exec :: "sem_event \<Rightarrow> sem_sys \<Rightarrow> sem_sys" where
  "sem_exec (E_down k t p) S = (case sem_down k t p (ssem S) of (r, sem) \<Rightarrow>
     S\<lparr>ssem := sem, ret := (ret S)(t := r), gets := gets S + of_bool (r = Some (Inr ()))\<rparr>)"
| "sem_exec (E_resume w j0 j1 p) S = (case down_resume (w \<in> set (upped S)) w j0 j1 p (ssem S) of (r, sem) \<Rightarrow>
     S\<lparr>ssem := sem, upped := remove1 w (upped S), ret := (ret S)(sw_task w := r)\<rparr>)"
| "sem_exec (E_trylock t) S = (case down_trylock (ssem S) of (failed, sem) \<Rightarrow>
     S\<lparr>ssem := sem, gets := gets S + of_bool (\<not> failed)\<rparr>)"
| "sem_exec E_up S = (case sem_up (ssem S) of
     (None, sem) \<Rightarrow> S\<lparr>ssem := sem, ups := ups S + 1\<rparr>
   | (Some w, sem) \<Rightarrow> S\<lparr>ssem := sem, upped := upped S @ [w], gets := gets S + 1, ups := ups S + 1\<rparr>)"

text \<open>A task calls when it is not in a call, and runs again when it sleeps in one; anyone may release.\<close>

fun sem_legal :: "sem_event \<Rightarrow> sem_sys \<Rightarrow> bool" where
  "sem_legal (E_down k t p) S = (t \<notin> set (sem_tasks S))"
| "sem_legal (E_resume w j0 j1 p) S = (w \<in> set (sem_wait_list (ssem S) @ upped S))"
| "sem_legal (E_trylock t) S = (t \<notin> set (sem_tasks S))"
| "sem_legal E_up S = True"

definition sem_step :: "sem_sys \<Rightarrow> sem_event \<Rightarrow> sem_sys \<Rightarrow> bool" where
  "sem_step S e S' = (sem_legal e S \<and> S' = sem_exec e S)"

definition sem_start_state :: "u32 \<Rightarrow> sem_sys" where
  "sem_start_state val = \<lparr>ssem = sema_init val, upped = [], ret = \<lambda>t. None, gets = 0, ups = 0\<rparr>"

inductive sem_reach :: "u32 \<Rightarrow> sem_sys \<Rightarrow> bool" for val where
  sem_start: "sem_reach val (sem_start_state val)"
| sem_next: "sem_reach val S \<Longrightarrow> sem_step S e S' \<Longrightarrow> sem_reach val S'"

section \<open>Accounting\<close>

text \<open>Tasks wait only when the count is zero; and as long as the number of releases does not overflow
  the counter, count and acquisitions together are the initial value and the releases.\<close>

definition sem_inv :: "u32 \<Rightarrow> sem_sys \<Rightarrow> bool" where
  "sem_inv val S \<longleftrightarrow> distinct (sem_tasks S) \<and> (\<forall>t \<in> set (sem_tasks S). ret S t = None) \<and>
     (unat val + ups S < 2 ^ 32 \<longrightarrow> unat (sem_count (ssem S)) + gets S = unat val + ups S) \<and>
     (sem_wait_list (ssem S) \<noteq> [] \<longrightarrow> sem_count (ssem S) = 0)"

lemma sem_start_inv: "sem_inv val (sem_start_state val)"
  by (simp add: sem_inv_def sem_start_state_def sema_init_def)

lemma count_pred: "0 < (c :: u32) \<Longrightarrow> unat (c - 1) + 1 = unat c"
  by (metis Suc_eq_plus1 less_irrefl unat_minus_one Suc_pred' unat_gt_0)

lemma nonneg_pred: "0 \<le> sint ((c :: u32) - 1) \<Longrightarrow> 0 < c"
  by (cases "c = 0") (simp_all add: word_neq_0_conv)

lemma task_update: "map sw_task (map (\<lambda>w. if w = v then w\<lparr>sw_timeout := x\<rparr> else w) ws) = map sw_task ws"
  by (induction ws) auto

lemma down_inv:
  assumes "sem_inv val S" and "t \<notin> set (sem_tasks S)" shows "sem_inv val (sem_exec (E_down k t p) S)"
  using assms count_pred [of "sem_count (ssem S)"]
  by (auto simp: sem_inv_def sem_down_def down_common_def Let_def word_neq_0_conv split: sum.splits)

lemma trylock_inv:
  assumes "sem_inv val S" shows "sem_inv val (sem_exec (E_trylock t) S)"
  using assms count_pred [of "sem_count (ssem S)"] nonneg_pred [of "sem_count (ssem S)"]
  by (auto simp: sem_inv_def down_trylock_def Let_def)

lemma up_inv:
  assumes "sem_inv val S" shows "sem_inv val (sem_exec E_up S)"
proof (cases "sem_wait_list (ssem S)")
  case Nil
  have "unat (sem_count (ssem S) + 1) = unat (sem_count (ssem S)) + 1" if "unat (sem_count (ssem S)) + 1 < 2 ^ 32"
    using that by (subst unat_add_no_wrap) simp_all
  then show ?thesis using assms Nil by (auto simp: sem_inv_def sem_up_def)
next
  case (Cons w ws)
  then show ?thesis using assms by (auto simp: sem_inv_def sem_up_def)
qed

lemma remove1_task:
  assumes "distinct (map sw_task ws)" and "w \<in> set ws"
  shows "distinct (map sw_task (remove1 w ws))" and "sw_task w \<notin> set (map sw_task (remove1 w ws))"
    and "set (map sw_task (remove1 w ws)) \<subseteq> set (map sw_task ws)"
  using assms
proof (induction ws)
  case (Cons x ws)
  { case 1 then show ?case using Cons.IH by (auto dest: set_remove1_subset [THEN subsetD])
  next case 2 then show ?case using Cons.IH by (auto simp: image_iff)
  next case 3 then show ?case by (auto dest: set_remove1_subset [THEN subsetD]) }
qed simp_all

lemma sem_inv_shrink:
  assumes "sem_inv val S" and "distinct (sem_tasks S')" and "set (sem_tasks S') \<subseteq> set (sem_tasks S)"
    and "\<And>t. t \<in> set (sem_tasks S') \<Longrightarrow> ret S' t = ret S t"
    and "sem_count (ssem S') = sem_count (ssem S)" and "gets S' = gets S" and "ups S' = ups S"
    and "sem_wait_list (ssem S') \<noteq> [] \<Longrightarrow> sem_wait_list (ssem S) \<noteq> []"
  shows "sem_inv val S'"
proof -
  have "ret S' t = None" if "t \<in> set (sem_tasks S')" for t
    using assms(1) subsetD [OF assms(3) that] assms(4) [OF that] by (simp add: sem_inv_def)
  then show ?thesis using assms(1,2,5-8) by (simp only: sem_inv_def) blast
qed

lemma resume_inv:
  assumes inv: "sem_inv val S" and w: "w \<in> set (sem_wait_list (ssem S) @ upped S)"
  shows "sem_inv val (sem_exec (E_resume w j0 j1 p) S)"
proof -
  have d: "distinct (map sw_task (sem_wait_list (ssem S)))" "distinct (map sw_task (upped S))"
    and disj: "set (map sw_task (sem_wait_list (ssem S))) \<inter> set (map sw_task (upped S)) = {}"
    using inv by (simp_all add: sem_inv_def)
  show ?thesis
  proof (cases "w \<in> set (upped S)")
    case True
    note r = remove1_task [OF d(2) True]
    have eq: "sem_exec (E_resume w j0 j1 p) S = S\<lparr>upped := remove1 w (upped S), ret := (ret S)(sw_task w := Some (Inr ()))\<rparr>"
      using True by (simp add: down_resume_def)
    have "sw_task w \<notin> set (map sw_task (sem_wait_list (ssem S)))" using disj True by auto
    then show ?thesis
      unfolding eq by (intro sem_inv_shrink [OF inv]) (use d r disj in \<open>auto simp del: set_map\<close>)
  next
    case False
    then have wl: "w \<in> set (sem_wait_list (ssem S))" using w by simp
    note r = remove1_task [OF d(1) wl]
    have u: "sw_task w \<notin> set (map sw_task (upped S))" using disj wl by auto
    let ?timeout = "schedule_timeout (sw_timeout w) j0 j1"
    show ?thesis
    proof (cases "down_check (sw_state w) ?timeout p")
      case (Inl e)
      have eq: "sem_exec (E_resume w j0 j1 p) S =
          S\<lparr>ssem := (ssem S)\<lparr>sem_wait_list := remove1 w (sem_wait_list (ssem S))\<rparr>, ret := (ret S)(sw_task w := Some (Inl e))\<rparr>"
        using Inl False by (simp add: down_resume_def remove1_idem)
      show ?thesis
        unfolding eq by (intro sem_inv_shrink [OF inv]) (use d r disj u in \<open>auto simp del: set_map\<close>)
    next
      case (Inr x)
      have eq: "sem_exec (E_resume w j0 j1 p) S =
          S\<lparr>ssem := (ssem S)\<lparr>sem_wait_list := map (\<lambda>v. if v = w then v\<lparr>sw_timeout := ?timeout\<rparr> else v) (sem_wait_list (ssem S))\<rparr>,
            ret := (ret S)(sw_task w := None)\<rparr>"
        using Inr False by (simp add: down_resume_def remove1_idem)
      have "ret S (sw_task w) = None" using inv wl by (simp add: sem_inv_def)
      then show ?thesis
        unfolding eq by (intro sem_inv_shrink [OF inv]) (use d disj in \<open>auto simp: task_update simp del: map_map set_map list.map_comp\<close>)
    qed
  qed
qed

lemma sem_step_inv: "sem_inv val S \<Longrightarrow> sem_step S e S' \<Longrightarrow> sem_inv val S'"
  by (cases e) (auto simp only: sem_step_def sem_legal.simps intro: down_inv trylock_inv up_inv resume_inv)

lemma sem_reach_inv: "sem_reach val S \<Longrightarrow> sem_inv val S"
  by (induction rule: sem_reach.induct) (auto intro: sem_start_inv sem_step_inv)

section \<open>Waiting\<close>

definition sem_position :: "nat \<Rightarrow> sem_sys \<Rightarrow> nat" where
  "sem_position t S = length (takeWhile ((\<noteq>) t) (map sw_task (sem_wait_list (ssem S))))"

definition sem_waits :: "nat \<Rightarrow> sem_sys \<Rightarrow> bool" where
  "sem_waits t S = (t \<in> sw_task ` set (sem_wait_list (ssem S)))"

text \<open>A call is over for the semaphore when it was given to the task, or the call returned.\<close>

definition sem_served :: "nat \<Rightarrow> sem_sys \<Rightarrow> bool" where
  "sem_served t S = (t \<in> sw_task ` set (upped S) \<or> ret S t \<noteq> None)"

text \<open>A caller of plain \<^verbatim>\<open>down\<close> waits without limit and without minding signals.\<close>

definition plain_waits :: "nat \<Rightarrow> sem_sys \<Rightarrow> bool" where
  "plain_waits t S = (\<exists>w \<in> set (sem_wait_list (ssem S)). sw_task w = t \<and> sw_state w = TASK_UNINTERRUPTIBLE \<and> sw_timeout w = MAX_SCHEDULE_TIMEOUT)"

definition plain_served :: "nat \<Rightarrow> sem_sys \<Rightarrow> bool" where
  "plain_served t S = (t \<in> sw_task ` set (upped S) \<or> ret S t = Some (Inr ()))"

lemma max_timeout: "0 < sint MAX_SCHEDULE_TIMEOUT" "schedule_timeout MAX_SCHEDULE_TIMEOUT j0 j1 = MAX_SCHEDULE_TIMEOUT"
proof -
  have m: "MAX_SCHEDULE_TIMEOUT = 0x7fffffff" by (simp add: MAX_SCHEDULE_TIMEOUT_def mask_eq_exp_minus_1)
  have "sint MAX_SCHEDULE_TIMEOUT = 0x7fffffff" unfolding m by (simp add: sint_small)
  then show "0 < sint MAX_SCHEDULE_TIMEOUT" "schedule_timeout MAX_SCHEDULE_TIMEOUT j0 j1 = MAX_SCHEDULE_TIMEOUT"
    by (simp_all add: schedule_timeout_def)
qed

lemma plain_check: "down_check TASK_UNINTERRUPTIBLE MAX_SCHEDULE_TIMEOUT p = Inr ()"
  using max_timeout(1)
  by (simp add: down_check_def signal_pending_state_def TASK_UNINTERRUPTIBLE_def TASK_INTERRUPTIBLE_def TASK_WAKEKILL_def)

lemma position_remove1:
  "length (takeWhile ((\<noteq>) t) (map sw_task (remove1 w ws))) \<le> length (takeWhile ((\<noteq>) t) (map sw_task ws))" if "sw_task w \<noteq> t"
  using that by (induction ws) auto

lemma takeWhile_append_in: "t \<in> set ts \<Longrightarrow> takeWhile ((\<noteq>) t) (ts @ us) = takeWhile ((\<noteq>) t) ts"
  by (auto simp: takeWhile_append1)

lemma sem_wait_step:
  assumes inv: "sem_inv val S" and step: "sem_step S e S'" and t: "sem_waits t S"
  shows "sem_served t S' \<or> sem_waits t S' \<and> sem_position t S' + of_bool (e = E_up) \<le> sem_position t S"
proof (cases e)
  case (E_down k u p)
  have "sem_count (ssem S) = 0" using inv t by (auto simp: sem_inv_def sem_waits_def)
  then show ?thesis
    using step E_down t by (auto simp: sem_step_def sem_down_def down_common_def sem_waits_def sem_position_def takeWhile_append_in split: sum.splits)
next
  case (E_resume w j0 j1 p)
  let ?timeout = "schedule_timeout (sw_timeout w) j0 j1"
  show ?thesis
  proof (cases "w \<in> set (upped S)")
    case True
    then show ?thesis using step E_resume t by (simp add: sem_step_def down_resume_def sem_waits_def sem_position_def)
  next
    case False
    show ?thesis
    proof (cases "down_check (sw_state w) ?timeout p")
      case (Inl x)
      then show ?thesis
        using step E_resume t False position_remove1 [of w t "sem_wait_list (ssem S)"]
        by (cases "sw_task w = t")
          (auto simp: sem_step_def down_resume_def sem_waits_def sem_served_def sem_position_def image_iff intro: in_set_remove1 [THEN iffD2])
    next
      case (Inr x)
      have "map sw_task (sem_wait_list (ssem S')) = map sw_task (sem_wait_list (ssem S))"
        using step E_resume False Inr task_update by (simp add: sem_step_def down_resume_def)
      then show ?thesis using t E_resume by (simp add: sem_waits_def sem_position_def flip: set_map)
    qed
  qed
next
  case (E_trylock u)
  then show ?thesis using step t by (auto simp: sem_step_def down_trylock_def Let_def sem_waits_def sem_position_def)
next
  case E_up
  then show ?thesis using step t
    by (cases "sem_wait_list (ssem S)") (auto simp: sem_step_def sem_up_def sem_waits_def sem_served_def sem_position_def)
qed

lemma plain_keeps:
  assumes inv: "sem_inv val S" and step: "sem_step S e S'" and t: "plain_waits t S"
  shows "plain_waits t S' \<or> t \<in> sw_task ` set (upped S')"
proof -
  obtain w where w: "w \<in> set (sem_wait_list (ssem S))" "sw_task w = t" "sw_state w = TASK_UNINTERRUPTIBLE" "sw_timeout w = MAX_SCHEDULE_TIMEOUT"
    using t by (auto simp: plain_waits_def)
  have "w \<in> set (sem_wait_list (ssem S')) \<or> w \<in> set (upped S')"
  proof (cases e)
    case (E_down k u p)
    then show ?thesis using step w(1) by (auto simp: sem_step_def sem_down_def down_common_def split: sum.splits)
  next
    case (E_resume v j0 j1 p)
    have nu: "w \<notin> set (upped S)" using inv w(1) by (auto simp: sem_inv_def)
    show ?thesis
    proof (cases "v = w")
      case True
      then show ?thesis
        using step E_resume w nu max_timeout(2) plain_check by (force simp: sem_step_def down_resume_def)
    next
      case False
      then show ?thesis using step E_resume w(1) nu
        by (force simp: sem_step_def down_resume_def Let_def split: sum.splits)
    qed
  next
    case (E_trylock u)
    then show ?thesis using step w(1) by (auto simp: sem_step_def down_trylock_def Let_def)
  next
    case E_up
    then show ?thesis using step w(1) by (cases "sem_wait_list (ssem S)") (auto simp: sem_step_def sem_up_def)
  qed
  then show ?thesis using w by (auto simp: plain_waits_def)
qed

lemma plain_wait_step:
  assumes "sem_inv val S" and "sem_step S e S'" and "plain_waits t S"
  shows "plain_served t S' \<or> plain_waits t S' \<and> sem_position t S' + of_bool (e = E_up) \<le> sem_position t S"
proof (cases "t \<in> sw_task ` set (upped S')")
  case False
  then have p: "plain_waits t S'" using plain_keeps [OF assms] by blast
  have "ret S' t = None" using sem_step_inv [OF assms(1,2)] p by (auto simp: sem_inv_def plain_waits_def)
  then have "\<not> sem_served t S'" using False by (simp add: sem_served_def)
  moreover have "sem_waits t S" using assms(3) by (auto simp: plain_waits_def sem_waits_def)
  ultimately show ?thesis using sem_wait_step [OF assms(1,2)] p by blast
qed (simp add: plain_served_def)

interpretation sema: ranked_wait sem_step "sem_inv val" sem_waits sem_served sem_position "\<lambda>e. e = E_up" for val
  by unfold_locales (rule sem_step_inv sem_wait_step; assumption)+

interpretation sema_plain: ranked_wait sem_step "sem_inv val" plain_waits plain_served sem_position "\<lambda>e. e = E_up" for val
  by unfold_locales (rule sem_step_inv plain_wait_step; assumption)+

section \<open>Properties\<close>

text \<open>C17. A semaphore is taken at most as often as its initial value and its releases allow: as long as
  the releases do not overflow the counter, the count and the number of acquisitions together
  equal the initial value and the number of releases.  Tasks sleep only while the count is
  zero, each at most once, and none of them has returned.\<close>

theorem sema_accounting:
  assumes "sem_reach val S" and "unat val + ups S < 2 ^ 32"
  shows "unat (sem_count (ssem S)) + gets S = unat val + ups S \<and>
    (sem_wait_list (ssem S) \<noteq> [] \<longrightarrow> sem_count (ssem S) = 0) \<and>
    distinct (sem_tasks S) \<and> (\<forall>t \<in> set (sem_tasks S). ret S t = None)"
  using sem_reach_inv [OF assms(1)] assms(2) by (simp add: sem_inv_def)

text \<open>A task that takes the semaphore again and again while another releases it.\<close>

definition lone_waiter :: semaphore_waiter where
  "lone_waiter = \<lparr>sw_task = 1, sw_state = TASK_UNINTERRUPTIBLE, sw_timeout = MAX_SCHEDULE_TIMEOUT\<rparr>"

definition cycle_event :: "nat \<Rightarrow> sem_event" where
  "cycle_event i = (if i mod 3 = 0 then E_down Down 1 \<lparr>sig_pending = True, sig_fatal = True\<rparr>
     else if i mod 3 = 1 then E_up else E_resume lone_waiter 0 0 \<lparr>sig_pending = True, sig_fatal = True\<rparr>)"

primrec cycle_state :: "nat \<Rightarrow> sem_sys" where
  "cycle_state 0 = sem_start_state 0"
| "cycle_state (Suc i) = sem_exec (cycle_event i) (cycle_state i)"

lemma cycle_shape:
  "ssem (cycle_state i) = \<lparr>sem_count = 0, sem_wait_list = (if i mod 3 = 1 then [lone_waiter] else [])\<rparr> \<and>
   upped (cycle_state i) = (if i mod 3 = 2 then [lone_waiter] else [])"
proof (induction i)
  case (Suc i)
  have "i mod 3 = 0 \<or> i mod 3 = 1 \<or> i mod 3 = 2" "Suc i mod 3 = Suc (i mod 3) mod 3" by presburger+
  then show ?case using Suc plain_check
    by (elim disjE) (auto simp: cycle_event_def sem_down_def down_common_def sem_up_def down_resume_def lone_waiter_def)
qed (simp add: sem_start_state_def sema_init_def)

lemma cycle_run: "is_run sem_step cycle_state cycle_event"
proof -
  have "sem_legal (cycle_event i) (cycle_state i)" for i
  proof -
    have "i mod 3 = 0 \<or> i mod 3 = 1 \<or> i mod 3 = 2" by presburger
    then show ?thesis using cycle_shape [of i] by (elim disjE) (auto simp: cycle_event_def)
  qed
  then show ?thesis by (simp add: is_run_def sem_step_def)
qed

lemma cycle_reach: "sem_reach 0 (cycle_state i)"
  using cycle_run by (induction i) (auto simp: is_run_def intro: sem_start sem_next)

theorem sema_accounting_witness: "gets (cycle_state 1) = 0"
proof -
  have "ups (cycle_state 1) = 0"
    by (simp add: cycle_event_def sem_down_def down_common_def sem_start_state_def sema_init_def plain_check)
  then show ?thesis using sema_accounting [OF cycle_reach, of 1] by (simp del: cycle_state.simps)
qed

text \<open>C18. Waiting ends: when the semaphore keeps being released while a task waits, the task gets it or
  its call returns, after at most as many releases as there are tasks ahead of it plus one; and
  a task in plain \<^verbatim>\<open>down\<close> gets it, whatever signals arrive.\<close>

theorem sema_no_starvation:
  assumes "is_run sem_step sts evs" and "sem_reach val (sts 0)"
    and "sem_waits t (sts i)" and "\<forall>k\<ge>i. sem_waits t (sts k) \<longrightarrow> (\<exists>j\<ge>k. evs j = E_up)"
  shows "(\<exists>j>i. sem_served t (sts j)) \<and>
    (plain_waits t (sts i) \<longrightarrow> (\<exists>j>i. plain_served t (sts j))) \<and>
    (\<forall>n. (\<forall>j. i < j \<and> j \<le> i + n \<longrightarrow> \<not> sem_served t (sts j)) \<longrightarrow>
       card {j. i \<le> j \<and> j < i + n \<and> evs j = E_up} \<le> sem_position t (sts i))"
proof (intro conjI impI allI)
  note inv = sem_reach_inv [OF assms(2)]
  show "\<exists>j>i. sem_served t (sts j)"
    using assms(4) by (intro sema.eventually_served [OF assms(1) inv assms(3)]) blast
  show "\<exists>j>i. plain_served t (sts j)" if "plain_waits t (sts i)"
  proof (rule sema_plain.eventually_served [OF assms(1) inv that])
    fix k assume "i \<le> k" "plain_waits t (sts k)"
    then show "\<exists>j\<ge>k. evs j = E_up" using assms(4) by (auto simp: plain_waits_def sem_waits_def)
  qed
  show "card {j. i \<le> j \<and> j < i + n \<and> evs j = E_up} \<le> sem_position t (sts i)"
    if "\<forall>j. i < j \<and> j \<le> i + n \<longrightarrow> \<not> sem_served t (sts j)" for n
    using sema.waits_on [OF assms(1) inv assms(3), of n] that by (meson add_leE)
qed

theorem sema_no_starvation_witness: "\<exists>j>1. plain_served 1 (cycle_state j)"
proof -
  have "\<exists>j\<ge>k. cycle_event j = E_up" for k
    by (intro exI [of _ "3 * k + 1"]) (simp add: cycle_event_def)
  moreover have "sem_waits 1 (cycle_state 1)" "plain_waits 1 (cycle_state 1)"
    using cycle_shape [of 1] by (auto simp: sem_waits_def plain_waits_def lone_waiter_def)
  ultimately show ?thesis
    using sema_no_starvation [OF cycle_run, of 0 1 1] cycle_reach [of 0] by blast
qed

end
