(* ===== verification/Group_Lists.thy ===== *)
theory Group_Lists
  imports Kernel_Prelude "HOL-Library.Multiset"
begin

text \<open>
  Supplementary groups: \<^verbatim>\<open>kernel/groups.c\<close>.  A group list is kept in blocks, one small block inside
  the structure or an array of pages, and read through the macro \<^verbatim>\<open>GROUP_AT\<close>.  Reference
  counting of the structure is not modelled.
\<close>

section \<open>The blocks\<close>

type_synonym gid = u32

definition NGROUPS_SMALL :: nat where "NGROUPS_SMALL = 32"
definition NGROUPS_PER_BLOCK :: nat where "NGROUPS_PER_BLOCK = 4096 div 4"
definition NGROUPS_MAX :: nat where "NGROUPS_MAX = 65536"

record group_info =
  ngroups :: nat
  nblocks :: nat
  gblocks :: "gid list list"

text \<open>Access beyond the blocks is a fault (\<open>None\<close>).\<close>

definition GROUP_AT :: "group_info \<Rightarrow> nat \<Rightarrow> gid option" where
  "GROUP_AT gi i =
     (let b = i div NGROUPS_PER_BLOCK; j = i mod NGROUPS_PER_BLOCK in
      if b < length (gblocks gi) \<and> j < length (gblocks gi ! b) then Some (gblocks gi ! b ! j) else None)"

definition GROUP_SET :: "group_info \<Rightarrow> nat \<Rightarrow> gid \<Rightarrow> group_info option" where
  "GROUP_SET gi i v =
     (let b = i div NGROUPS_PER_BLOCK; j = i mod NGROUPS_PER_BLOCK in
      if b < length (gblocks gi) \<and> j < length (gblocks gi ! b)
      then Some (gi\<lparr>gblocks := (gblocks gi)[b := (gblocks gi ! b)[j := v]]\<rparr>) else None)"

text \<open>\<open>mem\<close> tells for each page whether its allocation succeeds, \<open>junk\<close> what the memory holds.  When a
  page cannot be had the others are freed and nothing is returned.\<close>

definition groups_alloc :: "nat \<Rightarrow> bool \<Rightarrow> (nat \<Rightarrow> bool) \<Rightarrow> (nat \<Rightarrow> nat \<Rightarrow> gid) \<Rightarrow> group_info option" where
  "groups_alloc gidsetsize info_ok mem junk =
     (let n = (gidsetsize + NGROUPS_PER_BLOCK - 1) div NGROUPS_PER_BLOCK;
          n = (if n = 0 then 1 else n) in
      if \<not> info_ok then None
      else if gidsetsize \<le> NGROUPS_SMALL
      then Some \<lparr>ngroups = gidsetsize, nblocks = n, gblocks = [map (junk 0) [0..<NGROUPS_SMALL]]\<rparr>
      else if \<forall>i < n. mem i
      then Some \<lparr>ngroups = gidsetsize, nblocks = n, gblocks = map (\<lambda>i. map (junk i) [0..<NGROUPS_PER_BLOCK]) [0..<n]\<rparr>
      else None)"

text \<open>The user's array is what can be read at its address; a shorter one faults.\<close>

fun from_user_blocks :: "gid list list \<Rightarrow> nat \<Rightarrow> gid list \<Rightarrow> gid list list kres" where
  "from_user_blocks [] cnt grouplist = Inr []"
| "from_user_blocks (b # bs) cnt grouplist =
     (let cp_count = min NGROUPS_PER_BLOCK cnt in
      if length grouplist < cp_count then Inl EFAULT
      else case from_user_blocks bs (cnt - cp_count) (drop NGROUPS_PER_BLOCK grouplist) of
        Inl e \<Rightarrow> Inl e
      | Inr bs' \<Rightarrow> Inr ((take cp_count grouplist @ drop cp_count b) # bs'))"

definition groups_from_user :: "group_info \<Rightarrow> gid list \<Rightarrow> group_info kres" where
  "groups_from_user gi grouplist = (case from_user_blocks (gblocks gi) (ngroups gi) grouplist of
     Inl e \<Rightarrow> Inl e | Inr bs \<Rightarrow> Inr (gi\<lparr>gblocks := bs\<rparr>))"

text \<open>\<open>space\<close> is the number of elements that can be written to the user's array.\<close>

fun to_user_blocks :: "gid list list \<Rightarrow> nat \<Rightarrow> nat \<Rightarrow> gid list kres" where
  "to_user_blocks [] cnt space = Inr []"
| "to_user_blocks (b # bs) cnt space =
     (let cp_count = min NGROUPS_PER_BLOCK cnt in
      if space < cp_count then Inl EFAULT
      else case to_user_blocks bs (cnt - cp_count) (space - NGROUPS_PER_BLOCK) of
        Inl e \<Rightarrow> Inl e
      | Inr out \<Rightarrow> Inr (take cp_count b @ out))"

definition groups_to_user :: "group_info \<Rightarrow> nat \<Rightarrow> gid list kres" where
  "groups_to_user gi space = to_user_blocks (gblocks gi) (ngroups gi) space"

section \<open>Sorting\<close>

text \<open>The inner loop of the Shell sort moves larger elements up by \<open>stride\<close> and puts \<open>tmp\<close> into the gap.\<close>

function shift_loop :: "nat \<Rightarrow> gid \<Rightarrow> group_info \<Rightarrow> int \<Rightarrow> nat \<Rightarrow> group_info option" where
  "shift_loop stride tmp gi left right =
     (if 0 \<le> left \<and> 0 < stride then
        (case GROUP_AT gi (nat left) of
           None \<Rightarrow> None
         | Some g \<Rightarrow>
             if g > tmp then
               (case GROUP_SET gi right g of
                  None \<Rightarrow> None
                | Some gi' \<Rightarrow> shift_loop stride tmp gi' (left - int stride) (nat left))
             else GROUP_SET gi right tmp)
      else GROUP_SET gi right tmp)"
  by pat_completeness auto
termination by (relation "measure (\<lambda>(stride, tmp, gi, left, right). nat (left + int stride))") auto

declare shift_loop.simps [simp del]

fun sort_pass :: "nat \<Rightarrow> nat list \<Rightarrow> group_info \<Rightarrow> group_info option" where
  "sort_pass stride [] gi = Some gi"
| "sort_pass stride (base # bs) gi =
     (case GROUP_AT gi (base + stride) of
        None \<Rightarrow> None
      | Some tmp \<Rightarrow>
          (case shift_loop stride tmp gi (int base) (base + stride) of
             None \<Rightarrow> None
           | Some gi' \<Rightarrow> sort_pass stride bs gi'))"

function sort_loop :: "nat \<Rightarrow> group_info \<Rightarrow> group_info option" where
  "sort_loop stride gi =
     (if stride = 0 then Some gi
      else case sort_pass stride [0..<ngroups gi - stride] gi of
        None \<Rightarrow> None
      | Some gi' \<Rightarrow> sort_loop (stride div 3) gi')"
  by pat_completeness auto
termination by (relation "measure fst") auto

declare sort_loop.simps [simp del]

function first_stride :: "nat \<Rightarrow> nat \<Rightarrow> nat" where
  "first_stride n stride = (if stride < n then first_stride n (3 * stride + 1) else stride)"
  by pat_completeness auto
termination by (relation "measure (\<lambda>(n, stride). n - stride)") auto

declare first_stride.simps [simp del]

definition groups_sort :: "group_info \<Rightarrow> group_info option" where
  "groups_sort gi = sort_loop (first_stride (ngroups gi) 1 div 3) gi"

section \<open>Searching\<close>

text \<open>The indices are unsigned; their sum stays below \<open>2 ^ 17\<close>.\<close>

function search_loop :: "group_info \<Rightarrow> gid \<Rightarrow> nat \<Rightarrow> nat \<Rightarrow> bool option" where
  "search_loop gi grp left right =
     (if left < right then
        (let mid = (left + right) div 2 in
         case GROUP_AT gi mid of
           None \<Rightarrow> None
         | Some g \<Rightarrow>
             if grp > g then search_loop gi grp (mid + 1) right
             else if grp < g then search_loop gi grp left mid
             else Some True)
      else Some False)"
  by pat_completeness auto
termination by (relation "measure (\<lambda>(gi, grp, left, right). right - left)") auto

declare search_loop.simps [simp del]

definition groups_search :: "group_info option \<Rightarrow> gid \<Rightarrow> bool option" where
  "groups_search group_info grp = (case group_info of
     None \<Rightarrow> Some False | Some gi \<Rightarrow> search_loop gi grp 0 (ngroups gi))"

section \<open>The blocks as one list\<close>

definition gi_flat :: "group_info \<Rightarrow> gid list" where
  "gi_flat gi = concat (gblocks gi)"

definition gi_list :: "group_info \<Rightarrow> gid list" where
  "gi_list gi = take (ngroups gi) (gi_flat gi)"

definition gi_wf :: "group_info \<Rightarrow> bool" where
  "gi_wf gi \<longleftrightarrow> nblocks gi = length (gblocks gi) \<and> ngroups gi \<le> length (gi_flat gi) \<and>
     ((\<forall>b \<in> set (gblocks gi). length b = NGROUPS_PER_BLOCK) \<or> (\<exists>b. gblocks gi = [b] \<and> length b = NGROUPS_SMALL))"

lemma concat_uniform:
  assumes "\<forall>b \<in> set bs. length b = n" and "i < length (concat bs)"
  shows "i div n < length bs" and "i mod n < n" and "concat bs ! i = bs ! (i div n) ! (i mod n)"
    and "(concat bs)[i := v] = concat (bs[i div n := (bs ! (i div n))[i mod n := v]])"
proof -
  have "i div n < length bs \<and> i mod n < n \<and> concat bs ! i = bs ! (i div n) ! (i mod n) \<and>
      (concat bs)[i := v] = concat (bs[i div n := (bs ! (i div n))[i mod n := v]])"
    using assms
  proof (induction bs arbitrary: i)
    case (Cons b bs)
    show ?case
    proof (cases "i < n")
      case True
      then show ?thesis using Cons.prems by (simp add: nth_append list_update_append)
    next
      case False
      have "0 < length (concat (b # bs))" using Cons.prems(2) by linarith
      then have "concat (b # bs) \<noteq> []" by (simp only: length_greater_0_conv simp_thms)
      then have n: "0 < n" using Cons.prems(1) by (cases n) (auto simp: concat_eq_Nil_conv)
      have "i - n < length (concat bs)" using False Cons.prems by simp
      note IH = Cons.IH [OF _ this]
      have "i div n = Suc ((i - n) div n)" "i mod n = (i - n) mod n" using False n by (simp_all add: le_div_geq le_mod_geq)
      then show ?thesis using IH False Cons.prems by (simp add: nth_append list_update_append)
    qed
  qed simp
  then show "i div n < length bs" and "i mod n < n" and "concat bs ! i = bs ! (i div n) ! (i mod n)"
    and "(concat bs)[i := v] = concat (bs[i div n := (bs ! (i div n))[i mod n := v]])" by simp_all
qed

lemma group_at:
  assumes "gi_wf gi" and "i < length (gi_flat gi)"
  shows "GROUP_AT gi i = Some (gi_flat gi ! i)"
proof (cases "\<exists>b. gblocks gi = [b] \<and> length b = NGROUPS_SMALL")
  case True
  then show ?thesis using assms(2) by (auto simp: GROUP_AT_def gi_flat_def NGROUPS_SMALL_def NGROUPS_PER_BLOCK_def)
next
  case False
  then have u: "\<forall>b \<in> set (gblocks gi). length b = NGROUPS_PER_BLOCK" using assms(1) by (auto simp: gi_wf_def)
  then show ?thesis
    using concat_uniform(1-3) [OF u assms(2) [unfolded gi_flat_def]] by (simp add: GROUP_AT_def gi_flat_def)
qed

lemma group_set:
  assumes "gi_wf gi" and "i < length (gi_flat gi)"
  obtains gi' where "GROUP_SET gi i v = Some gi'" and "gi_wf gi'" and "gi_flat gi' = (gi_flat gi)[i := v]"
    and "ngroups gi' = ngroups gi"
proof (cases "\<exists>b. gblocks gi = [b] \<and> length b = NGROUPS_SMALL")
  case True
  then show thesis using that assms by (auto simp: GROUP_SET_def gi_wf_def gi_flat_def NGROUPS_SMALL_def NGROUPS_PER_BLOCK_def)
next
  case False
  then have u: "\<forall>b \<in> set (gblocks gi). length b = NGROUPS_PER_BLOCK" using assms(1) by (auto simp: gi_wf_def)
  note c = concat_uniform [OF u assms(2) [unfolded gi_flat_def]]
  let ?b = "i div NGROUPS_PER_BLOCK" and ?j = "i mod NGROUPS_PER_BLOCK"
  let ?gi = "gi\<lparr>gblocks := (gblocks gi)[?b := (gblocks gi ! ?b)[?j := v]]\<rparr>"
  have "GROUP_SET gi i v = Some ?gi" using c(1,2) u by (simp add: GROUP_SET_def Let_def)
  moreover have flat: "gi_flat ?gi = (gi_flat gi)[i := v]" using c(4) by (simp add: gi_flat_def)
  moreover have "\<forall>b \<in> set ((gblocks gi)[?b := (gblocks gi ! ?b)[?j := v]]). length b = NGROUPS_PER_BLOCK"
    using u c(1) by (auto dest!: subsetD [OF set_update_subset_insert])
  then have "gi_wf ?gi" using assms(1) flat u by (auto simp: gi_wf_def)
  ultimately show thesis using that by simp
qed

section \<open>The sort on a list\<close>

text \<open>The inner loop, as an operation on a list: it puts \<open>tmp\<close> into the gap at \<open>right\<close> after moving the
  larger elements below it.\<close>

function shift_list :: "nat \<Rightarrow> gid \<Rightarrow> gid list \<Rightarrow> int \<Rightarrow> nat \<Rightarrow> gid list" where
  "shift_list stride tmp xs left right =
     (if 0 \<le> left \<and> 0 < stride \<and> xs ! nat left > tmp
      then shift_list stride tmp (xs[right := xs ! nat left]) (left - int stride) (nat left)
      else xs[right := tmp])"
  by pat_completeness auto
termination by (relation "measure (\<lambda>(stride, tmp, xs, left, right). nat (left + int stride))") auto

declare shift_list.simps [simp del]

lemma length_shift_list [simp]: "length (shift_list stride tmp xs left right) = length xs"
  by (induction stride tmp xs left right rule: shift_list.induct) (subst shift_list.simps, simp)

lemma shift_loop_list:
  assumes "gi_wf gi" and "right < ngroups gi" and "left < int (ngroups gi)"
  shows "\<exists>gi'. shift_loop stride tmp gi left right = Some gi' \<and> gi_wf gi' \<and> ngroups gi' = ngroups gi \<and>
    gi_flat gi' = shift_list stride tmp (gi_flat gi) left right"
  using assms
proof (induction stride tmp gi left right rule: shift_loop.induct)
  case (1 stride tmp gi left right)
  have len: "ngroups gi \<le> length (gi_flat gi)" using 1 by (simp add: gi_wf_def)
  obtain gt where gt: "GROUP_SET gi right tmp = Some gt" "gi_wf gt" "gi_flat gt = (gi_flat gi)[right := tmp]" "ngroups gt = ngroups gi"
    using group_set [of gi right tmp] 1 len by (metis less_le_trans)
  show ?case
  proof (cases "0 \<le> left \<and> 0 < stride")
    case True
    then have at: "GROUP_AT gi (nat left) = Some (gi_flat gi ! nat left)" using 1 len by (intro group_at) auto
    show ?thesis
    proof (cases "gi_flat gi ! nat left > tmp")
      case big: True
      obtain gr where gr: "GROUP_SET gi right (gi_flat gi ! nat left) = Some gr" "gi_wf gr"
        "gi_flat gr = (gi_flat gi)[right := gi_flat gi ! nat left]" "ngroups gr = ngroups gi"
        using group_set [of gi right "gi_flat gi ! nat left"] 1 len by (metis less_le_trans)
      have "\<exists>gi'. shift_loop stride tmp gr (left - int stride) (nat left) = Some gi' \<and> gi_wf gi' \<and> ngroups gi' = ngroups gr \<and>
          gi_flat gi' = shift_list stride tmp (gi_flat gr) (left - int stride) (nat left)"
        using True big gr 1(3,4) by (intro 1(1) [OF True at big gr(1)]) auto
      then show ?thesis
        using True at big gr by (subst shift_loop.simps, subst shift_list.simps) auto
    next
      case False
      then show ?thesis using True at gt by (subst shift_loop.simps, subst shift_list.simps) simp
    qed
  next
    case False
    then show ?thesis using gt by (subst shift_loop.simps, subst shift_list.simps) auto
  qed
qed

text \<open>Every pass permutes the list.\<close>

lemma mset_gap:
  assumes "l < length xs" and "r < length xs" and "l \<noteq> r"
  shows "mset (xs[r := xs ! l, l := v]) = mset (xs[r := v])"
proof -
  let ?ys = "xs[r := v]"
  have "?ys[r := ?ys ! l, l := ?ys ! r] = xs[r := xs ! l, l := v]" using assms by simp
  then show ?thesis using mset_swap [of l ?ys r] assms by (metis length_list_update list_update_swap)
qed

lemma mset_shift_list:
  assumes "right < length xs" and "left < int right"
  shows "mset (shift_list stride tmp xs left right) = mset (xs[right := tmp])"
  using assms
proof (induction stride tmp xs left right rule: shift_list.induct)
  case (1 stride tmp xs left right)
  show ?case
  proof (cases "0 \<le> left \<and> 0 < stride \<and> xs ! nat left > tmp")
    case True
    have "mset (shift_list stride tmp (xs[right := xs ! nat left]) (left - int stride) (nat left)) =
        mset ((xs[right := xs ! nat left])[nat left := tmp])"
      using 1 True by (intro 1(1)) auto
    also have "\<dots> = mset (xs[right := tmp])" using 1 True by (intro mset_gap) auto
    finally show ?thesis using True by (subst shift_list.simps) simp
  qed (subst shift_list.simps, auto)
qed

text \<open>With stride one, it inserts into the sorted elements below.\<close>

lemma shift_list_inserts:
  assumes "sorted (as @ bs)" and "\<forall>b \<in> set bs. tmp < b"
  shows "\<exists>zs. shift_list 1 tmp (as @ h # bs @ cs) (int (length as) - 1) (length as) = zs @ cs \<and> sorted zs \<and> length zs = Suc (length as + length bs)"
  using assms
proof (induction as arbitrary: h bs rule: rev_induct)
  case Nil
  have "shift_list 1 tmp (h # bs @ cs) (- 1) 0 = tmp # bs @ cs" by (subst shift_list.simps) simp
  then show ?case using Nil by (intro exI [of _ "tmp # bs"]) (auto intro: less_imp_le)
next
  case (snoc a as)
  show ?case
  proof (cases "a > tmp")
    case True
    have "\<exists>zs. shift_list 1 tmp (as @ a # (a # bs) @ cs) (int (length as) - 1) (length as) = zs @ cs \<and> sorted zs \<and>
        length zs = Suc (length as + length (a # bs))"
      using snoc.prems True by (intro snoc.IH) auto
    moreover have "shift_list 1 tmp ((as @ [a]) @ h # bs @ cs) (int (length (as @ [a])) - 1) (length (as @ [a])) =
        shift_list 1 tmp (as @ a # (a # bs) @ cs) (int (length as) - 1) (length as)"
      using True by (subst shift_list.simps) (simp add: nth_append list_update_append)
    ultimately show ?thesis by simp
  next
    case False
    have "shift_list 1 tmp ((as @ [a]) @ h # bs @ cs) (int (length (as @ [a])) - 1) (length (as @ [a])) = (as @ [a] @ tmp # bs) @ cs"
      using False by (subst shift_list.simps) (simp add: nth_append list_update_append)
    moreover have "sorted (as @ [a] @ tmp # bs)"
      using snoc.prems False by (fastforce simp: sorted_append not_less intro: less_imp_le order_trans)
    ultimately show ?thesis by (intro exI [of _ "as @ [a] @ tmp # bs"]) simp
  qed
qed

section \<open>The sort\<close>

lemma sort_pass_step:
  assumes "gi_wf gi" and "base + stride < ngroups gi"
  obtains gi' where "sort_pass stride (base # bs) gi = sort_pass stride bs gi'" and "gi_wf gi'" and "ngroups gi' = ngroups gi"
    and "gi_flat gi' = shift_list stride (gi_flat gi ! (base + stride)) (gi_flat gi) (int base) (base + stride)"
proof -
  have "GROUP_AT gi (base + stride) = Some (gi_flat gi ! (base + stride))"
    using assms by (intro group_at) (auto simp: gi_wf_def)
  then show thesis
    using shift_loop_list [OF assms, of "int base" stride "gi_flat gi ! (base + stride)"] assms that by auto
qed

text \<open>What a pass leaves in place: the number of groups, the elements, and what lies beyond them.\<close>

definition gi_perm :: "group_info \<Rightarrow> group_info \<Rightarrow> bool" where
  "gi_perm gi gi' \<longleftrightarrow> gi_wf gi' \<and> ngroups gi' = ngroups gi \<and> mset (gi_list gi') = mset (gi_list gi)"

lemma shift_list_beyond:
  assumes "right < n" and "left < int right" and "n \<le> length xs"
  shows "drop n (shift_list stride tmp xs left right) = drop n xs"
  using assms
proof (induction stride tmp xs left right rule: shift_list.induct)
  case (1 stride tmp xs left right)
  show ?case
  proof (cases "0 \<le> left \<and> 0 < stride \<and> xs ! nat left > tmp")
    case True
    have "drop n (shift_list stride tmp (xs[right := xs ! nat left]) (left - int stride) (nat left)) = drop n (xs[right := xs ! nat left])"
      using 1(2-4) True by (intro 1(1)) auto
    then show ?thesis using True 1(2) by (subst shift_list.simps) simp
  qed (use 1(2) in \<open>subst shift_list.simps, auto\<close>)
qed

lemma sort_pass_perm:
  assumes "gi_wf gi" and "0 < stride" and "\<forall>b \<in> set bs. b + stride < ngroups gi"
  shows "\<exists>gi'. sort_pass stride bs gi = Some gi' \<and> gi_perm gi gi'"
  using assms(1,3)
proof (induction bs arbitrary: gi)
  case (Cons base bs)
  have r: "base + stride < ngroups gi" using Cons.prems by simp
  have len: "ngroups gi \<le> length (gi_flat gi)" using Cons.prems by (simp add: gi_wf_def)
  obtain g1 where g1: "sort_pass stride (base # bs) gi = sort_pass stride bs g1" "gi_wf g1" "ngroups g1 = ngroups gi"
    "gi_flat g1 = shift_list stride (gi_flat gi ! (base + stride)) (gi_flat gi) (int base) (base + stride)"
    using sort_pass_step [OF Cons.prems(1) r] .
  have ms: "mset (gi_flat g1) = mset (gi_flat gi)"
    using g1(4) mset_shift_list [of "base + stride" "gi_flat gi" "int base"] r len assms(2) by simp
  have dr: "drop (ngroups gi) (gi_flat g1) = drop (ngroups gi) (gi_flat gi)"
    using g1(4) shift_list_beyond [OF r, of "int base" "gi_flat gi"] len assms(2) by simp
  have "mset (gi_list g1) + mset (drop (ngroups gi) (gi_flat g1)) = mset (gi_list gi) + mset (drop (ngroups gi) (gi_flat gi))"
    using ms g1(3) by (simp add: gi_list_def flip: mset_append)
  then have "mset (gi_list g1) = mset (gi_list gi)" using dr by simp
  moreover obtain g2 where "sort_pass stride bs g1 = Some g2" "gi_perm g1 g2"
    using Cons.IH [of g1] g1(2,3) Cons.prems(2) by auto
  ultimately show ?case using g1 by (auto simp: gi_perm_def)
qed (simp add: gi_perm_def)

lemma sort_pass_sorts:
  assumes "gi_wf gi" and "sorted (take (Suc base) (gi_flat gi))" and "base < ngroups gi"
  shows "\<exists>gi'. sort_pass 1 [base..<ngroups gi - 1] gi = Some gi' \<and> sorted (gi_list gi') \<and> ngroups gi' = ngroups gi"
  using assms
proof (induction "ngroups gi - base" arbitrary: gi base rule: less_induct)
  case less
  have len: "ngroups gi \<le> length (gi_flat gi)" using less.prems(1) by (simp add: gi_wf_def)
  show ?case
  proof (cases "Suc base < ngroups gi")
    case False
    then have "ngroups gi = Suc base" using less.prems(3) by simp
    then show ?thesis using less.prems by (simp add: gi_list_def)
  next
    case True
    then have r: "base + 1 < ngroups gi" by simp
    let ?as = "take (Suc base) (gi_flat gi)" and ?h = "gi_flat gi ! Suc base" and ?cs = "drop (Suc (Suc base)) (gi_flat gi)"
    have la: "length ?as = Suc base" using True len by simp
    have "gi_flat gi = ?as @ drop (Suc base) (gi_flat gi)" by (rule append_take_drop_id [symmetric])
    also have "drop (Suc base) (gi_flat gi) = ?h # ?cs" using True len by (intro Cons_nth_drop_Suc [symmetric]) simp
    finally have split: "?as @ ?h # [] @ ?cs = gi_flat gi" by simp
    obtain g1 where g1: "sort_pass 1 (base # [Suc base..<ngroups gi - 1]) gi = sort_pass 1 [Suc base..<ngroups gi - 1] g1" "gi_wf g1"
      "ngroups g1 = ngroups gi" "gi_flat g1 = shift_list 1 (gi_flat gi ! (base + 1)) (gi_flat gi) (int base) (base + 1)"
      by (rule sort_pass_step [OF less.prems(1) r])
    obtain zs where zs: "shift_list 1 ?h (?as @ ?h # [] @ ?cs) (int (length ?as) - 1) (length ?as) = zs @ ?cs" "sorted zs"
      "length zs = Suc (length ?as + length ([] :: gid list))"
      using shift_list_inserts [of ?as "[]" ?h ?h ?cs] less.prems(2) by auto
    have "gi_flat g1 = zs @ ?cs" using g1(4) zs(1) unfolding split la by simp
    then have "sorted (take (Suc (Suc base)) (gi_flat g1))" using zs la by simp
    then have "\<exists>gi'. sort_pass 1 [Suc base..<ngroups g1 - 1] g1 = Some gi' \<and> sorted (gi_list gi') \<and> ngroups gi' = ngroups g1"
      using g1 True less.prems(3) by (intro less.hyps) auto
    moreover have "[base..<ngroups gi - 1] = base # [Suc base..<ngroups gi - 1]" using True by (simp add: upt_rec)
    ultimately show ?thesis using g1(1,3) by simp
  qed
qed

text \<open>The strides are 1, 4, 13, 40 and so on; dividing by three goes back one.\<close>

inductive knuth :: "nat \<Rightarrow> bool" where
  "knuth 1"
| "knuth s \<Longrightarrow> knuth (3 * s + 1)"

lemma first_stride_knuth: "knuth s \<Longrightarrow> knuth (first_stride n s) \<and> n \<le> first_stride n s"
proof (induction n s rule: first_stride.induct)
  case (1 n s)
  show ?case
  proof (cases "s < n")
    case True
    then show ?thesis using 1 knuth.intros(2) by (subst (1 2) first_stride.simps) simp
  next
    case False
    then show ?thesis using 1 by (subst (1 2) first_stride.simps) simp
  qed
qed

lemma stride_bases: "\<forall>b \<in> set [0..<n - stride]. b + stride < n"
  by auto

lemma sort_loop_correct:
  assumes "knuth s" and "gi_wf gi"
  shows "\<exists>gi'. sort_loop s gi = Some gi' \<and> gi_perm gi gi' \<and> sorted (gi_list gi')"
  using assms
proof (induction arbitrary: gi rule: knuth.induct)
  case 1
  obtain g1 where g1: "sort_pass 1 [0..<ngroups gi - 1] gi = Some g1" "gi_perm gi g1"
    using sort_pass_perm [OF 1 _ stride_bases, of 1] by auto
  have "sorted (gi_list g1)"
  proof (cases "ngroups gi = 0")
    case True
    then show ?thesis using g1(2) by (simp add: gi_perm_def gi_list_def)
  next
    case False
    have "sorted (take (Suc 0) (gi_flat gi))" by (cases "gi_flat gi") auto
    then show ?thesis using sort_pass_sorts [OF 1, of 0] False g1 by auto
  qed
  moreover have "sort_loop 1 gi = Some g1" using g1(1) by (subst sort_loop.simps) (simp add: sort_loop.simps [of 0])
  ultimately show ?case using g1(2) by blast
next
  case (2 s)
  obtain g1 where g1: "sort_pass (3 * s + 1) [0..<ngroups gi - (3 * s + 1)] gi = Some g1" "gi_perm gi g1"
    using sort_pass_perm [OF 2(3) _ stride_bases, of "3 * s + 1"] by auto
  obtain g2 where g2: "sort_loop s g1 = Some g2" "gi_perm g1 g2" "sorted (gi_list g2)"
    using 2(2) [of g1] g1(2) by (auto simp: gi_perm_def)
  have "(3 * s + 1) div 3 = s" by simp
  then have "sort_loop (3 * s + 1) gi = Some g2" using g1(1) g2(1) by (subst sort_loop.simps) simp
  then show ?case using g1(2) g2(2,3) by (auto simp: gi_perm_def)
qed

lemma groups_sort_correct:
  assumes "gi_wf gi"
  obtains gi' where "groups_sort gi = Some gi'" and "gi_wf gi'" and "ngroups gi' = ngroups gi"
    and "mset (gi_list gi') = mset (gi_list gi)" and "sorted (gi_list gi')"
proof -
  have k: "knuth (first_stride (ngroups gi) 1)" "ngroups gi \<le> first_stride (ngroups gi) 1"
    using first_stride_knuth [OF knuth.intros(1)] by simp_all
  from k(1) show thesis
  proof cases
    case 1
    then have "length (gi_list gi) \<le> 1" using k(2) by (simp add: gi_list_def)
    then have "sorted (gi_list gi)" by (cases "gi_list gi") auto
    moreover have "groups_sort gi = Some gi" using 1 by (simp add: groups_sort_def sort_loop.simps)
    ultimately show ?thesis using that assms by blast
  next
    case (2 s)
    have "(3 * s + 1) div 3 = s" by simp
    then have "groups_sort gi = sort_loop s gi" using 2(1) by (simp only: groups_sort_def)
    then show ?thesis using sort_loop_correct [OF 2(2) assms] that by (auto simp: gi_perm_def)
  qed
qed

section \<open>The search\<close>

lemma search_loop_correct:
  assumes "gi_wf gi" and "sorted (gi_list gi)" and "right \<le> ngroups gi"
  shows "search_loop gi grp left right = Some (\<exists>i. left \<le> i \<and> i < right \<and> gi_list gi ! i = grp)"
  using assms(3)
proof (induction "right - left" arbitrary: left right rule: less_induct)
  case less
  show ?case
  proof (cases "left < right")
    case True
    let ?mid = "(left + right) div 2"
    have mid: "left \<le> ?mid" "?mid < right" "?mid < ngroups gi" using True less.prems by auto
    have len: "length (gi_list gi) = ngroups gi" using assms(1) by (simp add: gi_list_def gi_wf_def)
    have at: "GROUP_AT gi ?mid = Some (gi_list gi ! ?mid)"
      using group_at [OF assms(1), of ?mid] mid assms(1) by (simp add: gi_list_def gi_wf_def)
    have below: "gi_list gi ! i \<le> gi_list gi ! ?mid" if "i \<le> ?mid" for i
      using sorted_nth_mono [OF assms(2) that] mid len by simp
    have above: "gi_list gi ! ?mid \<le> gi_list gi ! i" if "?mid \<le> i" "i < right" for i
      using sorted_nth_mono [OF assms(2) that(1)] that less.prems len by simp
    consider "gi_list gi ! ?mid < grp" | "grp < gi_list gi ! ?mid" | "gi_list gi ! ?mid = grp" by (rule linorder_cases)
    then show ?thesis
    proof cases
      case 1
      then have "left \<le> i \<and> i < right \<and> gi_list gi ! i = grp \<longleftrightarrow> ?mid + 1 \<le> i \<and> i < right \<and> gi_list gi ! i = grp" for i
        using below [of i] mid by (cases "i \<le> ?mid") auto
      then show ?thesis
        using True at 1 mid less.hyps [of right "?mid + 1"] less.prems by (subst search_loop.simps) (simp add: Let_def)
    next
      case 2
      then have "left \<le> i \<and> i < right \<and> gi_list gi ! i = grp \<longleftrightarrow> left \<le> i \<and> i < ?mid \<and> gi_list gi ! i = grp" for i
        using above [of i] mid by (cases "i < ?mid") auto
      moreover have "\<not> gi_list gi ! ?mid < grp" using 2 by simp
      ultimately show ?thesis
        using True at 2 mid less.hyps [of ?mid left] less.prems by (subst search_loop.simps) (simp add: Let_def)
    next
      case 3
      then show ?thesis using True at mid by (subst search_loop.simps) (auto simp: Let_def)
    qed
  qed (subst search_loop.simps, simp)
qed

lemma groups_search_correct:
  assumes "gi_wf gi" and "sorted (gi_list gi)"
  shows "groups_search (Some gi) grp = Some (grp \<in> set (gi_list gi))"
proof -
  have "length (gi_list gi) = ngroups gi" using assms(1) by (simp add: gi_list_def gi_wf_def)
  then show ?thesis using search_loop_correct [OF assms order_refl, of grp 0] by (simp add: groups_search_def in_set_conv_nth conj_commute)
qed

section \<open>Allocation and copying\<close>

lemma groups_alloc_wf:
  assumes "groups_alloc n info_ok mem junk = Some gi" shows "gi_wf gi" and "ngroups gi = n"
proof -
  let ?m = "(n + NGROUPS_PER_BLOCK - 1) div NGROUPS_PER_BLOCK"
  have big: "n \<le> ?m * NGROUPS_PER_BLOCK" "NGROUPS_SMALL < n \<Longrightarrow> ?m \<noteq> 0" "n \<le> NGROUPS_SMALL \<Longrightarrow> ?m \<le> 1"
    by (simp_all add: NGROUPS_PER_BLOCK_def NGROUPS_SMALL_def)
  have "length (concat (map (\<lambda>i. map (junk i) [0..<NGROUPS_PER_BLOCK]) [0..<k])) = k * NGROUPS_PER_BLOCK" for k
    by (induction k) auto
  then show "gi_wf gi" "ngroups gi = n"
    using assms big by (auto simp: groups_alloc_def gi_wf_def gi_flat_def Let_def split: if_splits)
qed

lemma from_user_uniform:
  assumes "\<forall>b \<in> set bs. length b = NGROUPS_PER_BLOCK" and "cnt \<le> length (concat bs)"
  shows "if length ul < cnt then from_user_blocks bs cnt ul = Inl EFAULT
    else \<exists>bs'. from_user_blocks bs cnt ul = Inr bs' \<and> (\<forall>b \<in> set bs'. length b = NGROUPS_PER_BLOCK) \<and>
      length (concat bs') = length (concat bs) \<and> length bs' = length bs \<and> take cnt (concat bs') = take cnt ul"
  using assms
proof (induction bs arbitrary: cnt ul)
  case (Cons b bs)
  let ?N = NGROUPS_PER_BLOCK
  have b: "length b = ?N" using Cons.prems by simp
  show ?case
  proof (cases "cnt \<le> ?N")
    case True
    then have "\<exists>bs'. from_user_blocks bs 0 (drop ?N ul) = Inr bs' \<and> (\<forall>b \<in> set bs'. length b = ?N) \<and>
        length (concat bs') = length (concat bs) \<and> length bs' = length bs"
      using Cons.IH [of 0 "drop ?N ul"] Cons.prems by auto
    then show ?thesis using True b by (auto simp: min_def)
  next
    case False
    have "if length (drop ?N ul) < cnt - ?N then from_user_blocks bs (cnt - ?N) (drop ?N ul) = Inl EFAULT
        else \<exists>bs'. from_user_blocks bs (cnt - ?N) (drop ?N ul) = Inr bs' \<and> (\<forall>b \<in> set bs'. length b = ?N) \<and>
          length (concat bs') = length (concat bs) \<and> length bs' = length bs \<and> take (cnt - ?N) (concat bs') = take (cnt - ?N) (drop ?N ul)"
      using Cons.prems b by (intro Cons.IH) auto
    moreover have "take cnt ul = take ?N ul @ take (cnt - ?N) (drop ?N ul)"
      using False by (metis le_add_diff_inverse less_imp_le not_less take_add)
    ultimately show ?thesis using False b by (auto simp: min_def split: if_splits)
  qed
qed simp

lemma groups_from_user_correct:
  assumes "gi_wf gi"
  shows "if length ul < ngroups gi then groups_from_user gi ul = Inl EFAULT
    else \<exists>gi'. groups_from_user gi ul = Inr gi' \<and> gi_wf gi' \<and> ngroups gi' = ngroups gi \<and> gi_list gi' = take (ngroups gi) ul"
proof (cases "\<exists>b. gblocks gi = [b] \<and> length b = NGROUPS_SMALL")
  case True
  then have "min NGROUPS_PER_BLOCK (ngroups gi) = ngroups gi"
    using assms by (auto simp: gi_wf_def gi_flat_def NGROUPS_SMALL_def NGROUPS_PER_BLOCK_def)
  then show ?thesis using True assms by (auto simp: groups_from_user_def gi_wf_def gi_flat_def gi_list_def Let_def)
next
  case False
  then have u: "\<forall>b \<in> set (gblocks gi). length b = NGROUPS_PER_BLOCK" using assms by (auto simp: gi_wf_def)
  have "ngroups gi \<le> length (concat (gblocks gi))" using assms by (simp add: gi_wf_def gi_flat_def)
  then show ?thesis
    using from_user_uniform [OF u, of "ngroups gi" ul] assms
    by (auto simp: groups_from_user_def gi_wf_def gi_flat_def gi_list_def split: if_splits)
qed

lemma to_user_uniform:
  assumes "\<forall>b \<in> set bs. length b = NGROUPS_PER_BLOCK" and "cnt \<le> length (concat bs)"
  shows "to_user_blocks bs cnt space = (if space < cnt then Inl EFAULT else Inr (take cnt (concat bs)))"
  using assms
proof (induction bs arbitrary: cnt space)
  case (Cons b bs)
  let ?N = NGROUPS_PER_BLOCK
  have IH: "to_user_blocks bs (cnt - ?N) (space - ?N) = (if space - ?N < cnt - ?N then Inl EFAULT else Inr (take (cnt - ?N) (concat bs)))"
    using Cons.prems by (intro Cons.IH) auto
  show ?case
  proof (cases "cnt \<le> ?N")
    case True
    then show ?thesis using IH Cons.prems by (auto simp: min_def)
  next
    case False
    then show ?thesis using IH Cons.prems by (auto simp: min_def)
  qed
qed simp

lemma groups_to_user_correct:
  assumes "gi_wf gi"
  shows "groups_to_user gi space = (if space < ngroups gi then Inl EFAULT else Inr (gi_list gi))"
proof (cases "\<exists>b. gblocks gi = [b] \<and> length b = NGROUPS_SMALL")
  case True
  then have "min NGROUPS_PER_BLOCK (ngroups gi) = ngroups gi"
    using assms by (auto simp: gi_wf_def gi_flat_def NGROUPS_SMALL_def NGROUPS_PER_BLOCK_def)
  then show ?thesis using True by (auto simp: groups_to_user_def gi_flat_def gi_list_def Let_def)
next
  case False
  then have u: "\<forall>b \<in> set (gblocks gi). length b = NGROUPS_PER_BLOCK" using assms by (auto simp: gi_wf_def)
  have "ngroups gi \<le> length (concat (gblocks gi))" using assms by (simp add: gi_wf_def gi_flat_def)
  then show ?thesis using to_user_uniform [OF u] by (simp add: groups_to_user_def gi_flat_def gi_list_def)
qed

end
