(* ===== verification/Capability.thy ===== *)
theory Capability
  imports Group_Lists Byteorder
begin

text \<open>
  Capabilities and credentials: \<^verbatim>\<open>include/linux/capability.h\<close>, \<^verbatim>\<open>cred.h\<close> and \<^verbatim>\<open>securebits.h\<close>, the
  capability rules of \<^verbatim>\<open>security/commoncap.c\<close> and the capability system call of
  \<^verbatim>\<open>kernel/capability.c\<close>.  The configuration has no further security module, so these rules
  are the hooks the rest of the kernel calls.
\<close>

section \<open>Capability sets\<close>

text \<open>Two 32-bit words.\<close>

type_synonym kernel_cap = "u32 \<times> u32"

definition cap_word :: "kernel_cap \<Rightarrow> nat \<Rightarrow> u32" where
  "cap_word c i = (if i = 0 then fst c else snd c)"

definition CAP_TO_INDEX :: "nat \<Rightarrow> nat" where "CAP_TO_INDEX x = drop_bit 5 x"
definition CAP_TO_MASK :: "nat \<Rightarrow> u32" where "CAP_TO_MASK x = push_bit (x mod 32) 1"

definition CAP_CHOWN :: nat where "CAP_CHOWN = 0"
definition CAP_DAC_OVERRIDE :: nat where "CAP_DAC_OVERRIDE = 1"
definition CAP_DAC_READ_SEARCH :: nat where "CAP_DAC_READ_SEARCH = 2"
definition CAP_FOWNER :: nat where "CAP_FOWNER = 3"
definition CAP_FSETID :: nat where "CAP_FSETID = 4"
definition CAP_SETGID :: nat where "CAP_SETGID = 6"
definition CAP_SETUID :: nat where "CAP_SETUID = 7"
definition CAP_SETPCAP :: nat where "CAP_SETPCAP = 8"
definition CAP_LINUX_IMMUTABLE :: nat where "CAP_LINUX_IMMUTABLE = 9"
definition CAP_NET_ADMIN :: nat where "CAP_NET_ADMIN = 12"
definition CAP_NET_RAW :: nat where "CAP_NET_RAW = 13"
definition CAP_SYS_PTRACE :: nat where "CAP_SYS_PTRACE = 19"
definition CAP_SYS_NICE :: nat where "CAP_SYS_NICE = 23"
definition CAP_MKNOD :: nat where "CAP_MKNOD = 27"
definition CAP_MAC_OVERRIDE :: nat where "CAP_MAC_OVERRIDE = 32"
definition CAP_LAST_CAP :: nat where "CAP_LAST_CAP = 34"

definition cap_valid :: "nat \<Rightarrow> bool" where
  "cap_valid x = (x \<le> CAP_LAST_CAP)"

definition cap_empty_set :: kernel_cap where "cap_empty_set = (0, 0)"
definition CAP_FULL_SET :: kernel_cap where "CAP_FULL_SET = (NOT 0, NOT 0)"

definition CAP_FS_SET :: kernel_cap where
  "CAP_FS_SET =
     (CAP_TO_MASK CAP_CHOWN OR CAP_TO_MASK CAP_MKNOD OR CAP_TO_MASK CAP_DAC_OVERRIDE OR CAP_TO_MASK CAP_DAC_READ_SEARCH OR
      CAP_TO_MASK CAP_FOWNER OR CAP_TO_MASK CAP_FSETID OR CAP_TO_MASK CAP_LINUX_IMMUTABLE,
      CAP_TO_MASK CAP_MAC_OVERRIDE)"

definition cap_raised :: "kernel_cap \<Rightarrow> nat \<Rightarrow> bool" where
  "cap_raised c flag = (cap_word c (CAP_TO_INDEX flag) AND CAP_TO_MASK flag \<noteq> 0)"

definition cap_lower :: "kernel_cap \<Rightarrow> nat \<Rightarrow> kernel_cap" where
  "cap_lower c flag =
     (if CAP_TO_INDEX flag = 0 then (fst c AND NOT (CAP_TO_MASK flag), snd c)
      else (fst c, snd c AND NOT (CAP_TO_MASK flag)))"

definition cap_combine :: "kernel_cap \<Rightarrow> kernel_cap \<Rightarrow> kernel_cap" where
  "cap_combine a b = (fst a OR fst b, snd a OR snd b)"

definition cap_intersect :: "kernel_cap \<Rightarrow> kernel_cap \<Rightarrow> kernel_cap" where
  "cap_intersect a b = (fst a AND fst b, snd a AND snd b)"

definition cap_drop :: "kernel_cap \<Rightarrow> kernel_cap \<Rightarrow> kernel_cap" where
  "cap_drop a d = (fst a AND NOT (fst d), snd a AND NOT (snd d))"

definition cap_isclear :: "kernel_cap \<Rightarrow> bool" where
  "cap_isclear a = (fst a = 0 \<and> snd a = 0)"

definition cap_issubset :: "kernel_cap \<Rightarrow> kernel_cap \<Rightarrow> bool" where
  "cap_issubset a s = cap_isclear (cap_drop a s)"

definition cap_drop_fs_set :: "kernel_cap \<Rightarrow> kernel_cap" where
  "cap_drop_fs_set a = cap_drop a CAP_FS_SET"

definition cap_raise_fs_set :: "kernel_cap \<Rightarrow> kernel_cap \<Rightarrow> kernel_cap" where
  "cap_raise_fs_set a permitted = cap_combine a (cap_intersect permitted CAP_FS_SET)"

section \<open>Credentials\<close>

type_synonym uid = u32

record cred =
  cr_uid :: uid
  cr_gid :: gid
  cr_suid :: uid
  cr_sgid :: gid
  cr_euid :: uid
  cr_egid :: gid
  cr_fsuid :: uid
  cr_fsgid :: gid
  securebits :: u32
  cap_inheritable :: kernel_cap
  cap_permitted :: kernel_cap
  cap_effective :: kernel_cap
  cap_bset :: kernel_cap
  cr_user :: uid
  cr_groups :: group_info

definition issecure_mask :: "nat \<Rightarrow> u32" where "issecure_mask x = push_bit x 1"

definition SECURE_NOROOT :: nat where "SECURE_NOROOT = 0"
definition SECURE_NO_SETUID_FIXUP :: nat where "SECURE_NO_SETUID_FIXUP = 2"
definition SECURE_KEEP_CAPS :: nat where "SECURE_KEEP_CAPS = 4"
definition SECURE_KEEP_CAPS_LOCKED :: nat where "SECURE_KEEP_CAPS_LOCKED = 5"

definition SECURE_ALL_BITS :: u32 where
  "SECURE_ALL_BITS = issecure_mask SECURE_NOROOT OR issecure_mask SECURE_NO_SETUID_FIXUP OR issecure_mask SECURE_KEEP_CAPS"

definition SECURE_ALL_LOCKS :: u32 where "SECURE_ALL_LOCKS = push_bit 1 SECURE_ALL_BITS"

definition issecure :: "cred \<Rightarrow> nat \<Rightarrow> bool" where
  "issecure current x = (issecure_mask x AND securebits current \<noteq> 0)"

text \<open>Membership in a group for the file system and for the effective group.  The search does not fault
  on the group lists that credentials hold.\<close>

definition in_group_p :: "cred \<Rightarrow> gid \<Rightarrow> bool" where
  "in_group_p cred grp = (if grp \<noteq> cr_fsgid cred then groups_search (Some (cr_groups cred)) grp = Some True else True)"

definition in_egroup_p :: "cred \<Rightarrow> gid \<Rightarrow> bool" where
  "in_egroup_p cred grp = (if grp \<noteq> cr_egid cred then groups_search (Some (cr_groups cred)) grp = Some True else True)"

section \<open>The capability rules\<close>

definition AID_NET_RAW :: gid where "AID_NET_RAW = 3004"
definition AID_NET_ADMIN :: gid where "AID_NET_ADMIN = 3005"

text \<open>With the Android network restrictions, two groups stand for network capabilities.  The groups tested
  are those of the running task, whatever credentials are asked about.\<close>

definition cap_capable :: "cred \<Rightarrow> cred \<Rightarrow> nat \<Rightarrow> unit kres" where
  "cap_capable current cred cap =
     (if cap = CAP_NET_RAW \<and> in_egroup_p current AID_NET_RAW then Inr ()
      else if cap = CAP_NET_ADMIN \<and> in_egroup_p current AID_NET_ADMIN then Inr ()
      else if cap_raised (cap_effective cred) cap then Inr () else Inl EPERM)"

definition capable :: "cred \<Rightarrow> nat \<Rightarrow> bool" where
  "capable current cap = (cap_capable current current cap = Inr ())"

definition has_capability :: "cred \<Rightarrow> cred \<Rightarrow> nat \<Rightarrow> bool" where
  "has_capability current t cap = (cap_capable current t cap = Inr ())"

definition cap_ptrace_access_check :: "cred \<Rightarrow> cred \<Rightarrow> unit kres" where
  "cap_ptrace_access_check current child =
     (if \<not> cap_issubset (cap_permitted child) (cap_permitted current) \<and> \<not> capable current CAP_SYS_PTRACE
      then Inl EPERM else Inr ())"

definition cap_ptrace_traceme :: "cred \<Rightarrow> cred \<Rightarrow> unit kres" where
  "cap_ptrace_traceme current parent =
     (if \<not> cap_issubset (cap_permitted current) (cap_permitted parent) \<and> \<not> has_capability current parent CAP_SYS_PTRACE
      then Inl EPERM else Inr ())"

definition cap_inh_is_capped :: "cred \<Rightarrow> bool" where
  "cap_inh_is_capped current = (if cap_capable current current CAP_SETPCAP = Inr () then False else True)"

definition cap_capset :: "cred \<Rightarrow> cred \<Rightarrow> kernel_cap \<Rightarrow> kernel_cap \<Rightarrow> kernel_cap \<Rightarrow> cred kres" where
  "cap_capset new old effective inheritable permitted =
     (if cap_inh_is_capped old \<and> \<not> cap_issubset inheritable (cap_combine (cap_inheritable old) (cap_permitted old)) then Inl EPERM
      else if \<not> cap_issubset inheritable (cap_combine (cap_inheritable old) (cap_bset old)) then Inl EPERM
      else if \<not> cap_issubset permitted (cap_permitted old) then Inl EPERM
      else if \<not> cap_issubset effective permitted then Inl EPERM
      else Inr (new\<lparr>cap_effective := effective, cap_inheritable := inheritable, cap_permitted := permitted\<rparr>))"

text \<open>The capability sets follow a change of user.\<close>

definition cap_emulate_setxuid :: "cred \<Rightarrow> cred \<Rightarrow> cred" where
  "cap_emulate_setxuid new old =
     (let new = (if (cr_uid old = 0 \<or> cr_euid old = 0 \<or> cr_suid old = 0) \<and>
                    (cr_uid new \<noteq> 0 \<and> cr_euid new \<noteq> 0 \<and> cr_suid new \<noteq> 0) \<and> \<not> issecure old SECURE_KEEP_CAPS
                 then new\<lparr>cap_permitted := cap_empty_set, cap_effective := cap_empty_set\<rparr> else new);
          new = (if cr_euid old = 0 \<and> cr_euid new \<noteq> 0 then new\<lparr>cap_effective := cap_empty_set\<rparr> else new)
      in if cr_euid old \<noteq> 0 \<and> cr_euid new = 0 then new\<lparr>cap_effective := cap_permitted new\<rparr> else new)"

datatype setid_flag = LSM_SETID_ID | LSM_SETID_RE | LSM_SETID_RES | LSM_SETID_FS

definition cap_task_fix_setuid :: "cred \<Rightarrow> cred \<Rightarrow> setid_flag \<Rightarrow> cred kres" where
  "cap_task_fix_setuid new old flags = (case flags of
     LSM_SETID_FS \<Rightarrow>
       Inr (if \<not> issecure old SECURE_NO_SETUID_FIXUP then
              (let new = (if cr_fsuid old = 0 \<and> cr_fsuid new \<noteq> 0 then new\<lparr>cap_effective := cap_drop_fs_set (cap_effective new)\<rparr> else new)
               in if cr_fsuid old \<noteq> 0 \<and> cr_fsuid new = 0
                  then new\<lparr>cap_effective := cap_raise_fs_set (cap_effective new) (cap_permitted new)\<rparr> else new)
            else new)
   | _ \<Rightarrow> Inr (if \<not> issecure old SECURE_NO_SETUID_FIXUP then cap_emulate_setxuid new old else new))"

definition cap_safe_nice :: "cred \<Rightarrow> cred \<Rightarrow> unit kres" where
  "cap_safe_nice current p =
     (if \<not> cap_issubset (cap_permitted p) (cap_permitted current) \<and> \<not> capable current CAP_SYS_NICE then Inl EPERM else Inr ())"

section \<open>Tasks\<close>

text \<open>A task has its credentials, whether its memory may be dumped (none for a kernel thread) and its
  parent-death signal.  \<open>suid_dumpable\<close> is a system parameter.\<close>

record task =
  task_cred :: cred
  dumpable :: "nat option"
  pdeath_signal :: nat

definition commit_creds :: "nat \<Rightarrow> cred \<Rightarrow> task \<Rightarrow> task" where
  "commit_creds suid_dumpable new t =
     (let old = task_cred t;
          t = (if cr_euid old \<noteq> cr_euid new \<or> cr_egid old \<noteq> cr_egid new \<or> cr_fsuid old \<noteq> cr_fsuid new \<or> cr_fsgid old \<noteq> cr_fsgid new \<or>
                  \<not> cap_issubset (cap_permitted new) (cap_permitted old)
               then t\<lparr>dumpable := map_option (\<lambda>d. suid_dumpable) (dumpable t), pdeath_signal := 0\<rparr> else t)
      in t\<lparr>task_cred := new\<rparr>)"

text \<open>What the environment decides: whether memory can be had, the system parameter, and about the user
  a task wants to become, whether its structure can be had, its number of processes and whether
  it is the initial user; the limit on processes.\<close>

record cred_env =
  prepare_ok :: bool
  env_suid_dumpable :: nat
  user_ok :: bool
  user_processes :: u32
  user_is_init :: bool
  rlimit_nproc :: u32

section \<open>The system calls on capabilities\<close>

definition PR_GET_KEEPCAPS :: nat where "PR_GET_KEEPCAPS = 7"
definition PR_SET_KEEPCAPS :: nat where "PR_SET_KEEPCAPS = 8"
definition PR_CAPBSET_READ :: nat where "PR_CAPBSET_READ = 23"
definition PR_CAPBSET_DROP :: nat where "PR_CAPBSET_DROP = 24"
definition PR_GET_SECUREBITS :: nat where "PR_GET_SECUREBITS = 27"
definition PR_SET_SECUREBITS :: nat where "PR_SET_SECUREBITS = 28"

definition cap_prctl_drop :: "cred \<Rightarrow> cred \<Rightarrow> u32 \<Rightarrow> cred kres" where
  "cap_prctl_drop current new cap =
     (if \<not> capable current CAP_SETPCAP then Inl EPERM
      else if \<not> cap_valid (unat cap) then Inl EINVAL
      else Inr (new\<lparr>cap_bset := cap_lower (cap_bset new) (unat cap)\<rparr>))"

text \<open>The result is an error or a number, with the task as it is then.\<close>

definition cap_task_prctl :: "cred_env \<Rightarrow> nat \<Rightarrow> u32 \<Rightarrow> task \<Rightarrow> u32 kres \<times> task" where
  "cap_task_prctl env option arg2 t =
     (let current = task_cred t; new = current; changed = (\<lambda>new. (Inr 0, commit_creds (env_suid_dumpable env) new t)) in
      if \<not> prepare_ok env then (Inl ENOMEM, t)
      else if option = PR_CAPBSET_READ then
        (if \<not> cap_valid (unat arg2) then Inl EINVAL else Inr (if cap_raised (cap_bset new) (unat arg2) then 1 else 0), t)
      else if option = PR_CAPBSET_DROP then
        (case cap_prctl_drop current new arg2 of Inl e \<Rightarrow> (Inl e, t) | Inr new \<Rightarrow> changed new)
      else if option = PR_SET_SECUREBITS then
        (if drop_bit 1 (securebits new AND SECURE_ALL_LOCKS) AND (securebits new XOR arg2) \<noteq> 0 \<or>
            securebits new AND SECURE_ALL_LOCKS AND NOT arg2 \<noteq> 0 \<or>
            arg2 AND NOT (SECURE_ALL_LOCKS OR SECURE_ALL_BITS) \<noteq> 0 \<or>
            cap_capable current current CAP_SETPCAP \<noteq> Inr ()
         then (Inl EPERM, t) else changed (new\<lparr>securebits := arg2\<rparr>))
      else if option = PR_GET_SECUREBITS then (Inr (securebits new), t)
      else if option = PR_GET_KEEPCAPS then (Inr (if issecure current SECURE_KEEP_CAPS then 1 else 0), t)
      else if option = PR_SET_KEEPCAPS then
        (if arg2 > 1 then (Inl EINVAL, t)
         else if issecure current SECURE_KEEP_CAPS_LOCKED then (Inl EPERM, t)
         else if arg2 \<noteq> 0 then changed (new\<lparr>securebits := securebits new OR issecure_mask SECURE_KEEP_CAPS\<rparr>)
         else changed (new\<lparr>securebits := securebits new AND NOT (issecure_mask SECURE_KEEP_CAPS)\<rparr>))
      else (Inl ENOSYS, t))"

text \<open>The header and data of \<^verbatim>\<open>capset\<close> as the user passes them: version and process number, and triples of
  effective, permitted and inheritable words; \<open>None\<close> is unreadable memory, \<open>writable\<close> whether the
  version can be written back.\<close>

definition cap_validate_magic :: "u32 option \<Rightarrow> bool \<Rightarrow> nat kres" where
  "cap_validate_magic version writable = (case version of
     None \<Rightarrow> Inl EFAULT
   | Some v \<Rightarrow>
       if v = 0x19980330 then Inr 1
       else if v = 0x20071026 \<or> v = 0x20080522 then Inr 2
       else if \<not> writable then Inl EFAULT else Inl EINVAL)"

definition sys_capset :: "cred_env \<Rightarrow> u32 option \<Rightarrow> bool \<Rightarrow> u32 option \<Rightarrow> u32 \<Rightarrow> (u32 \<times> u32 \<times> u32) list \<Rightarrow> task \<Rightarrow> u32 kres \<times> task" where
  "sys_capset env version writable pid self data t = (case cap_validate_magic version writable of
     Inl e \<Rightarrow> (Inl e, t)
   | Inr tocopy \<Rightarrow>
      (case pid of
        None \<Rightarrow> (Inl EFAULT, t)
      | Some p \<Rightarrow>
         if p \<noteq> 0 \<and> p \<noteq> self then (Inl EPERM, t)
         else if length data < tocopy then (Inl EFAULT, t)
         else let kdata = take tocopy data @ replicate (2 - tocopy) (0, 0, 0);
                  effective = (fst (kdata ! 0), fst (kdata ! 1));
                  permitted = (fst (snd (kdata ! 0)), fst (snd (kdata ! 1)));
                  inheritable = (snd (snd (kdata ! 0)), snd (snd (kdata ! 1)))
              in if \<not> prepare_ok env then (Inl ENOMEM, t)
                 else case cap_capset (task_cred t) (task_cred t) effective inheritable permitted of
                   Inl e \<Rightarrow> (Inl e, t)
                 | Inr new \<Rightarrow> (Inr 0, commit_creds (env_suid_dumpable env) new t)))"

end
