(* ===== verification/Posix_Acl.thy ===== *)
theory Posix_Acl
  imports Capability
begin

text \<open>
  Access control lists: \<^verbatim>\<open>fs/posix_acl.c\<close> and \<^verbatim>\<open>include/linux/posix_acl.h\<close>, and their form in extended attributes,
  \<^verbatim>\<open>fs/xattr_acl.c\<close> and \<^verbatim>\<open>include/linux/posix_acl_xattr.h\<close>.  A list is its entries; the reference
  count is not modelled, and a list that is changed in place is a result of the function that
  changes it.
\<close>

section \<open>Lists\<close>

record posix_acl_entry =
  e_tag :: u16
  e_perm :: u16
  e_id :: u32

type_synonym posix_acl = "posix_acl_entry list"

definition ACL_UNDEFINED_ID :: u32 where "ACL_UNDEFINED_ID = -1"

definition ACL_USER_OBJ :: u16 where "ACL_USER_OBJ = 0x01"
definition ACL_USER :: u16 where "ACL_USER = 0x02"
definition ACL_GROUP_OBJ :: u16 where "ACL_GROUP_OBJ = 0x04"
definition ACL_GROUP :: u16 where "ACL_GROUP = 0x08"
definition ACL_MASK :: u16 where "ACL_MASK = 0x10"
definition ACL_OTHER :: u16 where "ACL_OTHER = 0x20"

definition ACL_READ :: u16 where "ACL_READ = 0x04"
definition ACL_WRITE :: u16 where "ACL_WRITE = 0x02"
definition ACL_EXECUTE :: u16 where "ACL_EXECUTE = 0x01"

definition S_IRWXU :: u16 where "S_IRWXU = 0x1C0"
definition S_IRWXG :: u16 where "S_IRWXG = 0x38"
definition S_IRWXO :: u16 where "S_IRWXO = 0x7"
definition S_IRWXUGO :: u16 where "S_IRWXUGO = S_IRWXU OR S_IRWXG OR S_IRWXO"

lemmas acl_tags = ACL_USER_OBJ_def ACL_USER_def ACL_GROUP_OBJ_def ACL_GROUP_def ACL_MASK_def ACL_OTHER_def

section \<open>Operations\<close>

text \<open>The loop of the check, with the kind of entry expected, the least identifier allowed, and whether a
  mask is needed.\<close>

fun valid_loop :: "posix_acl \<Rightarrow> u16 \<Rightarrow> u32 \<Rightarrow> bool \<Rightarrow> unit kres" where
  "valid_loop [] state least needs_mask = (if state = 0 then Inr () else Inl EINVAL)"
| "valid_loop (pa # pe) state least needs_mask =
     (if e_perm pa AND NOT (ACL_READ OR ACL_WRITE OR ACL_EXECUTE) \<noteq> 0 then Inl EINVAL
      else if e_tag pa = ACL_USER_OBJ then
        (if state = ACL_USER_OBJ then valid_loop pe ACL_USER 0 needs_mask else Inl EINVAL)
      else if e_tag pa = ACL_USER then
        (if state \<noteq> ACL_USER then Inl EINVAL
         else if e_id pa = ACL_UNDEFINED_ID \<or> e_id pa < least then Inl EINVAL
         else valid_loop pe state (e_id pa + 1) True)
      else if e_tag pa = ACL_GROUP_OBJ then
        (if state = ACL_USER then valid_loop pe ACL_GROUP 0 needs_mask else Inl EINVAL)
      else if e_tag pa = ACL_GROUP then
        (if state \<noteq> ACL_GROUP then Inl EINVAL
         else if e_id pa = ACL_UNDEFINED_ID \<or> e_id pa < least then Inl EINVAL
         else valid_loop pe state (e_id pa + 1) True)
      else if e_tag pa = ACL_MASK then
        (if state \<noteq> ACL_GROUP then Inl EINVAL else valid_loop pe ACL_OTHER least needs_mask)
      else if e_tag pa = ACL_OTHER then
        (if state = ACL_OTHER \<or> state = ACL_GROUP \<and> \<not> needs_mask then valid_loop pe 0 least needs_mask else Inl EINVAL)
      else Inl EINVAL)"

definition posix_acl_valid :: "posix_acl \<Rightarrow> unit kres" where
  "posix_acl_valid acl = valid_loop acl ACL_USER_OBJ 0 False"

text \<open>The mode the list stands for, and whether it says more than a mode can.\<close>

fun equiv_loop :: "posix_acl \<Rightarrow> u16 \<Rightarrow> bool \<Rightarrow> (bool \<times> u16) kres" where
  "equiv_loop [] mode not_equiv = Inr (not_equiv, mode)"
| "equiv_loop (pa # pe) mode not_equiv =
     (if e_tag pa = ACL_USER_OBJ then equiv_loop pe (mode OR push_bit 6 (e_perm pa AND S_IRWXO)) not_equiv
      else if e_tag pa = ACL_GROUP_OBJ then equiv_loop pe (mode OR push_bit 3 (e_perm pa AND S_IRWXO)) not_equiv
      else if e_tag pa = ACL_OTHER then equiv_loop pe (mode OR (e_perm pa AND S_IRWXO)) not_equiv
      else if e_tag pa = ACL_MASK then equiv_loop pe ((mode AND NOT S_IRWXG) OR push_bit 3 (e_perm pa AND S_IRWXO)) True
      else if e_tag pa = ACL_USER \<or> e_tag pa = ACL_GROUP then equiv_loop pe mode True
      else Inl EINVAL)"

definition posix_acl_equiv_mode :: "posix_acl \<Rightarrow> u16 \<Rightarrow> (bool \<times> u16) kres" where
  "posix_acl_equiv_mode acl mode_p = (case equiv_loop acl 0 False of
     Inl e \<Rightarrow> Inl e
   | Inr (not_equiv, mode) \<Rightarrow> Inr (not_equiv, (mode_p AND NOT S_IRWXUGO) OR mode))"

definition posix_acl_from_mode :: "bool \<Rightarrow> u16 \<Rightarrow> posix_acl kres" where
  "posix_acl_from_mode mem mode =
     (if \<not> mem then Inl ENOMEM
      else Inr [\<lparr>e_tag = ACL_USER_OBJ, e_perm = drop_bit 6 (mode AND S_IRWXU), e_id = ACL_UNDEFINED_ID\<rparr>,
                \<lparr>e_tag = ACL_GROUP_OBJ, e_perm = drop_bit 3 (mode AND S_IRWXG), e_id = ACL_UNDEFINED_ID\<rparr>,
                \<lparr>e_tag = ACL_OTHER, e_perm = mode AND S_IRWXO, e_id = ACL_UNDEFINED_ID\<rparr>])"

text \<open>The decision for the entry found: at the label \<open>check_perm\<close>, and at the label \<open>mask\<close> with the entries after
  it.\<close>

definition check_perm :: "u32 \<Rightarrow> u32 \<Rightarrow> unit kres" where
  "check_perm perm want = (if perm AND want = want then Inr () else Inl EACCES)"

fun check_mask :: "posix_acl_entry \<Rightarrow> posix_acl \<Rightarrow> u32 \<Rightarrow> unit kres" where
  "check_mask pa [] want = check_perm (ucast (e_perm pa)) want"
| "check_mask pa (mask_obj # pe) want =
     (if e_tag mask_obj = ACL_MASK then check_perm (ucast (e_perm pa) AND ucast (e_perm mask_obj)) want
      else check_mask pa pe want)"

fun permission_loop :: "uid \<Rightarrow> gid \<Rightarrow> cred \<Rightarrow> u32 \<Rightarrow> posix_acl \<Rightarrow> bool \<Rightarrow> unit kres" where
  "permission_loop iuid igid current want [] found = Inl EIO"
| "permission_loop iuid igid current want (pa # pe) found =
     (if e_tag pa = ACL_USER_OBJ then
        (if iuid = cr_fsuid current then check_perm (ucast (e_perm pa)) want else permission_loop iuid igid current want pe found)
      else if e_tag pa = ACL_USER then
        (if e_id pa = cr_fsuid current then check_mask pa pe want else permission_loop iuid igid current want pe found)
      else if e_tag pa = ACL_GROUP_OBJ then
        (if in_group_p current igid then
           (if ucast (e_perm pa) AND want = want then check_mask pa pe want else permission_loop iuid igid current want pe True)
         else permission_loop iuid igid current want pe found)
      else if e_tag pa = ACL_GROUP then
        (if in_group_p current (e_id pa) then
           (if ucast (e_perm pa) AND want = want then check_mask pa pe want else permission_loop iuid igid current want pe True)
         else permission_loop iuid igid current want pe found)
      else if e_tag pa = ACL_MASK then permission_loop iuid igid current want pe found
      else if e_tag pa = ACL_OTHER then
        (if found then Inl EACCES else check_perm (ucast (e_perm pa)) want)
      else Inl EIO)"

definition posix_acl_permission :: "uid \<Rightarrow> gid \<Rightarrow> cred \<Rightarrow> posix_acl \<Rightarrow> u32 \<Rightarrow> unit kres" where
  "posix_acl_permission iuid igid current acl want = permission_loop iuid igid current want acl False"

text \<open>The two functions that adapt a list to a mode go through it once, changing entries and remembering the
  positions of the group and of the mask entry; then they change one of these.  An error leaves the
  list as far as it was changed.\<close>

definition put_entry :: "posix_acl_entry \<Rightarrow> 'a \<times> posix_acl \<Rightarrow> 'a \<times> posix_acl" where
  "put_entry pa x = (fst x, pa # snd x)"

fun create_loop ::
  "nat \<Rightarrow> posix_acl \<Rightarrow> u16 \<Rightarrow> nat option \<Rightarrow> nat option \<Rightarrow> bool \<Rightarrow> (u16 \<times> nat option \<times> nat option \<times> bool) kres \<times> posix_acl" where
  "create_loop i [] mode group_obj mask_obj not_equiv = (Inr (mode, group_obj, mask_obj, not_equiv), [])"
| "create_loop i (pa # pe) mode group_obj mask_obj not_equiv =
     (if e_tag pa = ACL_USER_OBJ then
        (let perm = e_perm pa AND (drop_bit 6 mode OR NOT S_IRWXO); mode = mode AND (push_bit 6 perm OR NOT S_IRWXU)
         in put_entry (pa\<lparr>e_perm := perm\<rparr>) (create_loop (i + 1) pe mode group_obj mask_obj not_equiv))
      else if e_tag pa = ACL_USER \<or> e_tag pa = ACL_GROUP then put_entry pa (create_loop (i + 1) pe mode group_obj mask_obj True)
      else if e_tag pa = ACL_GROUP_OBJ then put_entry pa (create_loop (i + 1) pe mode (Some i) mask_obj not_equiv)
      else if e_tag pa = ACL_OTHER then
        (let perm = e_perm pa AND (mode OR NOT S_IRWXO); mode = mode AND (perm OR NOT S_IRWXO)
         in put_entry (pa\<lparr>e_perm := perm\<rparr>) (create_loop (i + 1) pe mode group_obj mask_obj not_equiv))
      else if e_tag pa = ACL_MASK then put_entry pa (create_loop (i + 1) pe mode group_obj (Some i) True)
      else (Inl EIO, pa # pe))"

definition create_group :: "nat \<Rightarrow> posix_acl \<Rightarrow> u16 \<Rightarrow> posix_acl \<times> u16" where
  "create_group k acl mode =
     (let perm = e_perm (acl ! k) AND (drop_bit 3 mode OR NOT S_IRWXO); mode = mode AND (push_bit 3 perm OR NOT S_IRWXG)
      in (acl[k := (acl ! k)\<lparr>e_perm := perm\<rparr>], mode))"

definition posix_acl_create_masq :: "posix_acl \<Rightarrow> u16 \<Rightarrow> bool kres \<times> posix_acl \<times> u16" where
  "posix_acl_create_masq acl mode_p = (case create_loop 0 acl mode_p None None False of
     (Inl e, acl) \<Rightarrow> (Inl e, acl, mode_p)
   | (Inr (mode, group_obj, mask_obj, not_equiv), acl) \<Rightarrow>
      (case (case mask_obj of Some k \<Rightarrow> Some k | None \<Rightarrow> group_obj) of
         None \<Rightarrow> (Inl EIO, acl, mode_p)
       | Some k \<Rightarrow>
          (case create_group k acl mode of (acl, mode) \<Rightarrow>
             (Inr not_equiv, acl, (mode_p AND NOT S_IRWXUGO) OR mode))))"

fun chmod_loop :: "nat \<Rightarrow> posix_acl \<Rightarrow> u16 \<Rightarrow> nat option \<Rightarrow> nat option \<Rightarrow> (nat option \<times> nat option) kres \<times> posix_acl" where
  "chmod_loop i [] mode group_obj mask_obj = (Inr (group_obj, mask_obj), [])"
| "chmod_loop i (pa # pe) mode group_obj mask_obj =
     (if e_tag pa = ACL_USER_OBJ then
        put_entry (pa\<lparr>e_perm := drop_bit 6 (mode AND S_IRWXU)\<rparr>) (chmod_loop (i + 1) pe mode group_obj mask_obj)
      else if e_tag pa = ACL_USER \<or> e_tag pa = ACL_GROUP then put_entry pa (chmod_loop (i + 1) pe mode group_obj mask_obj)
      else if e_tag pa = ACL_GROUP_OBJ then put_entry pa (chmod_loop (i + 1) pe mode (Some i) mask_obj)
      else if e_tag pa = ACL_MASK then put_entry pa (chmod_loop (i + 1) pe mode group_obj (Some i))
      else if e_tag pa = ACL_OTHER then
        put_entry (pa\<lparr>e_perm := mode AND S_IRWXO\<rparr>) (chmod_loop (i + 1) pe mode group_obj mask_obj)
      else (Inl EIO, pa # pe))"

definition posix_acl_chmod_masq :: "posix_acl \<Rightarrow> u16 \<Rightarrow> unit kres \<times> posix_acl" where
  "posix_acl_chmod_masq acl mode = (case chmod_loop 0 acl mode None None of
     (Inl e, acl) \<Rightarrow> (Inl e, acl)
   | (Inr (group_obj, mask_obj), acl) \<Rightarrow>
      (case (case mask_obj of Some k \<Rightarrow> Some k | None \<Rightarrow> group_obj) of
         None \<Rightarrow> (Inl EIO, acl)
       | Some k \<Rightarrow> (Inr (), acl[k := (acl ! k)\<lparr>e_perm := drop_bit 3 (mode AND S_IRWXG)\<rparr>])))"

section \<open>Extended attributes\<close>

definition POSIX_ACL_XATTR_VERSION :: u32 where "POSIX_ACL_XATTR_VERSION = 2"

definition load_le16 :: "u8 \<Rightarrow> u8 \<Rightarrow> u16" where
  "load_le16 b0 b1 = ucast b0 OR push_bit 8 (ucast b1)"

definition store_le16 :: "u16 \<Rightarrow> u8 list" where
  "store_le16 w = [ucast w, ucast (drop_bit 8 w)]"

definition posix_acl_xattr_size :: "nat \<Rightarrow> nat" where
  "posix_acl_xattr_size n = 4 + n * 8"

definition posix_acl_xattr_count :: "nat \<Rightarrow> nat option" where
  "posix_acl_xattr_count n = (if n < 4 then None else if (n - 4) mod 8 \<noteq> 0 then None else Some ((n - 4) div 8))"

text \<open>The loop over the entries of the attribute.\<close>

fun from_xattr_loop :: "nat \<Rightarrow> u8 list \<Rightarrow> posix_acl kres" where
  "from_xattr_loop 0 v = Inr []"
| "from_xattr_loop (Suc n) v =
     (let tag = load_le16 (v ! 0) (v ! 1); perm = load_le16 (v ! 2) (v ! 3);
          next_entries = (\<lambda>i. case from_xattr_loop n (drop 8 v) of
            Inl e \<Rightarrow> Inl e | Inr acl \<Rightarrow> Inr (\<lparr>e_tag = tag, e_perm = perm, e_id = i\<rparr> # acl))
      in if tag = ACL_USER_OBJ \<or> tag = ACL_GROUP_OBJ \<or> tag = ACL_MASK \<or> tag = ACL_OTHER then next_entries ACL_UNDEFINED_ID
         else if tag = ACL_USER \<or> tag = ACL_GROUP then next_entries (load_le32 (v ! 4) (v ! 5) (v ! 6) (v ! 7))
         else Inl EINVAL)"

text \<open>No value and an attribute without entries give no list.\<close>

definition posix_acl_from_xattr :: "bool \<Rightarrow> u8 list option \<Rightarrow> posix_acl option kres" where
  "posix_acl_from_xattr mem val = (case val of
     None \<Rightarrow> Inr None
   | Some v \<Rightarrow>
       if length v < 4 then Inl EINVAL
       else if le32_at v 0 \<noteq> POSIX_ACL_XATTR_VERSION then Inl EOPNOTSUPP
       else case posix_acl_xattr_count (length v) of
         None \<Rightarrow> Inl EINVAL
       | Some cnt \<Rightarrow>
           if cnt = 0 then Inr None
           else if \<not> mem then Inl ENOMEM
           else (case from_xattr_loop cnt (drop 4 v) of Inl e \<Rightarrow> Inl e | Inr acl \<Rightarrow> Inr (Some acl)))"

definition xattr_entry :: "posix_acl_entry \<Rightarrow> u8 list" where
  "xattr_entry e = store_le16 (e_tag e) @ store_le16 (e_perm e) @ store_le32 (e_id e)"

text \<open>The size and what is written: nothing when no buffer is given, only its size is asked for.\<close>

definition posix_acl_to_xattr :: "posix_acl \<Rightarrow> nat option \<Rightarrow> (nat \<times> u8 list) kres" where
  "posix_acl_to_xattr acl buffer =
     (let real_size = posix_acl_xattr_size (length acl) in
      case buffer of
        None \<Rightarrow> Inr (real_size, [])
      | Some n \<Rightarrow> if real_size > n then Inl ERANGE
          else Inr (real_size, store_le32 POSIX_ACL_XATTR_VERSION @ concat (map xattr_entry acl)))"

section \<open>The shape of valid lists\<close>

lemma perm_bits: "ACL_READ OR ACL_WRITE OR ACL_EXECUTE = S_IRWXO"
  by (simp add: ACL_READ_def ACL_WRITE_def ACL_EXECUTE_def S_IRWXO_def)

definition perm_ok :: "posix_acl_entry \<Rightarrow> bool" where
  "perm_ok e \<longleftrightarrow> e_perm e AND NOT S_IRWXO = 0"

text \<open>Owner, named users, group, named groups, a mask if there are named entries, others.\<close>

definition acl_shape :: "posix_acl \<Rightarrow> posix_acl_entry \<Rightarrow> posix_acl \<Rightarrow> posix_acl_entry \<Rightarrow> posix_acl \<Rightarrow> posix_acl \<Rightarrow> posix_acl_entry \<Rightarrow> bool" where
  "acl_shape acl u us g gs ms ot \<longleftrightarrow> acl = u # us @ g # gs @ ms @ [ot] \<and> e_tag u = ACL_USER_OBJ \<and> (\<forall>e \<in> set us. e_tag e = ACL_USER) \<and>
     e_tag g = ACL_GROUP_OBJ \<and> (\<forall>e \<in> set gs. e_tag e = ACL_GROUP) \<and> (us = [] \<and> gs = [] \<and> ms = [] \<or> (\<exists>m. ms = [m] \<and> e_tag m = ACL_MASK)) \<and>
     e_tag ot = ACL_OTHER \<and> sorted_wrt (<) (map e_id us) \<and> (\<forall>e \<in> set acl. perm_ok e)"

lemma valid_end: "valid_loop xs 0 i nm = Inr () \<Longrightarrow> xs = []"
  by (cases xs) (auto simp: acl_tags split: if_splits)

lemma valid_other:
  "valid_loop xs ACL_OTHER i nm = Inr () \<Longrightarrow> \<exists>ot. xs = [ot] \<and> e_tag ot = ACL_OTHER \<and> perm_ok ot"
  using valid_end by (cases xs) (auto simp: acl_tags perm_bits perm_ok_def split: if_splits)

lemma word_less_Suc: assumes "(x :: u32) \<noteq> -1" shows "x < x + 1"
proof -
  have "unat (- 1 :: u32) = 2 ^ 32 - 1" by (simp add: unsigned_minus_1_eq_mask mask_eq_exp_minus_1)
  then have "unat x \<noteq> 2 ^ 32 - 1" using assms by (metis word_unat_eq_iff)
  then have "unat x + unat (1 :: u32) < 2 ^ LENGTH(32)" using unsigned_less [of x, where 'a = nat] by simp
  then show ?thesis by (simp add: word_less_nat_alt unat_add_no_wrap)
qed

lemma valid_group:
  "valid_loop xs ACL_GROUP i nm = Inr () \<Longrightarrow> \<exists>gs ms ot. xs = gs @ ms @ [ot] \<and> (\<forall>e \<in> set gs. e_tag e = ACL_GROUP) \<and>
     (gs = [] \<and> \<not> nm \<and> ms = [] \<or> (\<exists>m. ms = [m] \<and> e_tag m = ACL_MASK)) \<and> e_tag ot = ACL_OTHER \<and> (\<forall>e \<in> set xs. perm_ok e)"
proof (induction xs arbitrary: i nm)
  case (Cons pa pe)
  have ok: "perm_ok pa" using Cons.prems by (auto simp: perm_bits perm_ok_def split: if_splits)
  consider "e_tag pa = ACL_GROUP" "valid_loop pe ACL_GROUP (e_id pa + 1) True = Inr ()"
    | "e_tag pa = ACL_MASK" "valid_loop pe ACL_OTHER i nm = Inr ()" | "e_tag pa = ACL_OTHER" "\<not> nm" "valid_loop pe 0 i nm = Inr ()"
    using Cons.prems by (auto simp: acl_tags split: if_splits)
  then show ?case
  proof cases
    case 1
    then obtain gs ms ot where "pe = gs @ ms @ [ot]" "\<forall>e \<in> set gs. e_tag e = ACL_GROUP" "\<exists>m. ms = [m] \<and> e_tag m = ACL_MASK"
      "e_tag ot = ACL_OTHER" "\<forall>e \<in> set pe. perm_ok e" using Cons.IH [OF 1(2)] by auto
    then show ?thesis using ok 1(1) by (intro exI [of _ "pa # gs"] exI [of _ ms] exI [of _ ot]) simp
  next
    case 2
    then show ?thesis using valid_other [OF 2(2)] ok by auto (intro exI [of _ "[]"] exI [of _ "[pa]"], auto)
  next
    case 3
    then show ?thesis using valid_end [OF 3(3)] ok by (intro exI [of _ "[]"]) simp
  qed
qed (simp add: acl_tags)

lemma valid_user:
  "valid_loop xs ACL_USER i nm = Inr () \<Longrightarrow> \<exists>us g gs ms ot. xs = us @ g # gs @ ms @ [ot] \<and> (\<forall>e \<in> set us. e_tag e = ACL_USER \<and> i \<le> e_id e) \<and>
     e_tag g = ACL_GROUP_OBJ \<and> (\<forall>e \<in> set gs. e_tag e = ACL_GROUP) \<and> (us = [] \<and> gs = [] \<and> \<not> nm \<and> ms = [] \<or> (\<exists>m. ms = [m] \<and> e_tag m = ACL_MASK)) \<and>
     e_tag ot = ACL_OTHER \<and> sorted_wrt (<) (map e_id us) \<and> (\<forall>e \<in> set xs. perm_ok e)"
proof (induction xs arbitrary: i nm)
  case (Cons pa pe)
  have ok: "perm_ok pa" using Cons.prems by (auto simp: perm_bits perm_ok_def split: if_splits)
  consider "e_tag pa = ACL_USER" "e_id pa \<noteq> ACL_UNDEFINED_ID" "i \<le> e_id pa" "valid_loop pe ACL_USER (e_id pa + 1) True = Inr ()"
    | "e_tag pa = ACL_GROUP_OBJ" "valid_loop pe ACL_GROUP 0 nm = Inr ()"
    using Cons.prems by (auto simp: acl_tags split: if_splits)
  then show ?case
  proof cases
    case 1
    then obtain us g gs ms ot where r: "pe = us @ g # gs @ ms @ [ot]" "\<forall>e \<in> set us. e_tag e = ACL_USER \<and> e_id pa + 1 \<le> e_id e" "e_tag g = ACL_GROUP_OBJ"
      "\<forall>e \<in> set gs. e_tag e = ACL_GROUP" "\<exists>m. ms = [m] \<and> e_tag m = ACL_MASK" "e_tag ot = ACL_OTHER" "sorted_wrt (<) (map e_id us)"
      "\<forall>e \<in> set pe. perm_ok e" using Cons.IH [OF 1(4)] by auto
    have above: "e_id pa < e_id e" if "e \<in> set us" for e
      using r(2) that word_less_Suc [of "e_id pa"] 1(2) by (force simp: ACL_UNDEFINED_ID_def)
    then have w: "sorted_wrt (<) (map e_id (pa # us))" using r(7) by simp
    have "i \<le> e_id e" if "e \<in> set us" for e
      using above [OF that] 1(3) by simp
    then have u: "\<forall>e \<in> set (pa # us). e_tag e = ACL_USER \<and> i \<le> e_id e" using r(2) 1(1,3) by simp
    show ?thesis
      by (rule exI [of _ "pa # us"], rule exI [of _ g], rule exI [of _ gs], rule exI [of _ ms], rule exI [of _ ot])
        (use r(1,3-6,8) ok u w in simp)
  next
    case 2
    obtain gs ms ot where r: "pe = gs @ ms @ [ot]" "\<forall>e \<in> set gs. e_tag e = ACL_GROUP"
      "gs = [] \<and> \<not> nm \<and> ms = [] \<or> (\<exists>m. ms = [m] \<and> e_tag m = ACL_MASK)" "e_tag ot = ACL_OTHER" "\<forall>e \<in> set pe. perm_ok e"
      using valid_group [OF 2(2)] by (elim exE conjE) (rule that)
    show ?thesis
      by (rule exI [of _ "[]"], rule exI [of _ pa], rule exI [of _ gs], rule exI [of _ ms], rule exI [of _ ot])
        (use r ok 2(1) in simp)
  qed
qed (simp add: acl_tags)

lemma valid_shape:
  assumes "posix_acl_valid acl = Inr ()"
  obtains u us g gs ms ot where "acl_shape acl u us g gs ms ot"
proof (cases acl)
  case (Cons u pe)
  have "perm_ok u" "e_tag u = ACL_USER_OBJ" "valid_loop pe ACL_USER 0 False = Inr ()"
    using assms Cons by (auto simp: posix_acl_valid_def acl_tags perm_bits perm_ok_def split: if_splits)
  moreover obtain us g gs ms ot where "pe = us @ g # gs @ ms @ [ot]" "\<forall>e \<in> set us. e_tag e = ACL_USER \<and> 0 \<le> e_id e"
     "e_tag g = ACL_GROUP_OBJ" "\<forall>e \<in> set gs. e_tag e = ACL_GROUP" "us = [] \<and> gs = [] \<and> \<not> False \<and> ms = [] \<or> (\<exists>m. ms = [m] \<and> e_tag m = ACL_MASK)"
     "e_tag ot = ACL_OTHER" "sorted_wrt (<) (map e_id us)" "\<forall>e \<in> set pe. perm_ok e"
    using valid_user [OF calculation(3)] by blast
  ultimately have "acl_shape acl u us g gs ms ot" using Cons unfolding acl_shape_def by simp
  then show thesis using that by blast
qed (use assms in \<open>simp add: posix_acl_valid_def acl_tags\<close>)

text \<open>Permissions may be changed within their three bits.\<close>

definition same_entry :: "posix_acl_entry \<Rightarrow> posix_acl_entry \<Rightarrow> bool" where
  "same_entry e e' \<longleftrightarrow> e_tag e' = e_tag e \<and> e_id e' = e_id e \<and> perm_ok e \<and> perm_ok e'"

lemma valid_cong: "list_all2 same_entry acl acl' \<Longrightarrow> valid_loop acl' st i nm = valid_loop acl st i nm"
proof (induction acl acl' arbitrary: st i nm rule: list_all2_induct)
  case (Cons e acl e' acl')
  have "e_tag e' = e_tag e" "e_id e' = e_id e" "e_perm e AND NOT S_IRWXO = 0" "e_perm e' AND NOT S_IRWXO = 0"
    using Cons.hyps by (simp_all add: same_entry_def perm_ok_def)
  then show ?case by (simp only: valid_loop.simps perm_bits Cons.IH)
qed simp

section \<open>Permission\<close>

text \<open>The access check algorithm of POSIX 1003.1e: the owner's entry; else the entry naming the user, masked; else the
  entries of the groups the task is in, masked, one of which must grant everything; else the entry for
  others.\<close>

definition grants :: "u32 \<Rightarrow> u32 \<Rightarrow> bool" where
  "grants perm want \<longleftrightarrow> perm AND want = want"

definition acl_mask :: "posix_acl \<Rightarrow> u32 \<Rightarrow> u32" where
  "acl_mask acl perm = (case find (\<lambda>e. e_tag e = ACL_MASK) acl of None \<Rightarrow> perm | Some m \<Rightarrow> perm AND ucast (e_perm m))"

definition names_user :: "cred \<Rightarrow> posix_acl_entry \<Rightarrow> bool" where
  "names_user current e \<longleftrightarrow> e_tag e = ACL_USER \<and> e_id e = cr_fsuid current"

definition names_group :: "gid \<Rightarrow> cred \<Rightarrow> posix_acl_entry \<Rightarrow> bool" where
  "names_group igid current e \<longleftrightarrow>
     e_tag e = ACL_GROUP_OBJ \<and> in_group_p current igid \<or> e_tag e = ACL_GROUP \<and> in_group_p current (e_id e)"

definition acl_grants :: "uid \<Rightarrow> gid \<Rightarrow> cred \<Rightarrow> posix_acl \<Rightarrow> u32 \<Rightarrow> bool" where
  "acl_grants iuid igid current acl want =
     (if iuid = cr_fsuid current then \<exists>e \<in> set acl. e_tag e = ACL_USER_OBJ \<and> grants (ucast (e_perm e)) want
      else if \<exists>e \<in> set acl. names_user current e then \<exists>e \<in> set acl. names_user current e \<and> grants (acl_mask acl (ucast (e_perm e))) want
      else if \<exists>e \<in> set acl. names_group igid current e
      then \<exists>e \<in> set acl. names_group igid current e \<and> grants (acl_mask acl (ucast (e_perm e))) want
      else \<exists>e \<in> set acl. e_tag e = ACL_OTHER \<and> grants (ucast (e_perm e)) want)"

lemma check_perm_grants: "check_perm perm want = (if grants perm want then Inr () else Inl EACCES)"
  by (simp add: check_perm_def grants_def)

lemma check_mask_eq: "check_mask pa pe want = check_perm (acl_mask pe (ucast (e_perm pa))) want"
  by (induction pe) (simp_all add: acl_mask_def)

lemma grants_and: "grants (p AND m) want \<longleftrightarrow> grants p want \<and> grants m want"
  by (auto simp: grants_def bit_eq_iff bit_simps)

lemma grants_mask: "grants (acl_mask acl p) want \<longleftrightarrow> grants p want \<and> grants (acl_mask acl (NOT 0)) want"
proof (cases "find (\<lambda>e. e_tag e = ACL_MASK) acl")
  case None
  then show ?thesis by (simp add: acl_mask_def) (simp add: grants_def)
next
  case (Some m)
  then show ?thesis by (simp add: acl_mask_def grants_and)
qed

lemma acl_mask_skip: "(\<And>e. e \<in> set xs \<Longrightarrow> e_tag e \<noteq> ACL_MASK) \<Longrightarrow> acl_mask (xs @ ys) p = acl_mask ys p"
  by (induction xs) (auto simp: acl_mask_def)

lemma permission_users:
  assumes "\<forall>e \<in> set us. e_tag e = ACL_USER"
  shows "permission_loop iuid igid current want (us @ xs) found = (case find (\<lambda>e. e_id e = cr_fsuid current) us of
     None \<Rightarrow> permission_loop iuid igid current want xs found
   | Some e \<Rightarrow> if grants (acl_mask xs (ucast (e_perm e))) want then Inr () else Inl EACCES)"
  using assms
proof (induction us)
  case (Cons e us)
  have "acl_mask (us @ xs) p = acl_mask xs p" for p using Cons.prems by (intro acl_mask_skip) (auto simp: acl_tags)
  then show ?case using Cons by (simp add: acl_tags check_mask_eq check_perm_grants)
qed simp

lemma permission_groups:
  assumes "\<forall>e \<in> set gs. e_tag e = ACL_GROUP"
  shows "permission_loop iuid igid current want (gs @ xs) found =
     (if \<exists>e \<in> set gs. in_group_p current (e_id e) \<and> grants (ucast (e_perm e)) want
      then if grants (acl_mask xs (NOT 0)) want then Inr () else Inl EACCES
      else permission_loop iuid igid current want xs (found \<or> (\<exists>e \<in> set gs. in_group_p current (e_id e))))"
  using assms
proof (induction gs arbitrary: found)
  case (Cons e gs)
  have skip: "acl_mask (gs @ xs) p = acl_mask xs p" for p using Cons.prems by (intro acl_mask_skip) (auto simp: acl_tags)
  have tag: "e_tag e = ACL_GROUP" using Cons.prems by simp
  show ?case
  proof (cases "in_group_p current (e_id e) \<and> grants (ucast (e_perm e)) want")
    case True
    then show ?thesis using tag by (simp add: acl_tags grants_def [symmetric] check_mask_eq check_perm_grants skip grants_mask [of xs "ucast (e_perm e)"])
  next
    case False
    then show ?thesis using tag Cons by (auto simp: acl_tags grants_def [symmetric])
  qed
qed simp

lemma shape_find_user:
  assumes "acl_shape acl u us g gs ms ot"
  shows "(\<exists>e \<in> set acl. names_user current e \<and> P e) \<longleftrightarrow> (case find (\<lambda>e. e_id e = cr_fsuid current) us of None \<Rightarrow> False | Some e \<Rightarrow> P e)"
proof -
  have "(\<exists>e \<in> set acl. names_user current e \<and> P e) \<longleftrightarrow> (\<exists>e \<in> set us. e_id e = cr_fsuid current \<and> P e)"
    using assms by (auto simp: acl_shape_def names_user_def acl_tags)
  also have "\<dots> \<longleftrightarrow> (case find (\<lambda>e. e_id e = cr_fsuid current) us of None \<Rightarrow> False | Some e \<Rightarrow> P e)"
  proof -
    have "sorted_wrt (<) (map e_id us)" using assms by (simp add: acl_shape_def)
    then show ?thesis by (induction us) auto
  qed
  finally show ?thesis .
qed

lemma shape_groups:
  assumes "acl_shape acl u us g gs ms ot"
  shows "(\<exists>e \<in> set acl. names_group igid current e \<and> P e) \<longleftrightarrow> in_group_p current igid \<and> P g \<or> (\<exists>e \<in> set gs. in_group_p current (e_id e) \<and> P e)"
  using assms by (auto simp: acl_shape_def names_group_def acl_tags)

lemma shape_owner_other:
  assumes "acl_shape acl u us g gs ms ot"
  shows "(\<exists>e \<in> set acl. e_tag e = ACL_USER_OBJ \<and> P e) \<longleftrightarrow> P u" and "(\<exists>e \<in> set acl. e_tag e = ACL_OTHER \<and> P e) \<longleftrightarrow> P ot"
  using assms by (auto simp: acl_shape_def acl_tags)

lemma shape_mask:
  assumes "acl_shape acl u us g gs ms ot"
  shows "acl_mask acl p = acl_mask ms p" and "acl_mask (g # gs @ ms @ [ot]) p = acl_mask ms p"
    and "acl_mask (gs @ ms @ [ot]) p = acl_mask ms p" and "acl_mask (ms @ [ot]) p = acl_mask ms p"
proof -
  have ot: "acl_mask (ms @ [ot]) p = acl_mask ms p"
    using assms by (auto simp: acl_shape_def acl_mask_def acl_tags)
  have gs: "acl_mask (gs @ ms @ [ot]) p = acl_mask (ms @ [ot]) p"
    using assms by (intro acl_mask_skip) (auto simp: acl_shape_def acl_tags)
  have g: "acl_mask (g # gs @ ms @ [ot]) p = acl_mask (gs @ ms @ [ot]) p"
    using acl_mask_skip [of "[g]"] assms by (simp add: acl_shape_def acl_tags)
  have "acl_mask ((u # us) @ g # gs @ ms @ [ot]) p = acl_mask (g # gs @ ms @ [ot]) p"
    using assms by (intro acl_mask_skip) (auto simp: acl_shape_def acl_tags)
  then show "acl_mask acl p = acl_mask ms p" using assms gs g ot by (simp add: acl_shape_def)
  show "acl_mask (g # gs @ ms @ [ot]) p = acl_mask ms p" "acl_mask (gs @ ms @ [ot]) p = acl_mask ms p" "acl_mask (ms @ [ot]) p = acl_mask ms p"
    using gs g ot by simp_all
qed

lemma permission_end:
  assumes "acl_shape acl u us g gs ms ot"
  shows "permission_loop iuid igid current want (ms @ [ot]) found = (if found then Inl EACCES else if grants (ucast (e_perm ot)) want then Inr () else Inl EACCES)"
  using assms by (auto simp: acl_shape_def acl_tags check_perm_grants)

text \<open>The decision from the group entry on, and from the first entry on.\<close>

abbreviation decide :: "bool \<Rightarrow> unit kres" where
  "decide b \<equiv> (if b then Inr () else Inl EACCES)"

lemma permission_from_group:
  assumes "acl_shape acl u us g gs ms ot"
  shows "permission_loop iuid igid current want (g # gs @ ms @ [ot]) False =
      (if in_group_p current igid \<or> (\<exists>e \<in> set gs. in_group_p current (e_id e))
       then decide (in_group_p current igid \<and> grants (acl_mask ms (ucast (e_perm g))) want \<or>
                    (\<exists>e \<in> set gs. in_group_p current (e_id e) \<and> grants (acl_mask ms (ucast (e_perm e))) want))
       else decide (grants (ucast (e_perm ot)) want))"
proof -
  have tags: "e_tag g = ACL_GROUP_OBJ" "\<forall>e \<in> set gs. e_tag e = ACL_GROUP" using assms by (simp_all add: acl_shape_def)
  have g: "permission_loop iuid igid current want (g # xs) False =
      (if in_group_p current igid \<and> grants (ucast (e_perm g)) want then decide (grants (acl_mask xs (ucast (e_perm g))) want)
       else permission_loop iuid igid current want xs (in_group_p current igid))" for xs
    using tags(1) by (simp add: acl_tags grants_def check_mask_eq check_perm_def)
  have m: "grants (acl_mask ms (ucast (e_perm e))) want \<longleftrightarrow> grants (ucast (e_perm e)) want \<and> grants (acl_mask ms (NOT 0)) want" for e
    by (rule grants_mask)
  show ?thesis
    unfolding g shape_mask [OF assms] permission_groups [OF tags(2)] permission_end [OF assms] m
    by (cases "in_group_p current igid"; cases "grants (acl_mask ms (NOT 0)) want"; cases "grants (ucast (e_perm g)) want") auto
qed

lemma permission_correct:
  assumes "posix_acl_valid acl = Inr ()"
  shows "posix_acl_permission iuid igid current acl want = decide (acl_grants iuid igid current acl want)"
proof (rule valid_shape [OF assms])
  fix u us g gs ms ot assume sh: "acl_shape acl u us g gs ms ot"
  have tags: "acl = u # us @ g # gs @ ms @ [ot]" "e_tag u = ACL_USER_OBJ" "\<forall>e \<in> set us. e_tag e = ACL_USER" using sh by (simp_all add: acl_shape_def)
  have u: "permission_loop iuid igid current want (u # xs) False =
      (if iuid = cr_fsuid current then decide (grants (ucast (e_perm u)) want) else permission_loop iuid igid current want xs False)" for xs
    using tags(2) by (simp add: acl_tags check_perm_grants)
  have loop: "posix_acl_permission iuid igid current acl want = (if iuid = cr_fsuid current then decide (grants (ucast (e_perm u)) want)
      else case find (\<lambda>e. e_id e = cr_fsuid current) us of
        None \<Rightarrow> permission_loop iuid igid current want (g # gs @ ms @ [ot]) False
      | Some e \<Rightarrow> decide (grants (acl_mask ms (ucast (e_perm e))) want))"
    unfolding posix_acl_permission_def tags(1) u permission_users [OF tags(3)] shape_mask [OF sh] ..
  have users: "(\<exists>e \<in> set acl. names_user current e) \<longleftrightarrow> find (\<lambda>e. e_id e = cr_fsuid current) us \<noteq> None"
    using shape_find_user [OF sh, of current "\<lambda>e. True"] by (simp split: option.splits)
  have groups: "(\<exists>e \<in> set acl. names_group igid current e) \<longleftrightarrow> in_group_p current igid \<or> (\<exists>e \<in> set gs. in_group_p current (e_id e))"
    using shape_groups [OF sh, of igid current "\<lambda>e. True"] by simp
  show ?thesis
    unfolding loop acl_grants_def users groups shape_owner_other [OF sh] shape_find_user [OF sh] shape_groups [OF sh] shape_mask(1) [OF sh]
      permission_from_group [OF sh]
    by (cases "find (\<lambda>e. e_id e = cr_fsuid current) us") auto
qed

section \<open>Modes\<close>

lemma mode_bits:
  "bit S_IRWXO n \<longleftrightarrow> n < 3" "bit S_IRWXG n \<longleftrightarrow> 3 \<le> n \<and> n < 6" "bit S_IRWXU n \<longleftrightarrow> 6 \<le> n \<and> n < 9" "bit S_IRWXUGO n \<longleftrightarrow> n < 9"
proof -
  have m: "S_IRWXO = mask 3" "S_IRWXG = push_bit 3 (mask 3)" "S_IRWXU = push_bit 6 (mask 3)"
    by (simp_all add: S_IRWXO_def S_IRWXG_def S_IRWXU_def mask_eq_exp_minus_1 push_bit_eq_mult)
  show a: "bit S_IRWXO n \<longleftrightarrow> n < 3" "bit S_IRWXG n \<longleftrightarrow> 3 \<le> n \<and> n < 6" "bit S_IRWXU n \<longleftrightarrow> 6 \<le> n \<and> n < 9"
    unfolding m by (auto simp: bit_mask_iff bit_push_bit_iff)
  show "bit S_IRWXUGO n \<longleftrightarrow> n < 9" unfolding S_IRWXUGO_def bit_or_iff a by auto
qed

lemma perm_ok_bit: "perm_ok e \<longleftrightarrow> (\<forall>n. bit (e_perm e) n \<longrightarrow> n < 3)"
  using bit_imp_le_length [of "e_perm e"] by (auto simp: perm_ok_def bit_eq_iff bit_simps mode_bits)

text \<open>The entry of the group class: the mask if there is one.\<close>

definition class_entry :: "posix_acl \<Rightarrow> posix_acl_entry \<Rightarrow> posix_acl_entry" where
  "class_entry ms g = (case ms of [] \<Rightarrow> g | m # _ \<Rightarrow> m)"

definition mode_of :: "u16 \<Rightarrow> u16 \<Rightarrow> u16 \<Rightarrow> u16" where
  "mode_of p c q = push_bit 6 p OR push_bit 3 c OR q"

lemma mode_of_bit:
  assumes "\<forall>n. bit p n \<or> bit c n \<or> bit q n \<longrightarrow> n < 3"
  shows "bit (mode_of p c q) n \<longleftrightarrow> (if n < 3 then bit q n else if n < 6 then bit c (n - 3) else n < 9 \<and> bit p (n - 6))"
proof -
  have a: "bit p n \<or> bit c n \<or> bit q n \<Longrightarrow> n < 3" for n using assms by blast
  show ?thesis
    using a [of n] a [of "n - 3"] a [of "n - 6"]
    by (cases "n < 16") (auto simp: mode_of_def bit_simps dest: bit_imp_le_length)
qed

lemma equiv_named:
  "\<forall>e \<in> set us. e_tag e = ACL_USER \<or> e_tag e = ACL_GROUP \<Longrightarrow> equiv_loop (us @ xs) mode ne = equiv_loop xs mode (ne \<or> us \<noteq> [])"
  by (induction us arbitrary: ne) (auto simp: acl_tags)

lemma equiv_shape:
  assumes "acl_shape acl u us g gs ms ot"
  shows "equiv_loop acl 0 False = Inr (ms \<noteq> [], mode_of (e_perm u) (e_perm (class_entry ms g)) (e_perm ot))"
proof -
  have t: "acl = u # us @ g # gs @ ms @ [ot]" "e_tag u = ACL_USER_OBJ" "\<forall>e \<in> set us. e_tag e = ACL_USER \<or> e_tag e = ACL_GROUP" "e_tag g = ACL_GROUP_OBJ"
    "\<forall>e \<in> set gs. e_tag e = ACL_USER \<or> e_tag e = ACL_GROUP" "us = [] \<and> gs = [] \<and> ms = [] \<or> (\<exists>m. ms = [m] \<and> e_tag m = ACL_MASK)" "e_tag ot = ACL_OTHER"
    and ok: "perm_ok u" "perm_ok g" "perm_ok ot" "\<forall>m \<in> set ms. perm_ok m"
    using assms by (auto simp: acl_shape_def)
  have and7: "e_perm e AND S_IRWXO = e_perm e" if "perm_ok e" for e using that by (auto simp: perm_ok_bit bit_eq_iff bit_simps mode_bits)
  have clear: "(push_bit 6 p OR push_bit 3 q) AND NOT S_IRWXG = push_bit 6 p" if "\<And>n. bit q n \<Longrightarrow> n < 3" for p q :: u16
    by (auto simp: bit_eq_iff bit_simps mode_bits dest: that)
  have bits: "bit (e_perm g) n \<Longrightarrow> n < 3" for n using ok(2) by (simp add: perm_ok_bit)
  show ?thesis
    using t(6)
  proof (elim disjE exE conjE)
    assume "us = []" "gs = []" "ms = []"
    then show ?thesis using t ok by (simp add: acl_tags class_entry_def mode_of_def and7 or.assoc)
  next
    fix m assume "ms = [m]" "e_tag m = ACL_MASK"
    then show ?thesis using t ok by (simp add: equiv_named acl_tags class_entry_def mode_of_def and7 clear [OF bits] or.assoc)
  qed
qed

lemma equiv_mode_shape:
  assumes "acl_shape acl u us g gs ms ot"
  shows "posix_acl_equiv_mode acl mode =
     Inr (ms \<noteq> [], (mode AND NOT S_IRWXUGO) OR mode_of (e_perm u) (e_perm (class_entry ms g)) (e_perm ot))"
  by (simp add: posix_acl_equiv_mode_def equiv_shape [OF assms])

text \<open>A list with new permissions for owner, group class and others.\<close>

definition with_perms :: "posix_acl_entry \<Rightarrow> posix_acl \<Rightarrow> posix_acl_entry \<Rightarrow> posix_acl \<Rightarrow> posix_acl \<Rightarrow> posix_acl_entry \<Rightarrow> u16 \<Rightarrow> u16 \<Rightarrow> u16 \<Rightarrow> posix_acl" where
  "with_perms u us g gs ms ot p c q =
     u\<lparr>e_perm := p\<rparr> # us @ (if ms = [] then g\<lparr>e_perm := c\<rparr> else g) # gs @ map (\<lambda>m. m\<lparr>e_perm := c\<rparr>) ms @ [ot\<lparr>e_perm := q\<rparr>]"

lemma with_perms_shape:
  assumes "acl_shape acl u us g gs ms ot" and "\<forall>n. bit p n \<or> bit c n \<or> bit q n \<longrightarrow> n < 3" and "acl' = with_perms u us g gs ms ot p c q"
  shows "posix_acl_valid acl = Inr () \<Longrightarrow> posix_acl_valid acl' = Inr ()"
    and "posix_acl_equiv_mode acl' mode = Inr (ms \<noteq> [], (mode AND NOT S_IRWXUGO) OR mode_of p c q)"
proof -
  let ?g = "if ms = [] then g\<lparr>e_perm := c\<rparr> else g" and ?ms = "map (\<lambda>m. m\<lparr>e_perm := c\<rparr>) ms"
  have ok: "perm_ok (e\<lparr>e_perm := p\<rparr>)" "perm_ok (e\<lparr>e_perm := c\<rparr>)" "perm_ok (e\<lparr>e_perm := q\<rparr>)" for e
    using assms(2) by (simp_all add: perm_ok_bit)
  have all_ok: "\<forall>e \<in> set us. perm_ok e" "\<forall>e \<in> set gs. perm_ok e" "perm_ok g" "perm_ok u" "perm_ok ot" "\<forall>e \<in> set ms. perm_ok e"
    and acl: "acl = u # us @ g # gs @ ms @ [ot]"
    using assms(1) by (simp_all add: acl_shape_def)
  have sh: "acl_shape acl' (u\<lparr>e_perm := p\<rparr>) us ?g gs ?ms (ot\<lparr>e_perm := q\<rparr>)"
    using assms(1,3) ok by (auto simp: acl_shape_def with_perms_def)
  show "posix_acl_equiv_mode acl' mode = Inr (ms \<noteq> [], (mode AND NOT S_IRWXUGO) OR mode_of p c q)"
    unfolding equiv_mode_shape [OF sh] by (cases ms) (simp_all add: class_entry_def)
  have same: "list_all2 same_entry xs xs" if "\<forall>e \<in> set xs. perm_ok e" for xs
    using that by (auto simp: list_all2_same same_entry_def)
  have "list_all2 same_entry ms ?ms" using all_ok(6) ok(2) by (auto simp: list_all2_map2 list_all2_same same_entry_def)
  then have "list_all2 same_entry acl acl'"
    unfolding acl assms(3) with_perms_def using all_ok ok same
    by (intro list_all2_appendI list.rel_intros) (auto simp: same_entry_def)
  then show "posix_acl_valid acl = Inr () \<Longrightarrow> posix_acl_valid acl' = Inr ()" by (simp add: posix_acl_valid_def valid_cong)
qed

lemma create_named:
  "\<forall>e \<in> set us. e_tag e = ACL_USER \<or> e_tag e = ACL_GROUP \<Longrightarrow> create_loop i (us @ xs) mode go mo ne =
     (fst (create_loop (i + length us) xs mode go mo (ne \<or> us \<noteq> [])), us @ snd (create_loop (i + length us) xs mode go mo (ne \<or> us \<noteq> [])))"
  by (induction us arbitrary: i ne) (auto simp: acl_tags put_entry_def)

lemma chmod_named:
  "\<forall>e \<in> set us. e_tag e = ACL_USER \<or> e_tag e = ACL_GROUP \<Longrightarrow> chmod_loop i (us @ xs) mode go mo =
     (fst (chmod_loop (i + length us) xs mode go mo), us @ snd (chmod_loop (i + length us) xs mode go mo))"
  by (induction us arbitrary: i) (auto simp: acl_tags put_entry_def)

lemma chmod_shape:
  assumes "acl_shape acl u us g gs ms ot"
  shows "posix_acl_chmod_masq acl mode =
     (Inr (), with_perms u us g gs ms ot (drop_bit 6 (mode AND S_IRWXU)) (drop_bit 3 (mode AND S_IRWXG)) (mode AND S_IRWXO))"
proof -
  have t: "acl = u # us @ g # gs @ ms @ [ot]" "e_tag u = ACL_USER_OBJ" "\<forall>e \<in> set us. e_tag e = ACL_USER \<or> e_tag e = ACL_GROUP" "e_tag g = ACL_GROUP_OBJ"
    "\<forall>e \<in> set gs. e_tag e = ACL_USER \<or> e_tag e = ACL_GROUP" "us = [] \<and> gs = [] \<and> ms = [] \<or> (\<exists>m. ms = [m] \<and> e_tag m = ACL_MASK)" "e_tag ot = ACL_OTHER"
    using assms by (auto simp: acl_shape_def)
  show ?thesis
    using t(6)
  proof (elim disjE exE conjE)
    assume "us = []" "gs = []" "ms = []"
    then show ?thesis using t by (simp add: posix_acl_chmod_masq_def put_entry_def acl_tags with_perms_def)
  next
    fix m assume "ms = [m]" "e_tag m = ACL_MASK"
    then show ?thesis using t
      by (simp add: posix_acl_chmod_masq_def put_entry_def acl_tags with_perms_def chmod_named nth_append list_update_append Suc_diff_le)
  qed
qed

lemma create_shape:
  fixes mode :: u16
  assumes "acl_shape acl u us g gs ms ot"
  defines "p \<equiv> e_perm u AND (drop_bit 6 mode OR NOT S_IRWXO)"
  defines "mode1 \<equiv> mode AND (push_bit 6 p OR NOT S_IRWXU)"
  defines "q \<equiv> e_perm ot AND (mode1 OR NOT S_IRWXO)"
  defines "mode2 \<equiv> mode1 AND (q OR NOT S_IRWXO)"
  defines "c \<equiv> e_perm (class_entry ms g) AND (drop_bit 3 mode2 OR NOT S_IRWXO)"
  shows "posix_acl_create_masq acl mode = (Inr (ms \<noteq> []), with_perms u us g gs ms ot p c q,
     (mode AND NOT S_IRWXUGO) OR (mode2 AND (push_bit 3 c OR NOT S_IRWXG)))"
proof -
  have t: "acl = u # us @ g # gs @ ms @ [ot]" "e_tag u = ACL_USER_OBJ" "\<forall>e \<in> set us. e_tag e = ACL_USER \<or> e_tag e = ACL_GROUP" "e_tag g = ACL_GROUP_OBJ"
    "\<forall>e \<in> set gs. e_tag e = ACL_USER \<or> e_tag e = ACL_GROUP" "us = [] \<and> gs = [] \<and> ms = [] \<or> (\<exists>m. ms = [m] \<and> e_tag m = ACL_MASK)" "e_tag ot = ACL_OTHER"
    using assms(1) by (auto simp: acl_shape_def)
  note vars = p_def mode1_def q_def mode2_def c_def
  show ?thesis
    using t(6)
  proof (elim disjE exE conjE)
    assume "us = []" "gs = []" "ms = []"
    then show ?thesis using t
      by (simp add: posix_acl_create_masq_def create_group_def put_entry_def acl_tags with_perms_def class_entry_def Let_def vars)
  next
    fix m assume "ms = [m]" "e_tag m = ACL_MASK"
    then show ?thesis using t
      by (simp add: posix_acl_create_masq_def create_group_def put_entry_def acl_tags with_perms_def class_entry_def Let_def vars
          create_named nth_append list_update_append Suc_diff_le)
  qed
qed

text \<open>After both functions the list and the mode say the same, and the list is still valid.\<close>

lemma chmod_masq_agrees:
  assumes "posix_acl_valid acl = Inr ()" and "posix_acl_equiv_mode acl mode0 = Inr (ne, mode1)"
  obtains acl' where "posix_acl_chmod_masq acl mode = (Inr (), acl')" and "posix_acl_valid acl' = Inr ()" and "posix_acl_equiv_mode acl' mode = Inr (ne, mode)"
proof (rule valid_shape [OF assms(1)])
  fix u us g gs ms ot assume sh: "acl_shape acl u us g gs ms ot"
  let ?p = "drop_bit 6 (mode AND S_IRWXU)" and ?c = "drop_bit 3 (mode AND S_IRWXG)" and ?q = "mode AND S_IRWXO"
  have b: "\<forall>n. bit ?p n \<or> bit ?c n \<or> bit ?q n \<longrightarrow> n < 3" by (auto simp: bit_simps mode_bits)
  have "(mode AND NOT S_IRWXUGO) OR mode_of ?p ?c ?q = mode"
    by (auto simp: bit_eq_iff bit_and_iff bit_or_iff bit_not_iff mode_of_bit [OF b] bit_drop_bit_eq mode_bits not_less simp del: drop_bit_and)
  moreover have "ne = (ms \<noteq> [])" using assms(2) equiv_mode_shape [OF sh] by simp
  ultimately show thesis
    using that [OF chmod_shape [OF sh]] with_perms_shape [OF sh b refl] assms(1) by simp
qed

lemma create_masq_agrees:
  assumes "posix_acl_valid acl = Inr ()"
  obtains ne acl' mode' where "posix_acl_create_masq acl mode = (Inr ne, acl', mode')" and "posix_acl_valid acl' = Inr ()"
    and "posix_acl_equiv_mode acl' mode' = Inr (ne, mode')" and "mode' AND NOT mode = 0" and "mode' AND NOT S_IRWXUGO = mode AND NOT S_IRWXUGO"
proof (rule valid_shape [OF assms])
  fix u us g gs ms ot assume sh: "acl_shape acl u us g gs ms ot"
  define p where "p = e_perm u AND (drop_bit 6 mode OR NOT S_IRWXO)"
  define mode1 where "mode1 = mode AND (push_bit 6 p OR NOT S_IRWXU)"
  define q where "q = e_perm ot AND (mode1 OR NOT S_IRWXO)"
  define mode2 where "mode2 = mode1 AND (q OR NOT S_IRWXO)"
  define c where "c = e_perm (class_entry ms g) AND (drop_bit 3 mode2 OR NOT S_IRWXO)"
  define mode' where "mode' = (mode AND NOT S_IRWXUGO) OR (mode2 AND (push_bit 3 c OR NOT S_IRWXG))"
  have ok: "perm_ok u" "perm_ok (class_entry ms g)" "perm_ok ot"
    using sh by (auto simp: acl_shape_def class_entry_def)
  then have pb: "bit p n \<longleftrightarrow> bit (e_perm u) n \<and> bit mode (6 + n)" for n
    unfolding p_def using bit_imp_le_length [of mode "6 + n"] by (auto simp: perm_ok_bit bit_simps mode_bits)
  have m1: "bit mode1 n \<longleftrightarrow> bit mode n \<and> (6 \<le> n \<and> n < 9 \<longrightarrow> bit p (n - 6))" for n
    unfolding mode1_def using bit_imp_le_length [of mode n] by (auto simp: bit_simps mode_bits)
  have qb: "bit q n \<longleftrightarrow> bit (e_perm ot) n \<and> bit mode n" for n
    unfolding q_def using ok(3) by (auto simp: perm_ok_bit bit_simps mode_bits m1)
  have m2: "bit mode2 n \<longleftrightarrow> bit mode1 n \<and> (n < 3 \<longrightarrow> bit q n)" for n
    unfolding mode2_def using bit_imp_le_length [of mode1 n] by (auto simp: bit_simps mode_bits)
  have cb: "bit c n \<longleftrightarrow> bit (e_perm (class_entry ms g)) n \<and> bit mode (3 + n)" for n
    unfolding c_def using ok(2) bit_imp_le_length [of mode "3 + n"] by (auto simp: perm_ok_bit bit_simps mode_bits m1 m2)
  have mb: "bit mode' n \<longleftrightarrow> bit mode n \<and> (n < 3 \<longrightarrow> bit q n) \<and> (3 \<le> n \<and> n < 6 \<longrightarrow> bit c (n - 3)) \<and> (6 \<le> n \<and> n < 9 \<longrightarrow> bit p (n - 6))" for n
    unfolding mode'_def using bit_imp_le_length [of mode n] by (auto simp: bit_simps mode_bits m1 m2)
  have b: "\<forall>n. bit p n \<or> bit c n \<or> bit q n \<longrightarrow> n < 3" using ok by (auto simp: pb cb qb perm_ok_bit)
  have "(mode' AND NOT S_IRWXUGO) OR mode_of p c q = mode'"
    by (auto simp: bit_eq_iff bit_and_iff bit_or_iff bit_not_iff mode_of_bit [OF b] mode_bits mb pb cb qb not_less)
  moreover have "mode' AND NOT mode = 0" "mode' AND NOT S_IRWXUGO = mode AND NOT S_IRWXUGO"
    by (auto simp: bit_eq_iff bit_simps mode_bits mb)
  moreover have "posix_acl_create_masq acl mode = (Inr (ms \<noteq> []), with_perms u us g gs ms ot p c q, mode')"
    using create_shape [OF sh, of mode] by (simp only: p_def mode1_def q_def mode2_def c_def mode'_def)
  ultimately show thesis
    using that [of "ms \<noteq> []" "with_perms u us g gs ms ot p c q" mode'] with_perms_shape [OF sh b refl] assms by simp
qed

end
