(* ===== verification/Credentials.thy ===== *)
theory Credentials
  imports Capability
begin

text \<open>
  Changing credentials: the system calls of \<^verbatim>\<open>kernel/sys.c\<close> and \<^verbatim>\<open>kernel/groups.c\<close> that set users and
  groups, and the credentials of a new program (\<^verbatim>\<open>fs/exec.c\<close>, \<^verbatim>\<open>security/commoncap.c\<close>).  A system
  call maps the task to its result and the task afterwards.
\<close>

section \<open>Setting groups\<close>

text \<open>An identifier of \<open>-1\<close> leaves the field as it is.\<close>

abbreviation keep :: u32 where "keep \<equiv> -1"

definition sys_setregid :: "cred_env \<Rightarrow> gid \<Rightarrow> gid \<Rightarrow> task \<Rightarrow> u32 kres \<times> task" where
  "sys_setregid env rgid egid t =
     (let old = task_cred t; new = old; priv = capable old CAP_SETGID in
      if \<not> prepare_ok env then (Inl ENOMEM, t)
      else if rgid \<noteq> keep \<and> \<not> (cr_gid old = rgid \<or> cr_egid old = rgid \<or> priv) then (Inl EPERM, t)
      else let new = (if rgid \<noteq> keep then new\<lparr>cr_gid := rgid\<rparr> else new) in
        if egid \<noteq> keep \<and> \<not> (cr_gid old = egid \<or> cr_egid old = egid \<or> cr_sgid old = egid \<or> priv) then (Inl EPERM, t)
        else let new = (if egid \<noteq> keep then new\<lparr>cr_egid := egid\<rparr> else new);
                 new = (if rgid \<noteq> keep \<or> egid \<noteq> keep \<and> egid \<noteq> cr_gid old then new\<lparr>cr_sgid := cr_egid new\<rparr> else new);
                 new = new\<lparr>cr_fsgid := cr_egid new\<rparr>
             in (Inr 0, commit_creds (env_suid_dumpable env) new t))"

definition sys_setgid :: "cred_env \<Rightarrow> gid \<Rightarrow> task \<Rightarrow> u32 kres \<times> task" where
  "sys_setgid env gid t =
     (let old = task_cred t; new = old in
      if \<not> prepare_ok env then (Inl ENOMEM, t)
      else if capable old CAP_SETGID
      then (Inr 0, commit_creds (env_suid_dumpable env) (new\<lparr>cr_gid := gid, cr_egid := gid, cr_sgid := gid, cr_fsgid := gid\<rparr>) t)
      else if gid = cr_gid old \<or> gid = cr_sgid old
      then (Inr 0, commit_creds (env_suid_dumpable env) (new\<lparr>cr_egid := gid, cr_fsgid := gid\<rparr>) t)
      else (Inl EPERM, t))"

definition sys_setresgid :: "cred_env \<Rightarrow> gid \<Rightarrow> gid \<Rightarrow> gid \<Rightarrow> task \<Rightarrow> u32 kres \<times> task" where
  "sys_setresgid env rgid egid sgid t =
     (let old = task_cred t; new = old;
          foreign = (\<lambda>g. g \<noteq> keep \<and> g \<noteq> cr_gid old \<and> g \<noteq> cr_egid old \<and> g \<noteq> cr_sgid old) in
      if \<not> prepare_ok env then (Inl ENOMEM, t)
      else if \<not> capable old CAP_SETGID \<and> (foreign rgid \<or> foreign egid \<or> foreign sgid) then (Inl EPERM, t)
      else let new = (if rgid \<noteq> keep then new\<lparr>cr_gid := rgid\<rparr> else new);
               new = (if egid \<noteq> keep then new\<lparr>cr_egid := egid\<rparr> else new);
               new = (if sgid \<noteq> keep then new\<lparr>cr_sgid := sgid\<rparr> else new);
               new = new\<lparr>cr_fsgid := cr_egid new\<rparr>
           in (Inr 0, commit_creds (env_suid_dumpable env) new t))"

definition sys_setfsgid :: "cred_env \<Rightarrow> gid \<Rightarrow> task \<Rightarrow> u32 kres \<times> task" where
  "sys_setfsgid env gid t =
     (let old = task_cred t; new = old in
      if \<not> prepare_ok env then (Inr (cr_fsgid old), t)
      else if (gid = cr_gid old \<or> gid = cr_egid old \<or> gid = cr_sgid old \<or> gid = cr_fsgid old \<or> capable old CAP_SETGID) \<and> gid \<noteq> cr_fsgid old
      then (Inr (cr_fsgid old), commit_creds (env_suid_dumpable env) (new\<lparr>cr_fsgid := gid\<rparr>) t)
      else (Inr (cr_fsgid old), t))"

text \<open>Sorting does not fault on well-formed lists; \<^verbatim>\<open>set_groups\<close> would have no result otherwise.\<close>

definition set_groups :: "cred \<Rightarrow> group_info \<Rightarrow> cred option" where
  "set_groups new gi = map_option (\<lambda>gi. new\<lparr>cr_groups := gi\<rparr>) (groups_sort gi)"

definition set_current_groups :: "cred_env \<Rightarrow> group_info \<Rightarrow> task \<Rightarrow> (u32 kres \<times> task) option" where
  "set_current_groups env gi t =
     (if \<not> prepare_ok env then Some (Inl ENOMEM, t)
      else map_option (\<lambda>new. (Inr 0, commit_creds (env_suid_dumpable env) new t)) (set_groups (task_cred t) gi))"

text \<open>\<open>info_ok\<close>, \<open>mem\<close> and \<open>junk\<close> describe the allocation, \<open>ulist\<close> what can be read at the user's address; the
  size is a signed number compared as an unsigned one.\<close>

definition sys_setgroups ::
  "cred_env \<Rightarrow> bool \<Rightarrow> (nat \<Rightarrow> bool) \<Rightarrow> (nat \<Rightarrow> nat \<Rightarrow> gid) \<Rightarrow> u32 \<Rightarrow> gid list \<Rightarrow> task \<Rightarrow> (u32 kres \<times> task) option" where
  "sys_setgroups env info_ok mem junk gidsetsize ulist t =
     (if \<not> capable (task_cred t) CAP_SETGID then Some (Inl EPERM, t)
      else if unat gidsetsize > NGROUPS_MAX then Some (Inl EINVAL, t)
      else case groups_alloc (unat gidsetsize) info_ok mem junk of
        None \<Rightarrow> Some (Inl ENOMEM, t)
      | Some gi \<Rightarrow>
          (case groups_from_user gi ulist of
             Inl e \<Rightarrow> Some (Inl e, t)
           | Inr gi \<Rightarrow> set_current_groups env gi t))"

text \<open>The result is the number of groups and what is written to the user's array of \<open>space\<close> elements.\<close>

definition sys_getgroups :: "u32 \<Rightarrow> nat \<Rightarrow> cred \<Rightarrow> (nat \<times> gid list) kres" where
  "sys_getgroups gidsetsize space cred =
     (if sint gidsetsize < 0 then Inl EINVAL
      else let i = ngroups (cr_groups cred) in
        if gidsetsize \<noteq> 0 then
          (if int i > sint gidsetsize then Inl EINVAL
           else case groups_to_user (cr_groups cred) space of Inl e \<Rightarrow> Inl EFAULT | Inr out \<Rightarrow> Inr (i, out))
        else Inr (i, []))"

section \<open>Setting users\<close>

definition set_user :: "cred_env \<Rightarrow> cred \<Rightarrow> cred kres" where
  "set_user env new =
     (if \<not> user_ok env then Inl EAGAIN
      else if user_processes env \<ge> rlimit_nproc env \<and> \<not> user_is_init env then Inl EAGAIN
      else Inr (new\<lparr>cr_user := cr_uid new\<rparr>))"

text \<open>The end the calls share: let the capabilities follow the change, and install the credentials.\<close>

definition finish_setuid :: "cred_env \<Rightarrow> setid_flag \<Rightarrow> cred \<Rightarrow> task \<Rightarrow> u32 kres \<times> task" where
  "finish_setuid env flag new t = (case cap_task_fix_setuid new (task_cred t) flag of
     Inl e \<Rightarrow> (Inl e, t)
   | Inr new \<Rightarrow> (Inr 0, commit_creds (env_suid_dumpable env) new t))"

definition sys_setreuid :: "cred_env \<Rightarrow> uid \<Rightarrow> uid \<Rightarrow> task \<Rightarrow> u32 kres \<times> task" where
  "sys_setreuid env ruid euid t =
     (let old = task_cred t; new = old; priv = capable old CAP_SETUID in
      if \<not> prepare_ok env then (Inl ENOMEM, t)
      else let new = (if ruid \<noteq> keep then new\<lparr>cr_uid := ruid\<rparr> else new) in
        if ruid \<noteq> keep \<and> cr_uid old \<noteq> ruid \<and> cr_euid old \<noteq> ruid \<and> \<not> priv then (Inl EPERM, t)
        else let new = (if euid \<noteq> keep then new\<lparr>cr_euid := euid\<rparr> else new) in
          if euid \<noteq> keep \<and> cr_uid old \<noteq> euid \<and> cr_euid old \<noteq> euid \<and> cr_suid old \<noteq> euid \<and> \<not> priv then (Inl EPERM, t)
          else case (if cr_uid new \<noteq> cr_uid old then set_user env new else Inr new) of
            Inl e \<Rightarrow> (Inl e, t)
          | Inr new \<Rightarrow>
             (let new = (if ruid \<noteq> keep \<or> euid \<noteq> keep \<and> euid \<noteq> cr_uid old then new\<lparr>cr_suid := cr_euid new\<rparr> else new);
                  new = new\<lparr>cr_fsuid := cr_euid new\<rparr>
              in finish_setuid env LSM_SETID_RE new t))"

definition sys_setuid :: "cred_env \<Rightarrow> uid \<Rightarrow> task \<Rightarrow> u32 kres \<times> task" where
  "sys_setuid env uid t =
     (let old = task_cred t; new = old in
      if \<not> prepare_ok env then (Inl ENOMEM, t)
      else case (if capable old CAP_SETUID then
                   (let new = new\<lparr>cr_suid := uid, cr_uid := uid\<rparr> in
                    if uid \<noteq> cr_uid old then set_user env new else Inr new)
                 else if uid \<noteq> cr_uid old \<and> uid \<noteq> cr_suid new then Inl EPERM else Inr new) of
        Inl e \<Rightarrow> (Inl e, t)
      | Inr new \<Rightarrow> finish_setuid env LSM_SETID_ID (new\<lparr>cr_fsuid := uid, cr_euid := uid\<rparr>) t)"

definition sys_setresuid :: "cred_env \<Rightarrow> uid \<Rightarrow> uid \<Rightarrow> uid \<Rightarrow> task \<Rightarrow> u32 kres \<times> task" where
  "sys_setresuid env ruid euid suid t =
     (let old = task_cred t; new = old;
          foreign = (\<lambda>u. u \<noteq> keep \<and> u \<noteq> cr_uid old \<and> u \<noteq> cr_euid old \<and> u \<noteq> cr_suid old) in
      if \<not> prepare_ok env then (Inl ENOMEM, t)
      else if \<not> capable old CAP_SETUID \<and> (foreign ruid \<or> foreign euid \<or> foreign suid) then (Inl EPERM, t)
      else case (if ruid \<noteq> keep then
                   (let new = new\<lparr>cr_uid := ruid\<rparr> in if ruid \<noteq> cr_uid old then set_user env new else Inr new)
                 else Inr new) of
        Inl e \<Rightarrow> (Inl e, t)
      | Inr new \<Rightarrow>
          (let new = (if euid \<noteq> keep then new\<lparr>cr_euid := euid\<rparr> else new);
               new = (if suid \<noteq> keep then new\<lparr>cr_suid := suid\<rparr> else new);
               new = new\<lparr>cr_fsuid := cr_euid new\<rparr>
           in finish_setuid env LSM_SETID_RES new t))"

definition sys_setfsuid :: "cred_env \<Rightarrow> uid \<Rightarrow> task \<Rightarrow> u32 kres \<times> task" where
  "sys_setfsuid env uid t =
     (let old = task_cred t; new = old in
      if \<not> prepare_ok env then (Inr (cr_fsuid old), t)
      else if (uid = cr_uid old \<or> uid = cr_euid old \<or> uid = cr_suid old \<or> uid = cr_fsuid old \<or> capable old CAP_SETUID) \<and> uid \<noteq> cr_fsuid old
      then (case cap_task_fix_setuid (new\<lparr>cr_fsuid := uid\<rparr>) old LSM_SETID_FS of
              Inr new \<Rightarrow> (Inr (cr_fsuid old), commit_creds (env_suid_dumpable env) new t)
            | Inl e \<Rightarrow> (Inr (cr_fsuid old), t))
      else (Inr (cr_fsuid old), t))"

section \<open>New programs\<close>

text \<open>The capabilities of a file as they are stored with it: absent, an error, or bytes.\<close>

record vfs_caps =
  magic_etc :: u32
  file_permitted :: kernel_cap
  file_inheritable :: kernel_cap

definition get_vfs_caps_from_disk :: "(errno + u8 list) option \<Rightarrow> vfs_caps kres" where
  "get_vfs_caps_from_disk xattr = (case xattr of
     None \<Rightarrow> Inl ENODATA
   | Some (Inl e) \<Rightarrow> Inl (if e = ENODATA \<or> e = EOPNOTSUPP then ENODATA else e)
   | Some (Inr d) \<Rightarrow>
       if length d < 4 then Inl EINVAL
       else let m = le32_at d 0; rev = m AND 0xFF000000 in
         if rev = 0x01000000 then
           (if length d \<noteq> 12 then Inl EINVAL
            else Inr \<lparr>magic_etc = m, file_permitted = (le32_at d 1, 0), file_inheritable = (le32_at d 2, 0)\<rparr>)
         else if rev = 0x02000000 then
           (if length d \<noteq> 20 then Inl EINVAL
            else Inr \<lparr>magic_etc = m, file_permitted = (le32_at d 1, le32_at d 3), file_inheritable = (le32_at d 2, le32_at d 4)\<rparr>)
         else Inl EINVAL)"

text \<open>The program to run: its mode and owners, its mount, its stored capabilities; and how the task runs
  it: whether it is traced or shares its file system information, whether it is the first
  process, and whether the audit log accepts the record.\<close>

record program =
  i_mode :: u16
  i_uid :: uid
  i_gid :: gid
  mnt_nosuid :: bool
  xattr_caps :: "(errno + u8 list) option"
  exec_unsafe :: u32
  file_caps_enabled :: bool
  global_init :: bool
  audit_ok :: bool

text \<open>The words of the set are computed one by one; an error is reported if a forced capability is missing
  and the effective flag set.\<close>

definition bprm_caps_from_vfs_caps :: "vfs_caps \<Rightarrow> cred \<Rightarrow> (bool \<times> cred) kres" where
  "bprm_caps_from_vfs_caps caps new =
     (let effective = (magic_etc caps AND 0x000001 \<noteq> 0);
          word = (\<lambda>i. (cap_word (cap_bset new) i AND cap_word (file_permitted caps) i) OR
                      (cap_word (cap_inheritable new) i AND cap_word (file_inheritable caps) i));
          missing = (\<lambda>i. cap_word (file_permitted caps) i AND NOT (word i) \<noteq> 0)
      in if effective \<and> (missing 0 \<or> missing 1) then Inl EPERM
         else Inr (effective, new\<lparr>cap_permitted := (word 0, word 1)\<rparr>))"

definition get_file_caps :: "program \<Rightarrow> cred \<Rightarrow> (bool \<times> cred) kres" where
  "get_file_caps p new =
     (let new = new\<lparr>cap_permitted := cap_empty_set\<rparr> in
      if \<not> file_caps_enabled p then Inr (False, new)
      else if mnt_nosuid p then Inr (False, new)
      else case get_vfs_caps_from_disk (xattr_caps p) of
        Inl e \<Rightarrow> if e = ENODATA then Inr (False, new) else Inl e
      | Inr caps \<Rightarrow> bprm_caps_from_vfs_caps caps new)"

text \<open>Root's programs get everything the bounding set allows, unless the file has capabilities of its own
  or the task has given up that rule.\<close>

definition bprm_root_caps :: "cred \<Rightarrow> bool \<Rightarrow> cred \<Rightarrow> bool \<times> cred" where
  "bprm_root_caps old effective new =
     (if issecure old SECURE_NOROOT then (effective, new)
      else if effective \<and> cr_uid new \<noteq> 0 \<and> cr_euid new = 0 then (effective, new)
      else (effective \<or> cr_euid new = 0,
            if cr_euid new = 0 \<or> cr_uid new = 0
            then new\<lparr>cap_permitted := cap_combine (cap_bset old) (cap_inheritable old)\<rparr> else new))"

text \<open>A task that is traced or shared does not gain from the program.\<close>

definition bprm_downgrade :: "program \<Rightarrow> cred \<Rightarrow> cred \<Rightarrow> cred" where
  "bprm_downgrade p old new =
     (if (cr_euid new \<noteq> cr_uid old \<or> cr_egid new \<noteq> cr_gid old \<or> \<not> cap_issubset (cap_permitted new) (cap_permitted old)) \<and>
         exec_unsafe p AND NOT 4 \<noteq> 0
      then (let new = (if \<not> capable old CAP_SETUID then new\<lparr>cr_euid := cr_uid new, cr_egid := cr_gid new\<rparr> else new)
            in new\<lparr>cap_permitted := cap_intersect (cap_permitted new) (cap_permitted old)\<rparr>)
      else new)"

definition bprm_effective :: "program \<Rightarrow> bool \<Rightarrow> cred \<Rightarrow> cred" where
  "bprm_effective p effective new =
     (let new = new\<lparr>cr_suid := cr_euid new, cr_fsuid := cr_euid new\<rparr>;
          new = new\<lparr>cr_sgid := cr_egid new, cr_fsgid := cr_egid new\<rparr>
      in if global_init p then new
         else if effective then new\<lparr>cap_effective := cap_permitted new\<rparr> else new\<lparr>cap_effective := cap_empty_set\<rparr>)"

text \<open>The result is the new credentials and the flag that says whether the program gets its capabilities
  at once.\<close>

definition cap_bprm_set_creds :: "program \<Rightarrow> cred \<Rightarrow> cred \<Rightarrow> (bool \<times> cred) kres" where
  "cap_bprm_set_creds p old new = (case get_file_caps p new of
     Inl e \<Rightarrow> Inl e
   | Inr (effective, new) \<Rightarrow>
      (case bprm_root_caps old effective new of (effective, new) \<Rightarrow>
       (let new = bprm_effective p effective (bprm_downgrade p old new) in
        if \<not> cap_isclear (cap_effective new) \<and>
           (\<not> cap_issubset CAP_FULL_SET (cap_effective new) \<or> cr_euid new \<noteq> 0 \<or> cr_uid new \<noteq> 0 \<or> issecure old SECURE_NOROOT) \<and>
           \<not> audit_ok p
        then Inl ENOMEM
        else Inr (effective, new\<lparr>securebits := securebits new AND NOT (issecure_mask SECURE_KEEP_CAPS)\<rparr>))))"

definition S_ISUID :: u16 where "S_ISUID = 0x800"
definition S_ISGID :: u16 where "S_ISGID = 0x400"
definition S_IXGRP :: u16 where "S_IXGRP = 0x8"

text \<open>Preparing the credentials of a program and installing them; reading the program is not modelled.\<close>

definition prepare_binprm :: "program \<Rightarrow> cred \<Rightarrow> (bool \<times> cred) kres" where
  "prepare_binprm p current =
     (let new = current;
          new = (if \<not> mnt_nosuid p \<and> i_mode p AND S_ISUID \<noteq> 0 then new\<lparr>cr_euid := i_uid p\<rparr> else new);
          new = (if \<not> mnt_nosuid p \<and> i_mode p AND (S_ISGID OR S_IXGRP) = S_ISGID OR S_IXGRP then new\<lparr>cr_egid := i_gid p\<rparr> else new)
      in cap_bprm_set_creds p current new)"

definition exec_creds :: "cred_env \<Rightarrow> program \<Rightarrow> task \<Rightarrow> u32 kres \<times> task" where
  "exec_creds env p t =
     (if \<not> prepare_ok env then (Inl ENOMEM, t)
      else case prepare_binprm p (task_cred t) of
        Inl e \<Rightarrow> (Inl e, t)
      | Inr (effective, new) \<Rightarrow> (Inr 0, commit_creds (env_suid_dumpable env) new t))"

text \<open>Whether the program must distrust its environment, given the flag.\<close>

definition cap_bprm_secureexec :: "bool \<Rightarrow> cred \<Rightarrow> bool" where
  "cap_bprm_secureexec effective cred =
     (cr_uid cred \<noteq> 0 \<and> (effective \<or> \<not> cap_isclear (cap_permitted cred)) \<or>
      cr_euid cred \<noteq> cr_uid cred \<or> cr_egid cred \<noteq> cr_gid cred)"

section \<open>All calls\<close>

datatype cred_call =
    C_setregid gid gid | C_setgid gid | C_setresgid gid gid gid | C_setfsgid gid
  | C_setgroups bool "nat \<Rightarrow> bool" "nat \<Rightarrow> nat \<Rightarrow> gid" u32 "gid list"
  | C_setreuid uid uid | C_setuid uid | C_setresuid uid uid uid | C_setfsuid uid
  | C_prctl nat u32
  | C_capset "u32 option" bool "u32 option" u32 "(u32 \<times> u32 \<times> u32) list"
  | C_exec program

fun cred_exec :: "cred_env \<Rightarrow> cred_call \<Rightarrow> task \<Rightarrow> (u32 kres \<times> task) option" where
  "cred_exec env (C_setregid r e) t = Some (sys_setregid env r e t)"
| "cred_exec env (C_setgid g) t = Some (sys_setgid env g t)"
| "cred_exec env (C_setresgid r e s) t = Some (sys_setresgid env r e s t)"
| "cred_exec env (C_setfsgid g) t = Some (sys_setfsgid env g t)"
| "cred_exec env (C_setgroups ok m j n us) t = sys_setgroups env ok m j n us t"
| "cred_exec env (C_setreuid r e) t = Some (sys_setreuid env r e t)"
| "cred_exec env (C_setuid u) t = Some (sys_setuid env u t)"
| "cred_exec env (C_setresuid r e s) t = Some (sys_setresuid env r e s t)"
| "cred_exec env (C_setfsuid u) t = Some (sys_setfsuid env u t)"
| "cred_exec env (C_prctl opt a) t = Some (cap_task_prctl env opt a t)"
| "cred_exec env (C_capset v w p self d) t = Some (sys_capset env v w p self d t)"
| "cred_exec env (C_exec p) t = Some (exec_creds env p t)"

fun is_exec :: "cred_call \<Rightarrow> bool" where
  "is_exec (C_exec p) = True"
| "is_exec _ = False"

text \<open>What a task can become by calls other than running a program.\<close>

inductive cred_reach :: "task \<Rightarrow> task \<Rightarrow> bool" for t where
  cred_here: "cred_reach t t"
| cred_call: "cred_reach t u \<Longrightarrow> \<not> is_exec c \<Longrightarrow> cred_exec env c u = Some (r, v) \<Longrightarrow> cred_reach t v"

section \<open>Capability sets as sets\<close>

lemma word_subset_iff: "(a :: u32) AND NOT b = 0 \<longleftrightarrow> (\<forall>i. bit a i \<longrightarrow> bit b i)"
  using bit_imp_le_length [of a] by (auto simp: bit_eq_iff bit_simps)

lemma cap_issubset_iff:
  "cap_issubset a b \<longleftrightarrow> (\<forall>i. bit (fst a) i \<longrightarrow> bit (fst b) i) \<and> (\<forall>i. bit (snd a) i \<longrightarrow> bit (snd b) i)"
  by (simp add: cap_issubset_def cap_isclear_def cap_drop_def word_subset_iff)

lemma cap_subset_refl [simp]: "cap_issubset a a"
  by (simp add: cap_issubset_iff)

lemma cap_subset_trans: "cap_issubset a b \<Longrightarrow> cap_issubset b c \<Longrightarrow> cap_issubset a c"
  by (simp add: cap_issubset_iff)

lemma cap_empty_subset [simp]: "cap_issubset cap_empty_set a"
  by (simp add: cap_issubset_iff cap_empty_set_def)

lemma cap_subset_empty [simp]: "cap_issubset a cap_empty_set \<longleftrightarrow> a = cap_empty_set"
  using bit_imp_le_length [of "fst a"] bit_imp_le_length [of "snd a"]
  by (auto simp: cap_issubset_iff cap_empty_set_def bit_eq_iff prod_eq_iff)

lemma cap_fs_subset: "cap_issubset e p \<Longrightarrow> cap_issubset (cap_drop_fs_set e) p \<and> cap_issubset (cap_raise_fs_set e p) p"
  by (auto simp: cap_issubset_iff cap_drop_fs_set_def cap_raise_fs_set_def cap_drop_def cap_combine_def cap_intersect_def bit_simps)

lemma cap_fs_empty [simp]:
  "cap_drop_fs_set cap_empty_set = cap_empty_set" "cap_raise_fs_set cap_empty_set cap_empty_set = cap_empty_set"
  by (simp_all add: cap_drop_fs_set_def cap_raise_fs_set_def cap_drop_def cap_combine_def cap_intersect_def cap_empty_set_def)

lemma cap_combine_empty [simp]: "cap_combine a cap_empty_set = a"
  by (simp add: cap_combine_def cap_empty_set_def)

lemma cap_intersect_subset [simp]: "cap_issubset (cap_intersect a b) b" "cap_issubset (cap_intersect a b) a"
  by (simp_all add: cap_issubset_iff cap_intersect_def bit_simps)

lemma cap_raised_empty [simp]: "\<not> cap_raised cap_empty_set f"
  by (simp add: cap_raised_def cap_empty_set_def cap_word_def)

lemma capable_effective:
  "cap \<noteq> CAP_NET_RAW \<Longrightarrow> cap \<noteq> CAP_NET_ADMIN \<Longrightarrow> capable c cap = cap_raised (cap_effective c) cap"
  by (simp add: capable_def cap_capable_def)

lemma set_caps_apart [simp]:
  "CAP_SETUID \<noteq> CAP_NET_RAW" "CAP_SETUID \<noteq> CAP_NET_ADMIN" "CAP_SETGID \<noteq> CAP_NET_RAW" "CAP_SETGID \<noteq> CAP_NET_ADMIN"
  "CAP_SETPCAP \<noteq> CAP_NET_RAW" "CAP_SETPCAP \<noteq> CAP_NET_ADMIN"
  by (simp_all add: CAP_SETUID_def CAP_SETGID_def CAP_SETPCAP_def CAP_NET_RAW_def CAP_NET_ADMIN_def)

lemma commit_cred [simp]: "task_cred (commit_creds s new t) = new"
  by (simp add: commit_creds_def Let_def)

section \<open>Well-formed credentials\<close>

text \<open>The group list is well formed and sorted, and no capability is effective that is not permitted.\<close>

definition cred_ok :: "cred \<Rightarrow> bool" where
  "cred_ok c \<longleftrightarrow> gi_wf (cr_groups c) \<and> sorted (gi_list (cr_groups c)) \<and> cap_issubset (cap_effective c) (cap_permitted c)"

lemma cred_ok_simps [simp]:
  "cred_ok (c\<lparr>cr_uid := u\<rparr>) = cred_ok c" "cred_ok (c\<lparr>cr_euid := u\<rparr>) = cred_ok c" "cred_ok (c\<lparr>cr_suid := u\<rparr>) = cred_ok c"
  "cred_ok (c\<lparr>cr_fsuid := u\<rparr>) = cred_ok c" "cred_ok (c\<lparr>cr_gid := u\<rparr>) = cred_ok c" "cred_ok (c\<lparr>cr_egid := u\<rparr>) = cred_ok c"
  "cred_ok (c\<lparr>cr_sgid := u\<rparr>) = cred_ok c" "cred_ok (c\<lparr>cr_fsgid := u\<rparr>) = cred_ok c" "cred_ok (c\<lparr>cr_user := u\<rparr>) = cred_ok c"
  "cred_ok (c\<lparr>securebits := u\<rparr>) = cred_ok c" "cred_ok (c\<lparr>cap_bset := b\<rparr>) = cred_ok c"
  by (simp_all add: cred_ok_def)

lemma emulate_ok: "cred_ok new \<Longrightarrow> cred_ok (cap_emulate_setxuid new old)"
  by (simp add: cap_emulate_setxuid_def cred_ok_def Let_def)

lemma fix_setuid_ok: "cap_task_fix_setuid new old f = Inr c \<Longrightarrow> cred_ok new \<Longrightarrow> cred_ok c"
  using cap_fs_subset [of "cap_effective new" "cap_permitted new"] emulate_ok [of new old]
  by (cases f) (auto simp: cap_task_fix_setuid_def cred_ok_def Let_def split: if_splits)

section \<open>Following the calls\<close>

text \<open>A property of the credentials after a call by task \<open>t\<close>, which leaves the task alone when it fails; and
  rules that follow the structure of the calls.\<close>

definition after :: "task \<Rightarrow> (cred \<Rightarrow> bool) \<Rightarrow> u32 kres \<times> task \<Rightarrow> bool" where
  "after t P x \<longleftrightarrow> (\<forall>e. fst x = Inl e \<longrightarrow> snd x = t) \<and> P (task_cred (snd x))"

named_theorems follow \<open>rules that decompose a system call\<close>

lemma after_let [follow]: "(\<And>x. x = a \<Longrightarrow> after t P (f x)) \<Longrightarrow> after t P (let x = a in f x)"
  by simp

lemma after_if [follow]: "(b \<Longrightarrow> after t P x) \<Longrightarrow> (\<not> b \<Longrightarrow> after t P y) \<Longrightarrow> after t P (if b then x else y)"
  by simp

lemma after_sum [follow]:
  "(\<And>e. s = Inl e \<Longrightarrow> after t P (f e)) \<Longrightarrow> (\<And>v. s = Inr v \<Longrightarrow> after t P (g v)) \<Longrightarrow> after t P (case s of Inl e \<Rightarrow> f e | Inr v \<Rightarrow> g v)"
  by (cases s) simp_all

lemma after_commit [follow]: "P new \<Longrightarrow> after t P (Inr r, commit_creds s new t)"
  by (simp add: after_def)

lemma after_same [follow]: "P (task_cred t) \<Longrightarrow> after t P (r, t)"
  by (simp add: after_def)

lemma finish_ok [follow]: "cred_ok new \<Longrightarrow> cred_ok (task_cred t) \<Longrightarrow> after t cred_ok (finish_setuid env f new t)"
  using fix_setuid_ok by (auto simp: finish_setuid_def after_def split: sum.splits)

lemma groups_calls_ok:
  assumes "cred_ok (task_cred t)"
  shows "after t cred_ok (sys_setregid env r e t)" and "after t cred_ok (sys_setgid env g t)"
    and "after t cred_ok (sys_setresgid env r e s t)" and "after t cred_ok (sys_setfsgid env g t)"
  unfolding sys_setregid_def sys_setgid_def sys_setresgid_def sys_setfsgid_def
  by (intro follow; use assms in simp)+

lemma set_user_eq: "set_user env new = Inr c \<Longrightarrow> c = new\<lparr>cr_user := cr_uid new\<rparr>"
  by (auto simp: set_user_def split: if_splits)

lemma users_calls_ok:
  assumes "cred_ok (task_cred t)"
  shows "after t cred_ok (sys_setreuid env r e t)" and "after t cred_ok (sys_setuid env u t)"
    and "after t cred_ok (sys_setresuid env r e s t)" and "after t cred_ok (sys_setfsuid env u t)"
  unfolding sys_setreuid_def sys_setuid_def sys_setresuid_def sys_setfsuid_def
  subgoal by (intro follow; use assms in \<open>auto dest: set_user_eq split: if_splits\<close>)
  subgoal by (intro follow; use assms in \<open>auto dest: set_user_eq simp: Let_def split: if_splits\<close>)
  subgoal by (intro follow; use assms in \<open>auto dest: set_user_eq simp: Let_def split: if_splits\<close>)
  subgoal by (intro follow; use assms in \<open>auto dest: fix_setuid_ok split: if_splits\<close>)
  done

lemma prctl_ok:
  assumes "cred_ok (task_cred t)" shows "after t cred_ok (cap_task_prctl env opt a t)"
  unfolding cap_task_prctl_def
  by (intro follow; use assms in \<open>auto simp: after_def cap_prctl_drop_def split: if_splits\<close>)

lemma capset_ok:
  assumes "cred_ok (task_cred t)" shows "after t cred_ok (sys_capset env v w p self d t)"
proof -
  have "cred_ok c" if "cap_capset (task_cred t) (task_cred t) e i p = Inr c" for e i p c
    using that assms by (auto simp: cap_capset_def cred_ok_def split: if_splits)
  then show ?thesis
    unfolding sys_capset_def using assms
    by (cases p) (auto simp: after_def Let_def split: sum.splits)
qed

lemma bprm_groups [simp]:
  "cr_groups (snd (bprm_root_caps old f new)) = cr_groups new" "cr_groups (bprm_downgrade p old new) = cr_groups new"
  "cr_groups (bprm_effective p f new) = cr_groups new"
  by (simp_all add: bprm_root_caps_def bprm_downgrade_def bprm_effective_def Let_def)

lemma file_caps_groups: "get_file_caps p new = Inr (f, c) \<Longrightarrow> cr_groups c = cr_groups new"
  by (auto simp: get_file_caps_def bprm_caps_from_vfs_caps_def Let_def split: if_splits sum.splits)

lemma bprm_effective_subset: "\<not> global_init p \<Longrightarrow> cap_issubset (cap_effective (bprm_effective p f new)) (cap_permitted (bprm_effective p f new))"
  by (simp add: bprm_effective_def Let_def)

lemma bprm_set_creds_cases:
  assumes "cap_bprm_set_creds p old new = Inr (f, c)"
  obtains f0 c0 c1 where "get_file_caps p new = Inr (f0, c0)" and "bprm_root_caps old f0 c0 = (f, c1)"
    and "c = (bprm_effective p f (bprm_downgrade p old c1))
           \<lparr>securebits := securebits (bprm_effective p f (bprm_downgrade p old c1)) AND NOT (issecure_mask SECURE_KEEP_CAPS)\<rparr>"
  using assms by (auto simp: cap_bprm_set_creds_def Let_def split: sum.splits if_splits prod.splits)

lemma bprm_set_creds_ok:
  assumes "cap_bprm_set_creds p old new = Inr (f, c)" and "gi_wf (cr_groups new)" and "sorted (gi_list (cr_groups new))" and "\<not> global_init p"
  shows "cred_ok c"
proof (rule bprm_set_creds_cases [OF assms(1)])
  fix f0 c0 c1
  assume a: "get_file_caps p new = Inr (f0, c0)" "bprm_root_caps old f0 c0 = (f, c1)"
    "c = (bprm_effective p f (bprm_downgrade p old c1))
           \<lparr>securebits := securebits (bprm_effective p f (bprm_downgrade p old c1)) AND NOT (issecure_mask SECURE_KEEP_CAPS)\<rparr>"
  have "cr_groups c1 = cr_groups new" using file_caps_groups [OF a(1)] bprm_groups(1) [of old f0 c0] a(2) by simp
  then show "cred_ok c" using a(3) assms(2-4) bprm_effective_subset by (simp add: cred_ok_def)
qed

lemma exec_ok:
  assumes "cred_ok (task_cred t)" and "\<not> global_init p" shows "after t cred_ok (exec_creds env p t)"
proof -
  have "cred_ok c" if "prepare_binprm p (task_cred t) = Inr (f, c)" for f c
    using that assms bprm_set_creds_ok by (auto simp: prepare_binprm_def cred_ok_def Let_def)
  then show ?thesis using assms(1) by (auto simp: exec_creds_def after_def split: sum.splits)
qed

lemma set_groups_ok:
  assumes "cred_ok c" and "gi_wf gi"
  obtains gi' where "set_groups c gi = Some (c\<lparr>cr_groups := gi'\<rparr>)" and "cred_ok (c\<lparr>cr_groups := gi'\<rparr>)"
    and "mset (gi_list gi') = mset (gi_list gi)" and "ngroups gi' = ngroups gi"
proof (rule groups_sort_correct [OF assms(2)])
  fix gi' assume g: "groups_sort gi = Some gi'" "gi_wf gi'" "ngroups gi' = ngroups gi" "mset (gi_list gi') = mset (gi_list gi)" "sorted (gi_list gi')"
  then show thesis using that [of gi'] assms(1) by (simp add: set_groups_def cred_ok_def)
qed

lemma setgroups_succeeds:
  assumes "cred_ok (task_cred t)" and "capable (task_cred t) CAP_SETGID" and "unat n \<le> NGROUPS_MAX" and "prepare_ok env"
    and "groups_alloc (unat n) ok m j \<noteq> None" and "unat n \<le> length us"
  obtains gi where "sys_setgroups env ok m j n us t = Some (Inr 0, commit_creds (env_suid_dumpable env) ((task_cred t)\<lparr>cr_groups := gi\<rparr>) t)"
    and "cred_ok ((task_cred t)\<lparr>cr_groups := gi\<rparr>)" and "mset (gi_list gi) = mset (take (unat n) us)" and "ngroups gi = unat n"
proof -
  obtain gi where gi: "groups_alloc (unat n) ok m j = Some gi" using assms(5) by blast
  note wf = groups_alloc_wf [OF gi]
  obtain g1 where g1: "groups_from_user gi us = Inr g1" "gi_wf g1" "ngroups g1 = unat n" "gi_list g1 = take (unat n) us"
    using groups_from_user_correct [OF wf(1), of us] assms(6) wf(2) by auto
  obtain g2 where "set_groups (task_cred t) g1 = Some ((task_cred t)\<lparr>cr_groups := g2\<rparr>)" "cred_ok ((task_cred t)\<lparr>cr_groups := g2\<rparr>)"
    "mset (gi_list g2) = mset (gi_list g1)" "ngroups g2 = ngroups g1"
    using set_groups_ok [OF assms(1) g1(2)] .
  then show thesis using that [of g2] assms gi g1 by (simp add: sys_setgroups_def set_current_groups_def)
qed

lemma setgroups_result:
  assumes "cred_ok (task_cred t)"
  obtains r where "sys_setgroups env ok m j n us t = Some (Inl r, t)"
  | gi where "sys_setgroups env ok m j n us t = Some (Inr 0, commit_creds (env_suid_dumpable env) ((task_cred t)\<lparr>cr_groups := gi\<rparr>) t)"
    and "capable (task_cred t) CAP_SETGID" and "cred_ok ((task_cred t)\<lparr>cr_groups := gi\<rparr>)" and "unat n \<le> length us"
    and "mset (gi_list gi) = mset (take (unat n) us)" and "ngroups gi = unat n"
proof (cases "capable (task_cred t) CAP_SETGID \<and> unat n \<le> NGROUPS_MAX \<and> prepare_ok env \<and> groups_alloc (unat n) ok m j \<noteq> None \<and> unat n \<le> length us")
  case True
  then show thesis using that(2) setgroups_succeeds [OF assms, of n env ok m j us] by metis
next
  case False
  have "\<exists>e. sys_setgroups env ok m j n us t = Some (Inl e, t)"
  proof (cases "groups_alloc (unat n) ok m j")
    case None
    then show ?thesis by (auto simp: sys_setgroups_def)
  next
    case (Some gi)
    note wf = groups_alloc_wf [OF Some]
    show ?thesis
      using groups_from_user_correct [OF wf(1), of us] wf(2) False Some
      by (auto simp: sys_setgroups_def set_current_groups_def split: if_splits)
  qed
  then show thesis using that(1) by blast
qed

section \<open>Confinement\<close>

text \<open>A task without capabilities, whose users and groups come from those of \<open>c0\<close>.\<close>

definition uids :: "cred \<Rightarrow> uid set" where "uids c = {cr_uid c, cr_euid c, cr_suid c}"
definition gids :: "cred \<Rightarrow> gid set" where "gids c = {cr_gid c, cr_egid c, cr_sgid c}"

definition confined :: "cred \<Rightarrow> cred \<Rightarrow> bool" where
  "confined c0 c \<longleftrightarrow> cap_permitted c = cap_empty_set \<and> cap_effective c = cap_empty_set \<and>
     cr_uid c \<in> uids c0 \<and> cr_euid c \<in> uids c0 \<and> cr_suid c \<in> uids c0 \<and> cr_fsuid c \<in> insert (cr_fsuid c0) (uids c0) \<and>
     cr_gid c \<in> gids c0 \<and> cr_egid c \<in> gids c0 \<and> cr_sgid c \<in> gids c0 \<and> cr_fsgid c \<in> insert (cr_fsgid c0) (gids c0) \<and>
     cr_groups c = cr_groups c0 \<and> cap_bset c = cap_bset c0 \<and> cap_issubset (cap_inheritable c) (cap_inheritable c0)"

lemma confinedD:
  assumes "confined c0 c"
  shows "cap_permitted c = cap_empty_set" "cap_effective c = cap_empty_set"
    "cr_uid c \<in> uids c0" "cr_euid c \<in> uids c0" "cr_suid c \<in> uids c0" "cr_fsuid c \<in> insert (cr_fsuid c0) (uids c0)"
    "cr_gid c \<in> gids c0" "cr_egid c \<in> gids c0" "cr_sgid c \<in> gids c0" "cr_fsgid c \<in> insert (cr_fsgid c0) (gids c0)"
  using assms by (simp_all only: confined_def)

lemma confined_upd:
  assumes "confined c0 c"
  shows "u \<in> uids c0 \<Longrightarrow> confined c0 (c\<lparr>cr_uid := u\<rparr>)" "u \<in> uids c0 \<Longrightarrow> confined c0 (c\<lparr>cr_euid := u\<rparr>)"
    "u \<in> uids c0 \<Longrightarrow> confined c0 (c\<lparr>cr_suid := u\<rparr>)" "u \<in> insert (cr_fsuid c0) (uids c0) \<Longrightarrow> confined c0 (c\<lparr>cr_fsuid := u\<rparr>)"
    "g \<in> gids c0 \<Longrightarrow> confined c0 (c\<lparr>cr_gid := g\<rparr>)" "g \<in> gids c0 \<Longrightarrow> confined c0 (c\<lparr>cr_egid := g\<rparr>)"
    "g \<in> gids c0 \<Longrightarrow> confined c0 (c\<lparr>cr_sgid := g\<rparr>)" "g \<in> insert (cr_fsgid c0) (gids c0) \<Longrightarrow> confined c0 (c\<lparr>cr_fsgid := g\<rparr>)"
    "confined c0 (c\<lparr>cr_user := w\<rparr>)" "confined c0 (c\<lparr>securebits := b\<rparr>)"
  using assms unfolding confined_def by simp_all

lemma confined_not_capable:
  assumes "confined c0 c" shows "\<not> capable c CAP_SETUID" "\<not> capable c CAP_SETGID" "\<not> capable c CAP_SETPCAP"
  using confinedD(2) [OF assms] by (simp_all add: capable_effective)

lemma same_caps: "cap_permitted c = p \<Longrightarrow> c\<lparr>cap_permitted := p\<rparr> = c" "cap_effective c = e \<Longrightarrow> c\<lparr>cap_effective := e\<rparr> = c"
  by auto

lemma fix_setuid_none:
  assumes "cap_permitted new = cap_empty_set" and "cap_effective new = cap_empty_set"
  shows "cap_task_fix_setuid new old f = Inr new"
  using assms by (cases f) (simp_all add: cap_task_fix_setuid_def cap_emulate_setxuid_def Let_def same_caps)

lemma finish_confined [follow]: "confined c0 new \<Longrightarrow> confined c0 (task_cred t) \<Longrightarrow> after t (confined c0) (finish_setuid env f new t)"
  using fix_setuid_none [OF confinedD(1,2)] by (simp add: finish_setuid_def after_def)

lemma groups_calls_confined:
  assumes "confined c0 (task_cred t)"
  shows "after t (confined c0) (sys_setregid env r e t)" and "after t (confined c0) (sys_setgid env g t)"
    and "after t (confined c0) (sys_setresgid env r e s t)" and "after t (confined c0) (sys_setfsgid env g t)"
  unfolding sys_setregid_def sys_setgid_def sys_setresgid_def sys_setfsgid_def
  using confined_not_capable [OF assms] confinedD(7-10) [OF assms]
  by (intro follow; use assms in \<open>auto intro!: confined_upd\<close>)+

lemma set_user_confined: "confined c0 new \<Longrightarrow> set_user env new = Inr c \<Longrightarrow> confined c0 c"
  by (auto dest!: set_user_eq intro: confined_upd)

lemma users_calls_confined:
  assumes "confined c0 (task_cred t)"
  shows "after t (confined c0) (sys_setreuid env r e t)" and "after t (confined c0) (sys_setuid env u t)"
    and "after t (confined c0) (sys_setresuid env r e s t)" and "after t (confined c0) (sys_setfsuid env u t)"
proof -
  note none = confined_not_capable [OF assms] and ids = confinedD(3-6) [OF assms] and [intro!] = confined_upd
  show "after t (confined c0) (sys_setreuid env r e t)"
    unfolding sys_setreuid_def using none ids
    by (intro follow; use assms in \<open>auto dest!: set_user_eq split: if_splits\<close>)
  show "after t (confined c0) (sys_setuid env u t)"
    unfolding sys_setuid_def using none ids
    by (intro follow; use assms in \<open>auto split: if_splits\<close>)
  show "after t (confined c0) (sys_setresuid env r e s t)"
    unfolding sys_setresuid_def using none ids
    by (intro follow; use assms in \<open>auto simp: Let_def dest!: set_user_eq split: if_splits\<close>)
  show "after t (confined c0) (sys_setfsuid env u t)"
    unfolding sys_setfsuid_def using none ids fix_setuid_none [of "(task_cred t)\<lparr>cr_fsuid := u\<rparr>"] confinedD(1,2) [OF assms]
    by (intro follow; use assms in \<open>auto\<close>)
qed

lemma prctl_confined:
  assumes "confined c0 (task_cred t)" shows "after t (confined c0) (cap_task_prctl env opt a t)"
proof -
  have "cap_capable (task_cred t) (task_cred t) CAP_SETPCAP \<noteq> Inr ()"
    using confined_not_capable(3) [OF assms] by (simp add: capable_def)
  then show ?thesis
    unfolding cap_task_prctl_def
    by (intro follow; use assms confined_not_capable [OF assms] in \<open>auto simp: after_def cap_prctl_drop_def intro!: confined_upd\<close>)
qed

lemma capset_confined:
  assumes "confined c0 (task_cred t)" shows "after t (confined c0) (sys_capset env v w p self d t)"
proof -
  have "confined c0 c" if "cap_capset (task_cred t) (task_cred t) e i q = Inr c" for e i q c
  proof -
    have "cap_inh_is_capped (task_cred t)" using confined_not_capable(3) [OF assms] by (simp add: cap_inh_is_capped_def capable_def)
    then have "q = cap_empty_set" "e = cap_empty_set" "cap_issubset i (cap_inheritable (task_cred t))"
      "c = (task_cred t)\<lparr>cap_effective := e, cap_inheritable := i, cap_permitted := q\<rparr>"
      using that confinedD(1) [OF assms] by (auto simp: cap_capset_def split: if_splits)
    then show ?thesis using assms cap_subset_trans unfolding confined_def by simp
  qed
  then show ?thesis
    unfolding sys_capset_def using assms
    by (cases p) (auto simp: after_def Let_def split: sum.splits)
qed

lemma setgroups_after:
  assumes "cred_ok (task_cred t)"
  shows "\<exists>x. sys_setgroups env ok m j n us t = Some x \<and> after t cred_ok x \<and> (confined c0 (task_cred t) \<longrightarrow> after t (confined c0) x)"
proof (rule setgroups_result [OF assms, of env ok m j n us])
  fix r assume "sys_setgroups env ok m j n us t = Some (Inl r, t)"
  then show ?thesis using assms by (auto intro: follow)
next
  fix gi assume "sys_setgroups env ok m j n us t = Some (Inr 0, commit_creds (env_suid_dumpable env) ((task_cred t)\<lparr>cr_groups := gi\<rparr>) t)"
    "capable (task_cred t) CAP_SETGID" "cred_ok ((task_cred t)\<lparr>cr_groups := gi\<rparr>)"
  then show ?thesis using confined_not_capable(2) [of c0] by (auto intro: follow)
qed

lemma cred_exec_ok:
  assumes "cred_ok (task_cred t)" and "\<And>p. c = C_exec p \<Longrightarrow> \<not> global_init p"
  shows "\<exists>x. cred_exec env c t = Some x \<and> after t cred_ok x"
proof (cases c)
  case (C_setgroups ok m j n us)
  then show ?thesis using setgroups_after [OF assms(1), of env ok m j n us undefined] by auto
qed (use assms groups_calls_ok [OF assms(1)] users_calls_ok [OF assms(1)] prctl_ok [OF assms(1)] capset_ok [OF assms(1)]
    exec_ok [OF assms(1)] in auto)

lemma cred_exec_confined:
  assumes "cred_exec env c t = Some x" and "cred_ok (task_cred t)" and "confined c0 (task_cred t)" and "\<not> is_exec c"
  shows "after t (confined c0) x"
proof (cases c)
  case (C_setgroups ok m j n us)
  then show ?thesis using assms setgroups_after [OF assms(2), of env ok m j n us c0] by auto
qed (use assms groups_calls_confined [OF assms(3)] users_calls_confined [OF assms(3)] prctl_confined [OF assms(3)]
    capset_confined [OF assms(3)] in auto)

lemma cred_reach_confined:
  assumes "cred_reach t u" and "cred_ok (task_cred t)" and "confined c0 (task_cred t)"
  shows "cred_ok (task_cred u) \<and> confined c0 (task_cred u)"
  using assms(1)
proof induction
  case cred_here
  then show ?case using assms(2,3) by simp
next
  case (cred_call u c env r v)
  have "\<And>p. c = C_exec p \<Longrightarrow> \<not> global_init p" using cred_call.hyps(2) by auto
  with cred_exec_ok [of u c env] cred_call have "after u cred_ok (r, v)" by (metis option.inject)
  moreover have "after u (confined c0) (r, v)" using cred_exec_confined [OF cred_call.hyps(3)] cred_call by blast
  ultimately show ?case by (simp add: after_def)
qed

section \<open>Locked rules\<close>

text \<open>What a task can become by any calls, running programs included.\<close>

inductive cred_history :: "task \<Rightarrow> task \<Rightarrow> bool" for t where
  history_here: "cred_history t t"
| history_call: "cred_history t u \<Longrightarrow> cred_exec env c u = Some (r, v) \<Longrightarrow> cred_history t v"

text \<open>Locks stay, and rules stay as they are locked; only keeping capabilities, which running a program (\<open>ex\<close>) turns
  off, may have been turned off.\<close>

definition locks_kept :: "bool \<Rightarrow> u32 \<Rightarrow> cred \<Rightarrow> bool" where
  "locks_kept ex b c \<longleftrightarrow> (\<forall>i \<in> {SECURE_NOROOT, SECURE_NO_SETUID_FIXUP, SECURE_KEEP_CAPS}. bit b (i + 1) \<longrightarrow>
     bit (securebits c) (i + 1) \<and> (bit (securebits c) i = bit b i \<or> ex \<and> i = SECURE_KEEP_CAPS \<and> \<not> bit (securebits c) i))"

lemma locks_simps [simp]:
  "locks_kept ex b (c\<lparr>cr_uid := u\<rparr>) = locks_kept ex b c" "locks_kept ex b (c\<lparr>cr_euid := u\<rparr>) = locks_kept ex b c"
  "locks_kept ex b (c\<lparr>cr_suid := u\<rparr>) = locks_kept ex b c" "locks_kept ex b (c\<lparr>cr_fsuid := u\<rparr>) = locks_kept ex b c"
  "locks_kept ex b (c\<lparr>cr_gid := u\<rparr>) = locks_kept ex b c" "locks_kept ex b (c\<lparr>cr_egid := u\<rparr>) = locks_kept ex b c"
  "locks_kept ex b (c\<lparr>cr_sgid := u\<rparr>) = locks_kept ex b c" "locks_kept ex b (c\<lparr>cr_fsgid := u\<rparr>) = locks_kept ex b c"
  "locks_kept ex b (c\<lparr>cr_user := u\<rparr>) = locks_kept ex b c" "locks_kept ex b (c\<lparr>cap_bset := s\<rparr>) = locks_kept ex b c"
  "locks_kept ex b (c\<lparr>cap_effective := s\<rparr>) = locks_kept ex b c" "locks_kept ex b (c\<lparr>cap_permitted := s\<rparr>) = locks_kept ex b c"
  "locks_kept ex b (c\<lparr>cap_inheritable := s\<rparr>) = locks_kept ex b c" "locks_kept ex b (c\<lparr>cr_groups := g\<rparr>) = locks_kept ex b c"
  by (simp_all add: locks_kept_def)

lemma issecure_bit: "issecure c i \<longleftrightarrow> bit (securebits c) i"
proof -
  have "push_bit i 1 = (2 ^ i :: u32)" by (simp add: push_bit_eq_mult)
  then show ?thesis by (simp add: issecure_def issecure_mask_def and_exp_eq_0_iff_not_bit and.commute [of "2 ^ i"])
qed

lemma keep_caps_unlocked:
  assumes "locks_kept ex b c"
  shows "ex \<or> \<not> issecure c SECURE_KEEP_CAPS_LOCKED \<Longrightarrow>
      locks_kept ex b (c\<lparr>securebits := securebits c AND NOT (issecure_mask SECURE_KEEP_CAPS)\<rparr>)"
    and "\<not> issecure c SECURE_KEEP_CAPS_LOCKED \<Longrightarrow> locks_kept ex b (c\<lparr>securebits := securebits c OR issecure_mask SECURE_KEEP_CAPS\<rparr>)"
  using assms unfolding locks_kept_def issecure_bit SECURE_KEEP_CAPS_LOCKED_def
  by (auto simp: SECURE_KEEP_CAPS_def SECURE_NOROOT_def SECURE_NO_SETUID_FIXUP_def issecure_mask_def bit_simps)

lemma fix_setuid_locks: "cap_task_fix_setuid new old f = Inr c \<Longrightarrow> locks_kept ex b new \<Longrightarrow> locks_kept ex b c"
  by (cases f) (auto simp: cap_task_fix_setuid_def cap_emulate_setxuid_def Let_def split: if_splits)

lemma finish_locks [follow]:
  "locks_kept ex b new \<Longrightarrow> locks_kept ex b (task_cred t) \<Longrightarrow> after t (locks_kept ex b) (finish_setuid env f new t)"
  using fix_setuid_locks by (auto simp: finish_setuid_def after_def split: sum.splits)

lemma groups_calls_locks:
  assumes "locks_kept ex b (task_cred t)"
  shows "after t (locks_kept ex b) (sys_setregid env r e t)" and "after t (locks_kept ex b) (sys_setgid env g t)"
    and "after t (locks_kept ex b) (sys_setresgid env r e s t)" and "after t (locks_kept ex b) (sys_setfsgid env g t)"
  unfolding sys_setregid_def sys_setgid_def sys_setresgid_def sys_setfsgid_def
  by (intro follow; use assms in simp)+

lemma users_calls_locks:
  assumes "locks_kept ex b (task_cred t)"
  shows "after t (locks_kept ex b) (sys_setreuid env r e t)" and "after t (locks_kept ex b) (sys_setuid env u t)"
    and "after t (locks_kept ex b) (sys_setresuid env r e s t)" and "after t (locks_kept ex b) (sys_setfsuid env u t)"
  unfolding sys_setreuid_def sys_setuid_def sys_setresuid_def sys_setfsuid_def
  subgoal by (intro follow; use assms in \<open>auto dest: set_user_eq split: if_splits\<close>)
  subgoal by (intro follow; use assms in \<open>auto dest: set_user_eq simp: Let_def split: if_splits\<close>)
  subgoal by (intro follow; use assms in \<open>auto dest: set_user_eq simp: Let_def split: if_splits\<close>)
  subgoal by (intro follow; use assms in \<open>auto dest: fix_setuid_locks split: if_splits\<close>)
  done

text \<open>The mask that \<open>PR_SET_SECUREBITS\<close> tests, bit by bit.\<close>

lemma locks_bit: "bit SECURE_ALL_LOCKS i \<longleftrightarrow> i \<in> {1, 3, 5}"
  unfolding SECURE_ALL_LOCKS_def SECURE_ALL_BITS_def issecure_mask_def SECURE_NOROOT_def SECURE_NO_SETUID_FIXUP_def SECURE_KEEP_CAPS_def
    push_bit_or push_bit_push_bit bit_or_iff bit_push_bit_iff bit_1_iff
  by auto

lemma set_securebits_locks:
  assumes "drop_bit 1 (old AND SECURE_ALL_LOCKS) AND (old XOR new) = 0" and "old AND SECURE_ALL_LOCKS AND NOT new = 0"
    and "i \<in> {0, 2, 4}" and "bit old (i + 1)"
  shows "bit new (i + 1)" and "bit new i = bit old i"
proof -
  have "\<not> bit (drop_bit 1 (old AND SECURE_ALL_LOCKS) AND (old XOR new)) i" "\<not> bit (old AND SECURE_ALL_LOCKS AND NOT new) (i + 1)"
    using assms(1,2) by simp_all
  moreover have "i + 1 < 32" "i + 1 \<in> {1, 3, 5}" using assms(3) by auto
  ultimately show "bit new (i + 1)" "bit new i = bit old i" using assms(4) by (simp_all only: bit_and_iff bit_xor_iff bit_drop_bit_eq bit_not_iff locks_bit comp_apply) (simp_all add: add.commute, blast?)
qed

lemma prctl_locks:
  assumes "locks_kept ex b (task_cred t)" shows "after t (locks_kept ex b) (cap_task_prctl env opt a t)"
proof -
  have "locks_kept ex b ((task_cred t)\<lparr>securebits := a\<rparr>)"
    if "drop_bit 1 (securebits (task_cred t) AND SECURE_ALL_LOCKS) AND (securebits (task_cred t) XOR a) = 0"
      "securebits (task_cred t) AND SECURE_ALL_LOCKS AND NOT a = 0"
    using set_securebits_locks [OF that, of 0] set_securebits_locks [OF that, of 2] set_securebits_locks [OF that, of 4] assms
    unfolding locks_kept_def SECURE_NOROOT_def SECURE_NO_SETUID_FIXUP_def SECURE_KEEP_CAPS_def by simp
  then show ?thesis
    unfolding cap_task_prctl_def
    by (intro follow; use assms keep_caps_unlocked [OF assms] in \<open>auto simp: after_def cap_prctl_drop_def split: if_splits\<close>)
qed

lemma capset_locks:
  assumes "locks_kept ex b (task_cred t)" shows "after t (locks_kept ex b) (sys_capset env v w p self d t)"
proof -
  have "locks_kept ex b c" if "cap_capset (task_cred t) (task_cred t) e i q = Inr c" for e i q c
    using that assms by (auto simp: cap_capset_def split: if_splits)
  then show ?thesis
    unfolding sys_capset_def using assms
    by (cases p) (auto simp: after_def Let_def split: sum.splits)
qed

lemma bprm_locks [simp]:
  "locks_kept ex b (snd (bprm_root_caps old f new)) = locks_kept ex b new" "locks_kept ex b (bprm_downgrade p old new) = locks_kept ex b new"
  "locks_kept ex b (bprm_effective p f new) = locks_kept ex b new"
  by (simp_all add: bprm_root_caps_def bprm_downgrade_def bprm_effective_def Let_def)

lemma file_caps_locks: "get_file_caps p new = Inr (f, c) \<Longrightarrow> locks_kept ex b c = locks_kept ex b new"
  by (auto simp: get_file_caps_def bprm_caps_from_vfs_caps_def Let_def split: if_splits sum.splits)

lemma exec_locks:
  assumes "ex" and "locks_kept ex b (task_cred t)" shows "after t (locks_kept ex b) (exec_creds env p t)"
proof -
  have set_creds: "locks_kept ex b c" if "cap_bprm_set_creds p old new = Inr (f, c)" "locks_kept ex b new" for old new f c
  proof (rule bprm_set_creds_cases [OF that(1)])
    fix f0 c0 c1
    assume a: "get_file_caps p new = Inr (f0, c0)" "bprm_root_caps old f0 c0 = (f, c1)"
      "c = (bprm_effective p f (bprm_downgrade p old c1))
             \<lparr>securebits := securebits (bprm_effective p f (bprm_downgrade p old c1)) AND NOT (issecure_mask SECURE_KEEP_CAPS)\<rparr>"
    have "locks_kept ex b c1" using file_caps_locks [OF a(1)] bprm_locks(1) [of ex b old f0 c0] a(2) that(2) by simp
    then show "locks_kept ex b c" using a(3) assms(1) by (simp add: keep_caps_unlocked)
  qed
  have "locks_kept ex b c" if "prepare_binprm p (task_cred t) = Inr (f, c)" for f c
    using that assms(2) set_creds by (auto simp: prepare_binprm_def Let_def)
  then show ?thesis using assms(2) by (auto simp: exec_creds_def after_def split: sum.splits)
qed

lemma setgroups_locks:
  assumes "locks_kept ex b (task_cred t)" and "sys_setgroups env ok m j n us t = Some x" shows "after t (locks_kept ex b) x"
  using assms by (auto simp: sys_setgroups_def set_current_groups_def set_groups_def split: if_splits option.splits sum.splits intro: follow)

lemma cred_exec_locks:
  assumes "cred_exec env c t = Some x" and "locks_kept ex b (task_cred t)" and "ex \<or> \<not> is_exec c"
  shows "after t (locks_kept ex b) x"
  using assms setgroups_locks [OF assms(2)] groups_calls_locks [OF assms(2)] users_calls_locks [OF assms(2)] prctl_locks [OF assms(2)]
    capset_locks [OF assms(2)] exec_locks [OF _ assms(2)]
  by (cases c) auto

lemma history_locks: "cred_history t u \<Longrightarrow> locks_kept True b (task_cred t) \<Longrightarrow> locks_kept True b (task_cred u)"
proof (induction rule: cred_history.induct)
  case (history_call u env c r v)
  then show ?case using cred_exec_locks [OF history_call.hyps(2), of True b] by (simp add: after_def)
qed simp

lemma reach_locks: "cred_reach t u \<Longrightarrow> locks_kept False b (task_cred t) \<Longrightarrow> locks_kept False b (task_cred u)"
proof (induction rule: cred_reach.induct)
  case (cred_call u c env r v)
  then show ?case using cred_exec_locks [OF cred_call.hyps(3), of False b] by (simp add: after_def)
qed simp

section \<open>Programs of traced tasks\<close>

lemma file_caps_ids: "get_file_caps p new = Inr (f, c) \<Longrightarrow> cr_uid c = cr_uid new \<and> cr_gid c = cr_gid new"
  by (auto simp: get_file_caps_def bprm_caps_from_vfs_caps_def Let_def split: if_splits sum.splits)

lemma root_caps_ids: "bprm_root_caps old f new = (g, c) \<Longrightarrow> cr_uid c = cr_uid new \<and> cr_gid c = cr_gid new"
  by (auto simp: bprm_root_caps_def split: if_splits)

lemma downgrade_result:
  assumes "exec_unsafe p AND NOT 4 \<noteq> 0" and "cr_uid new = cr_uid old" and "cr_gid new = cr_gid old" and "c = bprm_downgrade p old new"
  shows "cap_issubset (cap_permitted c) (cap_permitted old) \<and> cr_uid c = cr_uid old \<and>
     (\<not> capable old CAP_SETUID \<longrightarrow> cr_euid c = cr_uid old \<and> cr_egid c = cr_gid old)"
  using assms by (auto simp: bprm_downgrade_def Let_def)

lemma effective_ids:
  "cap_permitted (bprm_effective p f c) = cap_permitted c" "cr_uid (bprm_effective p f c) = cr_uid c" "cr_euid (bprm_effective p f c) = cr_euid c"
  "cr_suid (bprm_effective p f c) = cr_euid c" "cr_fsuid (bprm_effective p f c) = cr_euid c" "cr_egid (bprm_effective p f c) = cr_egid c"
  "cr_sgid (bprm_effective p f c) = cr_egid c" "cr_fsgid (bprm_effective p f c) = cr_egid c"
  by (simp_all add: bprm_effective_def Let_def)

lemma prepare_binprm_new:
  "\<exists>new. prepare_binprm p c = cap_bprm_set_creds p c new \<and> cr_uid new = cr_uid c \<and> cr_gid new = cr_gid c"
  unfolding prepare_binprm_def Let_def by (rule exI, rule conjI, rule refl) simp

lemma exec_creds_new:
  assumes "exec_creds env p t = (Inr r, t')" shows "\<exists>f. prepare_binprm p (task_cred t) = Inr (f, task_cred t')"
proof (cases "prepare_binprm p (task_cred t)")
  case (Inr x)
  then show ?thesis using assms by (cases x) (auto simp: exec_creds_def split: if_split_asm)
qed (use assms in \<open>simp add: exec_creds_def split: if_split_asm\<close>)

lemma exec_unsafe_result:
  assumes "exec_creds env p t = (Inr r, t')" and "exec_unsafe p AND NOT 4 \<noteq> 0"
  shows "cap_issubset (cap_permitted (task_cred t')) (cap_permitted (task_cred t)) \<and> cr_uid (task_cred t') = cr_uid (task_cred t) \<and>
     (\<not> capable (task_cred t) CAP_SETUID \<longrightarrow>
       cr_euid (task_cred t') = cr_uid (task_cred t) \<and> cr_suid (task_cred t') = cr_uid (task_cred t) \<and> cr_fsuid (task_cred t') = cr_uid (task_cred t) \<and>
       cr_egid (task_cred t') = cr_gid (task_cred t) \<and> cr_sgid (task_cred t') = cr_gid (task_cred t) \<and> cr_fsgid (task_cred t') = cr_gid (task_cred t))"
proof -
  let ?old = "task_cred t"
  obtain f where "prepare_binprm p ?old = Inr (f, task_cred t')"
    using exec_creds_new [OF assms(1)] by blast
  then obtain new where new: "cap_bprm_set_creds p ?old new = Inr (f, task_cred t')" "cr_uid new = cr_uid ?old" "cr_gid new = cr_gid ?old"
    using prepare_binprm_new [of p ?old] by metis
  show ?thesis
  proof (rule bprm_set_creds_cases [OF new(1)])
    fix f0 c0 c1
    assume a: "get_file_caps p new = Inr (f0, c0)" "bprm_root_caps ?old f0 c0 = (f, c1)"
      "task_cred t' = (bprm_effective p f (bprm_downgrade p ?old c1))
             \<lparr>securebits := securebits (bprm_effective p f (bprm_downgrade p ?old c1)) AND NOT (issecure_mask SECURE_KEEP_CAPS)\<rparr>"
    have "cr_uid c1 = cr_uid ?old" "cr_gid c1 = cr_gid ?old"
      using file_caps_ids [OF a(1)] root_caps_ids [OF a(2)] new(2,3) by simp_all
    note d = downgrade_result [OF assms(2) this refl]
    let ?c = "bprm_downgrade p ?old c1"
    have "cap_permitted (task_cred t') = cap_permitted ?c" "cr_uid (task_cred t') = cr_uid ?c"
      "cr_euid (task_cred t') = cr_euid ?c" "cr_suid (task_cred t') = cr_euid ?c" "cr_fsuid (task_cred t') = cr_euid ?c"
      "cr_egid (task_cred t') = cr_egid ?c" "cr_sgid (task_cred t') = cr_egid ?c" "cr_fsgid (task_cred t') = cr_egid ?c"
      by (simp_all add: a(3) effective_ids)
    then show ?thesis using d by simp
  qed
qed

section \<open>Dropping root\<close>

lemma setuid_final:
  assumes "sys_setuid env u t = (Inr r, t')" and "u \<noteq> 0" and "cred_ok (task_cred t)" and "capable (task_cred t) CAP_SETUID"
    and "0 \<in> {cr_uid (task_cred t), cr_euid (task_cred t), cr_suid (task_cred t)}"
    and "\<not> issecure (task_cred t) SECURE_KEEP_CAPS" and "\<not> issecure (task_cred t) SECURE_NO_SETUID_FIXUP" and "cred_reach t' v"
  shows "cr_uid (task_cred v) = u \<and> cr_euid (task_cred v) = u \<and> cr_suid (task_cred v) = u \<and> cr_fsuid (task_cred v) = u \<and>
         cap_permitted (task_cred v) = cap_empty_set \<and> cap_effective (task_cred v) = cap_empty_set"
proof -
  let ?c = "task_cred t'"
  have ok: "cred_ok ?c" using users_calls_ok(2) [OF assms(3), of env u] assms(1) by (simp add: after_def)
  have c: "cr_uid ?c = u \<and> cr_euid ?c = u \<and> cr_suid ?c = u \<and> cr_fsuid ?c = u \<and> cap_permitted ?c = cap_empty_set \<and> cap_effective ?c = cap_empty_set"
    using assms(1,2,4-7)
    by (auto simp: sys_setuid_def finish_setuid_def cap_task_fix_setuid_def cap_emulate_setxuid_def Let_def
        dest!: set_user_eq split: if_splits sum.splits)
  then have "confined ?c ?c" by (simp add: confined_def uids_def gids_def)
  from cred_reach_confined [OF assms(8) ok this] c show ?thesis by (auto simp: confined_def uids_def)
qed

section \<open>Properties\<close>

text \<open>Two tasks for the examples: root with all capabilities, and a user without any.\<close>

definition no_groups :: group_info where
  "no_groups = \<lparr>ngroups = 0, nblocks = 1, gblocks = [replicate NGROUPS_SMALL 0]\<rparr>"

definition user_cred :: "uid \<Rightarrow> cred" where
  "user_cred u = \<lparr>cr_uid = u, cr_gid = u, cr_suid = u, cr_sgid = u, cr_euid = u, cr_egid = u, cr_fsuid = u, cr_fsgid = u, securebits = 0,
     cap_inheritable = (0, 0), cap_permitted = (0, 0), cap_effective = (0, 0), cap_bset = CAP_FULL_SET, cr_user = u, cr_groups = no_groups\<rparr>"

definition root_task :: task where
  "root_task = \<lparr>task_cred = (user_cred 0)\<lparr>cap_permitted := CAP_FULL_SET, cap_effective := CAP_FULL_SET\<rparr>, dumpable = Some 1, pdeath_signal = 0\<rparr>"

definition user_task :: task where
  "user_task = \<lparr>task_cred = user_cred 1000, dumpable = Some 1, pdeath_signal = 0\<rparr>"

definition plenty :: cred_env where
  "plenty = \<lparr>prepare_ok = True, env_suid_dumpable = 0, user_ok = True, user_processes = 1, user_is_init = False, rlimit_nproc = 100\<rparr>"

lemma example_tasks_ok: "cred_ok (task_cred root_task)" "cred_ok (task_cred user_task)"
  by (simp_all add: cred_ok_def root_task_def user_task_def user_cred_def no_groups_def gi_wf_def gi_list_def gi_flat_def
      NGROUPS_SMALL_def cap_empty_subset [unfolded cap_empty_set_def])

text \<open>C6.  Well-formedness of credentials.  Every call that changes credentials (the user, group and supplementary group
  calls, the capability calls, and running a program other than as the first process) has a defined outcome on a task
  with well-formed credentials, that is a sorted, properly stored group list and no effective capability that is not
  permitted; the credentials stay well formed, and a call that fails leaves the whole task unchanged.\<close>

theorem cred_calls_total:
  assumes "cred_ok (task_cred t)" and "\<And>p. c = C_exec p \<Longrightarrow> \<not> global_init p"
  shows "\<exists>r t'. cred_exec env c t = Some (r, t') \<and> cred_ok (task_cred t') \<and> (\<forall>e. r = Inl e \<longrightarrow> t' = t)"
  using cred_exec_ok [of t c env] assms by (auto simp: after_def)

theorem cred_calls_total_witness:
  "\<exists>r t'. cred_exec plenty (C_setgroups True (\<lambda>i. True) (\<lambda>i j. 0) 3 [30, 10, 20]) root_task = Some (r, t') \<and>
     cred_ok (task_cred t') \<and> (\<forall>e. r = Inl e \<longrightarrow> t' = root_task)"
  by (rule cred_calls_total [OF example_tasks_ok(1)]) simp

text \<open>C3.  A task without capabilities cannot gain any by its own calls.  Whatever sequence of credential calls it makes,
  short of running a program, its permitted and effective sets stay empty, each of its user ids and group ids is one it
  had at the start, and its supplementary groups, bounding set and the bound on its inheritable set do not grow.\<close>

theorem unprivileged_confined:
  assumes "cred_reach t u" and "cred_ok (task_cred t)" and "cap_permitted (task_cred t) = cap_empty_set"
    and "c = task_cred t" and "d = task_cred u"
  shows "cap_permitted d = cap_empty_set \<and> cap_effective d = cap_empty_set \<and>
     {cr_uid d, cr_euid d, cr_suid d} \<subseteq> {cr_uid c, cr_euid c, cr_suid c} \<and> cr_fsuid d \<in> {cr_fsuid c, cr_uid c, cr_euid c, cr_suid c} \<and>
     {cr_gid d, cr_egid d, cr_sgid d} \<subseteq> {cr_gid c, cr_egid c, cr_sgid c} \<and> cr_fsgid d \<in> {cr_fsgid c, cr_gid c, cr_egid c, cr_sgid c} \<and>
     cr_groups d = cr_groups c \<and> cap_bset d = cap_bset c \<and> cap_issubset (cap_inheritable d) (cap_inheritable c)"
proof -
  have "confined (task_cred t) (task_cred t)"
    using assms(2,3) by (simp add: confined_def uids_def gids_def cred_ok_def)
  from cred_reach_confined [OF assms(1,2) this] show ?thesis
    unfolding confined_def uids_def gids_def assms(4,5) by simp
qed

text \<open>The user of the example asks for root.\<close>

definition refused :: task where
  "refused = snd (sys_setresuid plenty 0 0 0 user_task)"

lemma refused_reach: "cred_reach user_task refused"
proof (rule cred_call [OF cred_here])
  show "cred_exec plenty (C_setresuid 0 0 0) user_task = Some (fst (sys_setresuid plenty 0 0 0 user_task), refused)"
    by (simp add: refused_def)
qed simp

theorem unprivileged_confined_witness: "cap_permitted (task_cred refused) = cap_empty_set \<and> cr_euid (task_cred refused) = 1000"
proof -
  have p: "cap_permitted (task_cred user_task) = cap_empty_set" by (simp add: user_task_def user_cred_def cap_empty_set_def)
  show ?thesis
    using unprivileged_confined [OF refused_reach example_tasks_ok(2) p refl refl] by (simp add: user_task_def user_cred_def)
qed

lemma example_setuid:
  "sys_setuid plenty 1000 root_task = (Inr 0, snd (sys_setuid plenty 1000 root_task))" "capable (task_cred root_task) CAP_SETUID"
  "0 \<in> {cr_uid (task_cred root_task), cr_euid (task_cred root_task), cr_suid (task_cred root_task)}"
  "\<not> issecure (task_cred root_task) SECURE_KEEP_CAPS" "\<not> issecure (task_cred root_task) SECURE_NO_SETUID_FIXUP"
proof -
  have "fst (sys_setuid plenty 1000 root_task) = Inr 0"
    by (simp add: sys_setuid_def plenty_def root_task_def user_cred_def capable_def cap_capable_def CAP_SETUID_def CAP_NET_RAW_def
        CAP_NET_ADMIN_def set_user_def finish_setuid_def cap_task_fix_setuid_def Let_def cap_raised_def CAP_FULL_SET_def cap_word_def
        CAP_TO_INDEX_def CAP_TO_MASK_def push_bit_eq_mult word_le_nat_alt split: sum.splits)
  then show "sys_setuid plenty 1000 root_task = (Inr 0, snd (sys_setuid plenty 1000 root_task))" by (metis prod.collapse)
  show "capable (task_cred root_task) CAP_SETUID"
    by (simp add: capable_effective root_task_def user_cred_def CAP_SETUID_def cap_raised_def CAP_FULL_SET_def cap_word_def
        CAP_TO_INDEX_def CAP_TO_MASK_def push_bit_eq_mult CAP_NET_RAW_def CAP_NET_ADMIN_def)
  show "0 \<in> {cr_uid (task_cred root_task), cr_euid (task_cred root_task), cr_suid (task_cred root_task)}"
    "\<not> issecure (task_cred root_task) SECURE_KEEP_CAPS" "\<not> issecure (task_cred root_task) SECURE_NO_SETUID_FIXUP"
    by (simp_all add: root_task_def user_cred_def issecure_def)
qed

text \<open>C8.  Dropping root is final.  If a task one of whose user ids is 0, allowed to change users and without the flags
  that keep its capabilities, succeeds in \<^verbatim>\<open>setuid\<close> to another user, then at once and after any later calls short of
  running a program all its user ids are that user and it has no capability.\<close>

theorem setuid_drops_root:
  assumes "sys_setuid env u t = (Inr r, t')" and "u \<noteq> 0" and "cred_ok (task_cred t)" and "capable (task_cred t) CAP_SETUID"
    and "0 \<in> {cr_uid (task_cred t), cr_euid (task_cred t), cr_suid (task_cred t)}"
    and "\<not> issecure (task_cred t) SECURE_KEEP_CAPS" and "\<not> issecure (task_cred t) SECURE_NO_SETUID_FIXUP" and "cred_reach t' v"
  shows "cr_uid (task_cred v) = u \<and> cr_euid (task_cred v) = u \<and> cr_suid (task_cred v) = u \<and> cr_fsuid (task_cred v) = u \<and>
         cap_permitted (task_cred v) = cap_empty_set \<and> cap_effective (task_cred v) = cap_empty_set"
  by (rule setuid_final [OF assms])

theorem setuid_drops_root_witness:
  "cr_suid (task_cred (snd (sys_setuid plenty 1000 root_task))) = 1000 \<and>
   cap_permitted (task_cred (snd (sys_setuid plenty 1000 root_task))) = cap_empty_set"
  using setuid_drops_root [OF example_setuid(1) _ example_tasks_ok(1) example_setuid(2-5) cred_here] by simp

text \<open>C9.  A task that is traced by a tracer without the right to trace any task, or shares its file system information
  (flags other than \<^verbatim>\<open>LSM_UNSAFE_PTRACE_CAP\<close>, which is 4), gains nothing from the program it runs: if it may not change users, its effective ids become its real ids whatever the set-id bits of the program say, and in any case
  its new permitted set lies within its old one, whatever the program's file capabilities and root's privileges.\<close>

theorem traced_exec_gains_nothing:
  assumes "exec_creds env p t = (Inr r, t')" and "exec_unsafe p AND NOT 4 \<noteq> 0"
  shows "cap_issubset (cap_permitted (task_cred t')) (cap_permitted (task_cred t)) \<and> cr_uid (task_cred t') = cr_uid (task_cred t) \<and>
     (\<not> capable (task_cred t) CAP_SETUID \<longrightarrow>
       cr_euid (task_cred t') = cr_uid (task_cred t) \<and> cr_suid (task_cred t') = cr_uid (task_cred t) \<and> cr_fsuid (task_cred t') = cr_uid (task_cred t) \<and>
       cr_egid (task_cred t') = cr_gid (task_cred t) \<and> cr_sgid (task_cred t') = cr_gid (task_cred t) \<and> cr_fsgid (task_cred t') = cr_gid (task_cred t))"
  using exec_unsafe_result [OF assms] .

text \<open>A program owned by root that any user may run with root's rights, run under a tracer.\<close>

definition traced_su :: program where
  "traced_su = \<lparr>i_mode = 0x9ED, i_uid = 0, i_gid = 0, mnt_nosuid = False, xattr_caps = None, exec_unsafe = 2, file_caps_enabled = True,
     global_init = False, audit_ok = True\<rparr>"

theorem traced_exec_gains_nothing_witness:
  "fst (exec_creds plenty traced_su user_task) = Inr 0 \<and> cr_euid (task_cred (snd (exec_creds plenty traced_su user_task))) = 1000 \<and>
   cap_permitted (task_cred (snd (exec_creds plenty traced_su user_task))) = cap_empty_set"
proof -
  have f: "fst (exec_creds plenty traced_su user_task) = Inr 0" by code_simp
  then have e: "exec_creds plenty traced_su user_task = (Inr 0, snd (exec_creds plenty traced_su user_task))" by (metis prod.collapse)
  have "exec_unsafe traced_su AND NOT 4 \<noteq> 0" by (simp add: traced_su_def)
  moreover have "\<not> capable (task_cred user_task) CAP_SETUID" "cap_permitted (task_cred user_task) = cap_empty_set" "cr_uid (task_cred user_task) = 1000"
    by (simp_all add: capable_effective user_task_def user_cred_def cap_raised_def cap_word_def cap_empty_set_def)
  ultimately show ?thesis using traced_exec_gains_nothing [OF e] f by simp
qed

text \<open>C19.  Locked rules stay locked.  Through any calls, running programs included, each of the three lock bits of the
  secure bits that is set stays set, and the rule it locks keeps its value, with one exception that is part of
  the interface: running a program turns off keeping capabilities, even when that rule is locked.  Short of running a program
  there is no exception.\<close>

theorem securebits_locked:
  assumes "cred_history t u" and "i \<in> {SECURE_NOROOT, SECURE_NO_SETUID_FIXUP, SECURE_KEEP_CAPS}" and "issecure (task_cred t) (i + 1)"
  shows "issecure (task_cred u) (i + 1) \<and>
     (issecure (task_cred u) i = issecure (task_cred t) i \<or> i = SECURE_KEEP_CAPS \<and> \<not> issecure (task_cred u) i) \<and>
     (cred_reach t u \<longrightarrow> issecure (task_cred u) i = issecure (task_cred t) i)"
proof -
  have "locks_kept ex (securebits (task_cred t)) (task_cred t)" for ex by (simp add: locks_kept_def)
  then have "locks_kept True (securebits (task_cred t)) (task_cred u)"
    and "cred_reach t u \<Longrightarrow> locks_kept False (securebits (task_cred t)) (task_cred u)"
    using history_locks [OF assms(1)] reach_locks by blast+
  then show ?thesis using assms(2,3) unfolding locks_kept_def issecure_bit by blast
qed

text \<open>The root task of the example locks \<open>SECURE_NOROOT\<close>, and tries to unlock it.\<close>

definition locked_task :: task where
  "locked_task = snd (cap_task_prctl plenty PR_SET_SECUREBITS 3 root_task)"

definition unlocking_task :: task where
  "unlocking_task = snd (cap_task_prctl plenty PR_SET_SECUREBITS 0 locked_task)"

theorem securebits_locked_witness: "issecure (task_cred unlocking_task) 1 \<and> issecure (task_cred unlocking_task) SECURE_NOROOT"
proof -
  have h: "cred_history locked_task unlocking_task"
  proof (rule history_call [OF history_here])
    show "cred_exec plenty (C_prctl PR_SET_SECUREBITS 0) locked_task =
        Some (fst (cap_task_prctl plenty PR_SET_SECUREBITS 0 locked_task), unlocking_task)"
      by (simp add: unlocking_task_def)
  qed
  have "issecure (task_cred locked_task) 1" "issecure (task_cred locked_task) SECURE_NOROOT" by code_simp+
  then show ?thesis using securebits_locked [OF h, of SECURE_NOROOT] by (simp add: SECURE_NOROOT_def SECURE_KEEP_CAPS_def)
qed

text \<open>C11.  Setting and getting groups.  After \<^verbatim>\<open>setgroups\<close> succeeds, \<^verbatim>\<open>getgroups\<close> with room for them returns the groups
  given, in ascending order, whatever blocks they are stored in; and the group test of the file system accepts
  exactly those groups and the task's file system group.\<close>

theorem setgroups_getgroups:
  assumes "sys_setgroups env ok m j n us t = Some (Inr r, t')" and "cred_ok (task_cred t)" and "unat n \<le> space" and "n \<noteq> 0"
  shows "unat n \<le> length us \<and> sys_getgroups n space (task_cred t') = Inr (unat n, sort (take (unat n) us)) \<and>
     (\<forall>g. in_group_p (task_cred t') g = (g = cr_fsgid (task_cred t) \<or> g \<in> set (take (unat n) us)))"
proof (rule setgroups_result [OF assms(2), of env ok m j n us])
  fix gi
  assume a: "sys_setgroups env ok m j n us t = Some (Inr 0, commit_creds (env_suid_dumpable env) ((task_cred t)\<lparr>cr_groups := gi\<rparr>) t)"
    "cred_ok ((task_cred t)\<lparr>cr_groups := gi\<rparr>)" "unat n \<le> length us" "mset (gi_list gi) = mset (take (unat n) us)" "ngroups gi = unat n"
  have c: "task_cred t' = (task_cred t)\<lparr>cr_groups := gi\<rparr>" using a(1) assms(1) by auto
  have wf: "gi_wf gi" "sorted (gi_list gi)" using a(2) by (simp_all add: cred_ok_def)
  have "unat n \<le> NGROUPS_MAX" using assms(1) by (auto simp: sys_setgroups_def split: if_splits)
  then have "sint n = int (unat n)" by (simp add: sint_small NGROUPS_MAX_def)
  moreover have "gi_list gi = sort (take (unat n) us)" using properties_for_sort [OF a(4) wf(2)] by simp
  ultimately have "sys_getgroups n space (task_cred t') = Inr (unat n, sort (take (unat n) us))"
    using assms(3,4) a(5) by (simp add: sys_getgroups_def c groups_to_user_correct [OF wf(1)] Let_def)
  then show ?thesis
    using a(3) mset_eq_setD [OF a(4)] by (auto simp: in_group_p_def c groups_search_correct [OF wf])
qed (use assms(1) in auto)

definition grouped_task :: task where
  "grouped_task = snd (the (sys_setgroups plenty True (\<lambda>i. True) (\<lambda>i j. 0) 3 [30, 10, 20] root_task))"

theorem setgroups_getgroups_witness:
  "sys_getgroups 3 8 (task_cred grouped_task) = Inr (3, [10, 20, 30]) \<and> in_group_p (task_cred grouped_task) 20"
proof -
  have c: "capable (task_cred root_task) CAP_SETGID" "prepare_ok plenty" "unat (3 :: u32) \<le> NGROUPS_MAX" "unat (3 :: u32) \<le> length [30, 10, 20 :: gid]"
    "groups_alloc (unat (3 :: u32)) True (\<lambda>i. True) (\<lambda>i j. 0) \<noteq> None"
    by (code_simp, simp_all add: plenty_def NGROUPS_MAX_def groups_alloc_def NGROUPS_SMALL_def Let_def)
  obtain gi where "sys_setgroups plenty True (\<lambda>i. True) (\<lambda>i j. 0) 3 [30, 10, 20] root_task =
      Some (Inr 0, commit_creds (env_suid_dumpable plenty) ((task_cred root_task)\<lparr>cr_groups := gi\<rparr>) root_task)"
    using setgroups_succeeds [OF example_tasks_ok(1) c(1,3,2,5,4)] .
  then have s: "sys_setgroups plenty True (\<lambda>i. True) (\<lambda>i j. 0) 3 [30, 10, 20] root_task = Some (Inr 0, grouped_task)"
    by (simp add: grouped_task_def)
  have "sort (take (unat (3 :: u32)) [30, 10, 20 :: u32]) = [10, 20, 30]" "set (take (unat (3 :: u32)) [30, 10, 20 :: u32]) = {30, 10, 20}"
    by (simp_all add: word_le_nat_alt)
  then show ?thesis using setgroups_getgroups [OF s example_tasks_ok(1), of 8] by simp
qed

text \<open>A member of the Android group for raw sockets, without capabilities.\<close>

definition net_cred :: cred where
  "net_cred = (user_cred 1000)\<lparr>cr_egid := AID_NET_RAW\<rparr>"

definition net_admin_cred :: cred where
  "net_admin_cred = (user_cred 1000)\<lparr>cr_egid := AID_NET_ADMIN\<rparr>"

lemma no_groups_search: "cr_groups c = no_groups \<Longrightarrow> in_egroup_p c g \<longleftrightarrow> g = cr_egid c"
  using groups_search_correct [of no_groups g]
  by (simp add: in_egroup_p_def no_groups_def gi_wf_def gi_list_def gi_flat_def NGROUPS_SMALL_def)

text \<open>C37.  Which capabilities of another task a task can ask about.  The answer that \<^verbatim>\<open>has_capability\<close> gives about a task is
  the one that task would get itself for exactly the capabilities other than \<open>CAP_NET_RAW\<close> and \<open>CAP_NET_ADMIN\<close>: for these two
  the rule of the Android network restrictions looks at the groups of the task that asks.\<close>

theorem network_capability_of_caller:
  "{cap. \<forall>current other. has_capability current other cap = capable other cap} = - {CAP_NET_RAW, CAP_NET_ADMIN}"
proof -
  have "has_capability net_cred (user_cred 0) CAP_NET_RAW \<and> \<not> capable (user_cred 0) CAP_NET_RAW"
    "has_capability net_admin_cred (user_cred 0) CAP_NET_ADMIN \<and> \<not> capable (user_cred 0) CAP_NET_ADMIN"
    by (simp_all add: has_capability_def capable_def cap_capable_def net_cred_def net_admin_cred_def user_cred_def no_groups_search
        AID_NET_RAW_def AID_NET_ADMIN_def cap_raised_def cap_word_def CAP_NET_RAW_def CAP_NET_ADMIN_def)
  moreover have "has_capability current other cap = capable other cap" if "cap \<noteq> CAP_NET_RAW" "cap \<noteq> CAP_NET_ADMIN" for current other cap
    using that by (simp add: has_capability_def capable_def cap_capable_def)
  ultimately show ?thesis by blast
qed

end
