(* ===== verification/File_Access.thy ===== *)
theory File_Access
  imports Posix_Acl Credentials
begin

text \<open>
  Access to the files of an in-memory file system: the permission check of \<^verbatim>\<open>fs/namei.c\<close>, changes of attributes,
  \<^verbatim>\<open>fs/attr.c\<close> with the calls of \<^verbatim>\<open>fs/open.c\<close>, the access control lists of \<^verbatim>\<open>fs/generic_acl.c\<close>, and from \<^verbatim>\<open>mm/shmem.c\<close> and
  \<^verbatim>\<open>fs/inode.c\<close> what the file system does with them.  Device access groups are not configured, and the files
  carry no capabilities.
\<close>

section \<open>Inodes\<close>

record inode =
  ino_mode :: u16
  ino_uid :: uid
  ino_gid :: gid
  ino_size :: int
  i_acl :: "posix_acl option"
  i_default_acl :: "posix_acl option"
  is_append :: bool
  is_immutable :: bool
  is_swapfile :: bool

record super_block =
  sb_rdonly :: bool
  sb_posixacl :: bool
  s_maxbytes :: int

definition S_IFMT :: u16 where "S_IFMT = 0xF000"
definition S_IFLNK :: u16 where "S_IFLNK = 0xA000"
definition S_IFREG :: u16 where "S_IFREG = 0x8000"
definition S_IFDIR :: u16 where "S_IFDIR = 0x4000"
definition S_ISVTX :: u16 where "S_ISVTX = 0x200"
definition S_IXUGO :: u16 where "S_IXUGO = 0x49"
definition S_IALLUGO :: u16 where "S_IALLUGO = S_ISUID OR S_ISGID OR S_ISVTX OR S_IRWXUGO"

definition S_ISLNK :: "u16 \<Rightarrow> bool" where "S_ISLNK m \<longleftrightarrow> m AND S_IFMT = S_IFLNK"
definition S_ISREG :: "u16 \<Rightarrow> bool" where "S_ISREG m \<longleftrightarrow> m AND S_IFMT = S_IFREG"
definition S_ISDIR :: "u16 \<Rightarrow> bool" where "S_ISDIR m \<longleftrightarrow> m AND S_IFMT = S_IFDIR"

definition MAY_EXEC :: u32 where "MAY_EXEC = 1"
definition MAY_WRITE :: u32 where "MAY_WRITE = 2"
definition MAY_READ :: u32 where "MAY_READ = 4"

definition is_owner_or_cap :: "cred \<Rightarrow> inode \<Rightarrow> bool" where
  "is_owner_or_cap current inode \<longleftrightarrow> cr_fsuid current = ino_uid inode \<or> capable current CAP_FOWNER"

definition execute_ok :: "inode \<Rightarrow> bool" where
  "execute_ok inode \<longleftrightarrow> ino_mode inode AND S_IXUGO \<noteq> 0 \<or> S_ISDIR (ino_mode inode)"

section \<open>Lists of an inode\<close>

text \<open>The lists of an in-memory inode are always at hand; the mark for a list that has not been read yet does not
  occur.\<close>

datatype acl_type = ACL_TYPE_ACCESS | ACL_TYPE_DEFAULT

definition get_cached_acl :: "inode \<Rightarrow> acl_type \<Rightarrow> posix_acl option" where
  "get_cached_acl inode type = (case type of ACL_TYPE_ACCESS \<Rightarrow> i_acl inode | ACL_TYPE_DEFAULT \<Rightarrow> i_default_acl inode)"

definition negative_cached_acl :: "inode \<Rightarrow> acl_type \<Rightarrow> bool" where
  "negative_cached_acl inode type = (get_cached_acl inode type = None)"

definition set_cached_acl :: "inode \<Rightarrow> acl_type \<Rightarrow> posix_acl option \<Rightarrow> inode" where
  "set_cached_acl inode type acl = (case type of
     ACL_TYPE_ACCESS \<Rightarrow> inode\<lparr>i_acl := acl\<rparr> | ACL_TYPE_DEFAULT \<Rightarrow> inode\<lparr>i_default_acl := acl\<rparr>)"

definition cache_no_acl :: "inode \<Rightarrow> inode" where
  "cache_no_acl inode = inode\<lparr>i_acl := None, i_default_acl := None\<rparr>"

definition acl_xname :: "acl_type \<Rightarrow> string" where
  "acl_xname type = (case type of ACL_TYPE_ACCESS \<Rightarrow> ''system.posix_acl_access'' | ACL_TYPE_DEFAULT \<Rightarrow> ''system.posix_acl_default'')"

text \<open>The size of the attribute's name and what is copied to a list of the given size.\<close>

definition generic_acl_list :: "inode \<Rightarrow> nat option \<Rightarrow> acl_type \<Rightarrow> nat \<times> string" where
  "generic_acl_list inode space type = (case get_cached_acl inode type of
     None \<Rightarrow> (0, [])
   | Some acl \<Rightarrow>
      (let xname = acl_xname type; n = length xname + 1 in
       case space of None \<Rightarrow> (n, []) | Some k \<Rightarrow> if n \<le> k then (n, xname @ [CHR 0x00]) else (n, [])))"

definition generic_acl_get :: "inode \<Rightarrow> string \<Rightarrow> nat option \<Rightarrow> acl_type \<Rightarrow> (nat \<times> u8 list) kres" where
  "generic_acl_get inode name buffer type =
     (if name \<noteq> [] then Inl EINVAL
      else case get_cached_acl inode type of
        None \<Rightarrow> Inl ENODATA
      | Some acl \<Rightarrow> posix_acl_to_xattr acl buffer)"

definition generic_acl_set :: "cred \<Rightarrow> bool \<Rightarrow> inode \<Rightarrow> string \<Rightarrow> u8 list option \<Rightarrow> acl_type \<Rightarrow> unit kres \<times> inode" where
  "generic_acl_set current mem inode name val type =
     (if name \<noteq> [] then (Inl EINVAL, inode)
      else if S_ISLNK (ino_mode inode) then (Inl EOPNOTSUPP, inode)
      else if \<not> is_owner_or_cap current inode then (Inl EPERM, inode)
      else case posix_acl_from_xattr mem val of
        Inl e \<Rightarrow> (Inl e, inode)
      | Inr None \<Rightarrow> (Inr (), set_cached_acl inode type None)
      | Inr (Some acl) \<Rightarrow>
         (case posix_acl_valid acl of
            Inl e \<Rightarrow> (Inl e, inode)
          | Inr _ \<Rightarrow>
             (case type of
                ACL_TYPE_ACCESS \<Rightarrow>
                 (case posix_acl_equiv_mode acl (ino_mode inode) of
                    Inl e \<Rightarrow> (Inl e, inode)
                  | Inr (not_equiv, mode) \<Rightarrow>
                      (Inr (), set_cached_acl (inode\<lparr>ino_mode := mode\<rparr>) type (if not_equiv then Some acl else None)))
              | ACL_TYPE_DEFAULT \<Rightarrow>
                  if \<not> S_ISDIR (ino_mode inode) then (Inl EINVAL, inode)
                  else (Inr (), set_cached_acl inode type (Some acl)))))"

text \<open>\<open>mem1\<close> and \<open>mem2\<close> say whether the two copies of the directory's list can be allocated.\<close>

definition generic_acl_init :: "u16 \<Rightarrow> bool \<Rightarrow> bool \<Rightarrow> inode \<Rightarrow> inode \<Rightarrow> unit kres \<times> inode" where
  "generic_acl_init umask mem1 mem2 inode dir =
     (let mode = ino_mode inode; inode = inode\<lparr>ino_mode := mode AND NOT umask\<rparr> in
      case (if \<not> S_ISLNK (ino_mode inode) then get_cached_acl dir ACL_TYPE_DEFAULT else None) of
        None \<Rightarrow> (Inr (), inode)
      | Some acl \<Rightarrow>
          if S_ISDIR (ino_mode inode) \<and> \<not> mem1 then (Inl ENOMEM, inode)
          else let inode = (if S_ISDIR (ino_mode inode) then set_cached_acl inode ACL_TYPE_DEFAULT (Some acl) else inode) in
            if \<not> mem2 then (Inl ENOMEM, inode)
            else (case posix_acl_create_masq acl mode of
                    (Inl e, _) \<Rightarrow> (Inr (), inode)
                  | (Inr not_equiv, clone, mode) \<Rightarrow>
                     (let inode = inode\<lparr>ino_mode := mode\<rparr> in
                      (Inr (), if not_equiv then set_cached_acl inode ACL_TYPE_ACCESS (Some clone) else inode))))"

definition generic_acl_chmod :: "bool \<Rightarrow> inode \<Rightarrow> unit kres \<times> inode" where
  "generic_acl_chmod mem inode =
     (if S_ISLNK (ino_mode inode) then (Inl EOPNOTSUPP, inode)
      else case get_cached_acl inode ACL_TYPE_ACCESS of
        None \<Rightarrow> (Inr (), inode)
      | Some acl \<Rightarrow>
          if \<not> mem then (Inl ENOMEM, inode)
          else (case posix_acl_chmod_masq acl (ino_mode inode) of
                  (Inl e, _) \<Rightarrow> (Inl e, inode)
                | (Inr _, clone) \<Rightarrow> (Inr (), set_cached_acl inode ACL_TYPE_ACCESS (Some clone))))"

definition generic_check_acl :: "cred \<Rightarrow> inode \<Rightarrow> u32 \<Rightarrow> bool \<Rightarrow> unit kres" where
  "generic_check_acl current inode want rcu =
     (if rcu then (if \<not> negative_cached_acl inode ACL_TYPE_ACCESS then Inl ECHILD else Inl EAGAIN)
      else case get_cached_acl inode ACL_TYPE_ACCESS of
        Some acl \<Rightarrow> posix_acl_permission (ino_uid inode) (ino_gid inode) current acl want
      | None \<Rightarrow> Inl EAGAIN)"

section \<open>Permission\<close>

definition acl_permission_check :: "super_block \<Rightarrow> cred \<Rightarrow> inode \<Rightarrow> u32 \<Rightarrow> bool \<Rightarrow> unit kres" where
  "acl_permission_check sb current inode want rcu =
     (let mode = ino_mode inode; want = want AND (MAY_READ OR MAY_WRITE OR MAY_EXEC);
          final = (\<lambda>mode :: u16. if want AND NOT (ucast mode) = 0 then Inr () else Inl EACCES);
          by_group = (\<lambda>u :: unit. if in_group_p current (ino_gid inode) then final (drop_bit 3 mode) else final mode) in
      if cr_fsuid current = ino_uid inode then final (drop_bit 6 mode)
      else if sb_posixacl sb \<and> mode AND S_IRWXG \<noteq> 0 then
        (case generic_check_acl current inode want rcu of
           Inl EAGAIN \<Rightarrow> by_group ()
         | r \<Rightarrow> r)
      else by_group ())"

definition generic_permission :: "super_block \<Rightarrow> cred \<Rightarrow> inode \<Rightarrow> u32 \<Rightarrow> bool \<Rightarrow> unit kres" where
  "generic_permission sb current inode want rcu =
     (let ret = acl_permission_check sb current inode want rcu in
      if ret \<noteq> Inl EACCES then ret
      else if (want AND MAY_EXEC = 0 \<or> execute_ok inode) \<and> capable current CAP_DAC_OVERRIDE then Inr ()
      else let want = want AND (MAY_READ OR MAY_WRITE OR MAY_EXEC) in
        if (want = MAY_READ \<or> S_ISDIR (ino_mode inode) \<and> want AND MAY_WRITE = 0) \<and> capable current CAP_DAC_READ_SEARCH then Inr ()
        else Inl EACCES)"

definition inode_permission :: "super_block \<Rightarrow> cred \<Rightarrow> inode \<Rightarrow> u32 \<Rightarrow> unit kres" where
  "inode_permission sb current inode want =
     (let mode = ino_mode inode in
      if want AND MAY_WRITE \<noteq> 0 \<and> sb_rdonly sb \<and> (S_ISREG mode \<or> S_ISDIR mode \<or> S_ISLNK mode) then Inl EROFS
      else if want AND MAY_WRITE \<noteq> 0 \<and> is_immutable inode then Inl EACCES
      else generic_permission sb current inode want False)"

section \<open>Changing attributes\<close>

text \<open>The attributes to change; times are not kept.\<close>

record iattr =
  ia_mode :: "u16 option"
  ia_uid :: "uid option"
  ia_gid :: "gid option"
  ia_size :: "int option"
  ia_ctime :: bool
  ia_times_set :: bool
  ia_time_values_set :: bool
  ia_force :: bool
  ia_kill_suid :: bool
  ia_kill_sgid :: bool

definition RLIM_INFINITY :: u32 where "RLIM_INFINITY = NOT 0"

definition inode_newsize_ok :: "super_block \<Rightarrow> u32 \<Rightarrow> inode \<Rightarrow> int \<Rightarrow> unit kres" where
  "inode_newsize_ok sb limit inode offset =
     (if ino_size inode < offset then
        (if limit \<noteq> RLIM_INFINITY \<and> offset > uint limit then Inl EFBIG
         else if offset > s_maxbytes sb then Inl EFBIG else Inr ())
      else if is_swapfile inode then Inl ETXTBSY else Inr ())"

text \<open>The check may take the set-group-id bit out of the mode that is asked for.\<close>

definition inode_change_ok :: "super_block \<Rightarrow> u32 \<Rightarrow> cred \<Rightarrow> inode \<Rightarrow> iattr \<Rightarrow> iattr kres" where
  "inode_change_ok sb limit current inode attr =
     (case (case ia_size attr of None \<Rightarrow> Inr () | Some n \<Rightarrow> inode_newsize_ok sb limit inode n) of
        Inl e \<Rightarrow> Inl e
      | Inr _ \<Rightarrow>
         if ia_force attr then Inr attr
         else if (case ia_uid attr of None \<Rightarrow> False | Some u \<Rightarrow> (cr_fsuid current \<noteq> ino_uid inode \<or> u \<noteq> ino_uid inode) \<and> \<not> capable current CAP_CHOWN)
         then Inl EPERM
         else if (case ia_gid attr of None \<Rightarrow> False | Some g \<Rightarrow>
                   (cr_fsuid current \<noteq> ino_uid inode \<or> \<not> in_group_p current g \<and> g \<noteq> ino_gid inode) \<and> \<not> capable current CAP_CHOWN)
         then Inl EPERM
         else if ia_mode attr \<noteq> None \<and> \<not> is_owner_or_cap current inode then Inl EPERM
         else let attr = (if \<not> in_group_p current (case ia_gid attr of Some g \<Rightarrow> g | None \<Rightarrow> ino_gid inode) \<and> \<not> capable current CAP_FSETID
                          then attr\<lparr>ia_mode := map_option (\<lambda>m. m AND NOT S_ISGID) (ia_mode attr)\<rparr> else attr) in
           if (ia_times_set attr \<or> ia_time_values_set attr) \<and> \<not> is_owner_or_cap current inode then Inl EPERM
           else Inr attr)"

definition setattr_copy :: "cred \<Rightarrow> inode \<Rightarrow> iattr \<Rightarrow> inode" where
  "setattr_copy current inode attr =
     (let inode = (case ia_uid attr of None \<Rightarrow> inode | Some u \<Rightarrow> inode\<lparr>ino_uid := u\<rparr>);
          inode = (case ia_gid attr of None \<Rightarrow> inode | Some g \<Rightarrow> inode\<lparr>ino_gid := g\<rparr>)
      in case ia_mode attr of
           None \<Rightarrow> inode
         | Some mode \<Rightarrow>
             inode\<lparr>ino_mode := (if \<not> in_group_p current (ino_gid inode) \<and> \<not> capable current CAP_FSETID then mode AND NOT S_ISGID else mode)\<rparr>)"

definition simple_setattr :: "super_block \<Rightarrow> u32 \<Rightarrow> cred \<Rightarrow> inode \<Rightarrow> iattr \<Rightarrow> unit kres \<times> inode" where
  "simple_setattr sb limit current inode attr = (case inode_change_ok sb limit current inode attr of
     Inl e \<Rightarrow> (Inl e, inode)
   | Inr attr \<Rightarrow>
      (let inode = (case ia_size attr of None \<Rightarrow> inode | Some n \<Rightarrow> inode\<lparr>ino_size := n\<rparr>)
       in (Inr (), setattr_copy current inode attr)))"

text \<open>What happens to the pages of a file whose size changes is not modelled.\<close>

definition shmem_notify_change :: "super_block \<Rightarrow> u32 \<Rightarrow> cred \<Rightarrow> bool \<Rightarrow> inode \<Rightarrow> iattr \<Rightarrow> unit kres \<times> inode" where
  "shmem_notify_change sb limit current mem inode attr = (case inode_change_ok sb limit current inode attr of
     Inl e \<Rightarrow> (Inl e, inode)
   | Inr attr \<Rightarrow>
      (let inode = (case ia_size attr of None \<Rightarrow> inode | Some n \<Rightarrow> if S_ISREG (ino_mode inode) \<and> n \<noteq> ino_size inode then inode\<lparr>ino_size := n\<rparr> else inode);
           inode = setattr_copy current inode attr
       in if ia_mode attr \<noteq> None then generic_acl_chmod mem inode else (Inr (), inode)))"

text \<open>The set-id bits to remove become a change of mode, which must not be asked for at the same time; \<open>None\<close> is
  the kernel stopping there.\<close>

definition kill_set_id :: "u16 \<Rightarrow> iattr \<Rightarrow> iattr" where
  "kill_set_id mode attr =
     (let attr = (if ia_kill_suid attr \<and> mode AND S_ISUID \<noteq> 0 then attr\<lparr>ia_mode := Some (mode AND NOT S_ISUID)\<rparr> else attr)
      in if ia_kill_sgid attr \<and> mode AND (S_ISGID OR S_IXGRP) = S_ISGID OR S_IXGRP
         then attr\<lparr>ia_mode := Some ((case ia_mode attr of Some m \<Rightarrow> m | None \<Rightarrow> mode) AND NOT S_ISGID)\<rparr> else attr)"

definition notify_change :: "super_block \<Rightarrow> u32 \<Rightarrow> cred \<Rightarrow> bool \<Rightarrow> inode \<Rightarrow> iattr \<Rightarrow> (unit kres \<times> inode) option" where
  "notify_change sb limit current mem inode attr =
     (if (ia_mode attr \<noteq> None \<or> ia_uid attr \<noteq> None \<or> ia_gid attr \<noteq> None \<or> ia_times_set attr) \<and> (is_immutable inode \<or> is_append inode)
      then Some (Inl EPERM, inode)
      else if (ia_kill_suid attr \<or> ia_kill_sgid attr) \<and> ia_mode attr \<noteq> None then None
      else let attr = kill_set_id (ino_mode inode) attr in
        if ia_mode attr = None \<and> ia_uid attr = None \<and> ia_gid attr = None \<and> ia_size attr = None \<and> \<not> ia_ctime attr \<and> \<not> ia_times_set attr \<and>
           \<not> ia_time_values_set attr \<and> \<not> ia_force attr
        then Some (Inr (), inode)
        else if S_ISLNK (ino_mode inode) then Some (simple_setattr sb limit current inode attr)
        else Some (shmem_notify_change sb limit current mem inode attr))"

definition no_change :: iattr where
  "no_change = \<lparr>ia_mode = None, ia_uid = None, ia_gid = None, ia_size = None, ia_ctime = False, ia_times_set = False,
     ia_time_values_set = False, ia_force = False, ia_kill_suid = False, ia_kill_sgid = False\<rparr>"

definition sys_fchmodat :: "super_block \<Rightarrow> u32 \<Rightarrow> cred \<Rightarrow> bool \<Rightarrow> inode \<Rightarrow> u16 \<Rightarrow> (unit kres \<times> inode) option" where
  "sys_fchmodat sb limit current mem inode mode =
     (let mode = (if mode = NOT 0 then ino_mode inode else mode)
      in notify_change sb limit current mem inode
           (no_change\<lparr>ia_mode := Some ((mode AND S_IALLUGO) OR (ino_mode inode AND NOT S_IALLUGO)), ia_ctime := True\<rparr>))"

definition chown_common :: "super_block \<Rightarrow> u32 \<Rightarrow> cred \<Rightarrow> bool \<Rightarrow> inode \<Rightarrow> uid \<Rightarrow> gid \<Rightarrow> (unit kres \<times> inode) option" where
  "chown_common sb limit current mem inode user grp =
     (let attr = no_change\<lparr>ia_ctime := True\<rparr>;
          attr = (if user \<noteq> NOT 0 then attr\<lparr>ia_uid := Some user\<rparr> else attr);
          attr = (if grp \<noteq> NOT 0 then attr\<lparr>ia_gid := Some grp\<rparr> else attr);
          attr = (if \<not> S_ISDIR (ino_mode inode) then attr\<lparr>ia_kill_suid := True, ia_kill_sgid := True\<rparr> else attr)
      in notify_change sb limit current mem inode attr)"

section \<open>New files\<close>

definition inode_init_owner :: "cred \<Rightarrow> inode \<Rightarrow> inode \<Rightarrow> u16 \<Rightarrow> inode" where
  "inode_init_owner current inode dir mode =
     (let inode = inode\<lparr>ino_uid := cr_fsuid current\<rparr> in
      if ino_mode dir AND S_ISGID \<noteq> 0
      then inode\<lparr>ino_gid := ino_gid dir, ino_mode := (if S_ISDIR mode then mode OR S_ISGID else mode)\<rparr>
      else inode\<lparr>ino_gid := cr_fsgid current, ino_mode := mode\<rparr>)"

definition BOGO_DIRENT_SIZE :: int where "BOGO_DIRENT_SIZE = 20"

text \<open>The fresh inode of the allocator, if there is one.\<close>

definition shmem_get_inode :: "cred \<Rightarrow> inode option \<Rightarrow> inode \<Rightarrow> u16 \<Rightarrow> inode option" where
  "shmem_get_inode current fresh dir mode = (case fresh of
     None \<Rightarrow> None
   | Some inode \<Rightarrow>
      (let inode = cache_no_acl (inode_init_owner current inode dir mode)
       in Some (if mode AND S_IFMT = S_IFDIR then inode\<lparr>ino_size := 2 * BOGO_DIRENT_SIZE\<rparr> else inode)))"

text \<open>The result is the new inode and the directory as it is then.\<close>

definition shmem_mknod :: "cred \<Rightarrow> u16 \<Rightarrow> bool \<Rightarrow> bool \<Rightarrow> inode option \<Rightarrow> inode \<Rightarrow> u16 \<Rightarrow> (inode \<times> inode) kres" where
  "shmem_mknod current umask mem1 mem2 fresh dir mode = (case shmem_get_inode current fresh dir mode of
     None \<Rightarrow> Inl ENOSPC
   | Some inode \<Rightarrow>
      (case generic_acl_init umask mem1 mem2 inode dir of
         (Inl e, _) \<Rightarrow> Inl e
       | (Inr _, inode) \<Rightarrow> Inr (inode, dir\<lparr>ino_size := ino_size dir + BOGO_DIRENT_SIZE\<rparr>)))"

definition shmem_mkdir :: "cred \<Rightarrow> u16 \<Rightarrow> bool \<Rightarrow> bool \<Rightarrow> inode option \<Rightarrow> inode \<Rightarrow> u16 \<Rightarrow> (inode \<times> inode) kres" where
  "shmem_mkdir current umask mem1 mem2 fresh dir mode = shmem_mknod current umask mem1 mem2 fresh dir (mode OR S_IFDIR)"

definition shmem_create :: "cred \<Rightarrow> u16 \<Rightarrow> bool \<Rightarrow> bool \<Rightarrow> inode option \<Rightarrow> inode \<Rightarrow> u16 \<Rightarrow> (inode \<times> inode) kres" where
  "shmem_create current umask mem1 mem2 fresh dir mode = shmem_mknod current umask mem1 mem2 fresh dir (mode OR S_IFREG)"

section \<open>The file system\<close>

text \<open>A file system is its inodes by number.  It starts as a root directory without lists, and files are created and
  removed, get lists and change mode and owner.  Any allocation may fail; the set \<open>S\<close> has the files whose last change of mode
  failed because their list could not be copied.  The file creation mask has permission bits only, which is all
  \<^verbatim>\<open>umask\<close> lets a task set.\<close>

inductive acl_reach :: "(nat \<Rightarrow> inode option) \<Rightarrow> nat set \<Rightarrow> bool" where
  acl_root: "S_ISDIR (ino_mode root) \<Longrightarrow> acl_reach ((\<lambda>k. None)(0 \<mapsto> cache_no_acl root)) {}"
| acl_create: "acl_reach fs S \<Longrightarrow> fs d = Some dir \<Longrightarrow> fs k = None \<Longrightarrow> umask AND NOT S_IRWXUGO = 0 \<Longrightarrow>
    shmem_mknod current umask mem1 mem2 fresh dir mode = Inr (inode, dir') \<Longrightarrow> acl_reach (fs(d \<mapsto> dir', k \<mapsto> inode)) (S - {k})"
| acl_remove: "acl_reach fs S \<Longrightarrow> acl_reach (fs(k := None)) (S - {k})"
| acl_set: "acl_reach fs S \<Longrightarrow> fs k = Some inode \<Longrightarrow> generic_acl_set current mem inode name val type = (r, inode') \<Longrightarrow>
    acl_reach (fs(k \<mapsto> inode')) (if r = Inr () \<and> type = ACL_TYPE_ACCESS then S - {k} else S)"
| acl_chmod: "acl_reach fs S \<Longrightarrow> fs k = Some inode \<Longrightarrow> sys_fchmodat sb limit current mem inode mode = Some (r, inode') \<Longrightarrow>
    acl_reach (fs(k \<mapsto> inode')) (if r = Inl ENOMEM then insert k S else if r = Inr () then S - {k} else S)"
| acl_chown: "acl_reach fs S \<Longrightarrow> fs k = Some inode \<Longrightarrow> chown_common sb limit current mem inode user grp = Some (r, inode') \<Longrightarrow>
    acl_reach (fs(k \<mapsto> inode')) (if r = Inl ENOMEM then insert k S else S)"

section \<open>Lists and modes agree\<close>

text \<open>The access list is valid, says more than a mode can, and stands for the mode the inode has; the default list is
  valid and belongs to a directory.\<close>

definition acl_ok :: "inode \<Rightarrow> bool" where
  "acl_ok inode \<longleftrightarrow>
     (\<forall>acl. i_acl inode = Some acl \<longrightarrow> posix_acl_valid acl = Inr () \<and> \<not> S_ISLNK (ino_mode inode) \<and>
        posix_acl_equiv_mode acl (ino_mode inode) = Inr (True, ino_mode inode)) \<and>
     (\<forall>acl. i_default_acl inode = Some acl \<longrightarrow> posix_acl_valid acl = Inr () \<and> S_ISDIR (ino_mode inode))"

text \<open>What holds of an inode always, even when a change of mode did not reach its list.\<close>

definition acl_follows :: "inode \<Rightarrow> bool" where
  "acl_follows inode \<longleftrightarrow>
     (\<forall>acl. i_acl inode = Some acl \<longrightarrow> posix_acl_valid acl = Inr () \<and> \<not> S_ISLNK (ino_mode inode) \<and>
        (\<exists>m m'. posix_acl_equiv_mode acl m = Inr (True, m'))) \<and>
     (\<forall>acl. i_default_acl inode = Some acl \<longrightarrow> posix_acl_valid acl = Inr () \<and> S_ISDIR (ino_mode inode))"

lemma acl_ok_follows: "acl_ok inode \<Longrightarrow> acl_follows inode"
  unfolding acl_ok_def acl_follows_def by blast

lemma type_bits:
  "bit S_IFMT n \<longleftrightarrow> 12 \<le> n \<and> n < 16" "bit S_IALLUGO n \<longleftrightarrow> n < 12" "bit S_ISUID n \<longleftrightarrow> n = 11" "bit S_ISGID n \<longleftrightarrow> n = 10"
proof -
  have m: "S_IFMT = push_bit 12 (mask 4)" "S_IALLUGO = mask 12" "S_ISUID = push_bit 11 1" "S_ISGID = push_bit 10 1"
    by (simp_all add: S_IFMT_def S_IALLUGO_def S_ISUID_def S_ISGID_def S_ISVTX_def S_IRWXUGO_def S_IRWXU_def S_IRWXG_def S_IRWXO_def
        mask_eq_exp_minus_1 push_bit_eq_mult)
  show "bit S_IFMT n \<longleftrightarrow> 12 \<le> n \<and> n < 16" "bit S_IALLUGO n \<longleftrightarrow> n < 12" "bit S_ISUID n \<longleftrightarrow> n = 11" "bit S_ISGID n \<longleftrightarrow> n = 10"
    unfolding m bit_mask_iff bit_push_bit_iff bit_1_iff by auto
qed

lemma same_type: "a AND S_IFMT = b AND S_IFMT \<Longrightarrow> S_ISDIR a = S_ISDIR b \<and> S_ISLNK a = S_ISLNK b \<and> S_ISREG a = S_ISREG b"
  by (simp add: S_ISDIR_def S_ISLNK_def S_ISREG_def)

lemma dir_not_link: "S_ISDIR m \<Longrightarrow> \<not> S_ISLNK m"
  by (simp add: S_ISDIR_def S_ISLNK_def S_IFDIR_def S_IFLNK_def)

lemma type_from_rest: "a AND NOT S_IRWXUGO = b AND NOT S_IRWXUGO \<Longrightarrow> a AND S_IFMT = b AND S_IFMT"
  by (auto simp: bit_eq_iff bit_simps type_bits mode_bits)

lemma type_changes:
  "((a AND S_IALLUGO) OR (b AND NOT S_IALLUGO)) AND S_IFMT = b AND S_IFMT" "(a AND NOT S_ISUID) AND S_IFMT = a AND S_IFMT"
  "(a AND NOT S_ISGID) AND S_IFMT = a AND S_IFMT" "(a OR S_ISGID) AND S_IFMT = a AND S_IFMT"
  by (rule bit_word_eqI; auto simp: bit_simps type_bits)+

lemma equiv_mode_idem:
  assumes "posix_acl_valid acl = Inr ()" and "posix_acl_equiv_mode acl mode = Inr (ne, mode')"
  shows "posix_acl_equiv_mode acl mode' = Inr (ne, mode')" and "mode' AND NOT S_IRWXUGO = mode AND NOT S_IRWXUGO"
proof -
  obtain u us g gs ms ot where sh: "acl_shape acl u us g gs ms ot" using valid_shape [OF assms(1)] .
  let ?q = "mode_of (e_perm u) (e_perm (class_entry ms g)) (e_perm ot)"
  have "perm_ok u" "perm_ok (class_entry ms g)" "perm_ok ot" using sh by (auto simp: acl_shape_def class_entry_def)
  then have b: "\<forall>n. bit (e_perm u) n \<or> bit (e_perm (class_entry ms g)) n \<or> bit (e_perm ot) n \<longrightarrow> n < 3" by (auto simp: perm_ok_bit)
  have q: "bit ?q n \<Longrightarrow> n < 9" for n using mode_of_bit [OF b, of n] by (auto split: if_split_asm)
  have m: "mode' = (mode AND NOT S_IRWXUGO) OR ?q" "ne = (ms \<noteq> [])" using assms(2) by (simp_all add: equiv_mode_shape [OF sh])
  have "((mode AND NOT S_IRWXUGO) OR ?q) AND NOT S_IRWXUGO = mode AND NOT S_IRWXUGO"
    by (auto simp: bit_eq_iff bit_simps mode_bits dest: q)
  then show "posix_acl_equiv_mode acl mode' = Inr (ne, mode')" "mode' AND NOT S_IRWXUGO = mode AND NOT S_IRWXUGO"
    unfolding m by (simp_all add: equiv_mode_shape [OF sh])
qed

text \<open>What setting a list can do to an inode.\<close>

lemma acl_set_result:
  assumes "generic_acl_set current mem inode name val type = (r, inode')"
  obtains (same) e where "inode' = inode" and "r = Inl e" | (none) "inode' = set_cached_acl inode type None"
    | (default) acl where "type = ACL_TYPE_DEFAULT" and "posix_acl_valid acl = Inr ()" and "S_ISDIR (ino_mode inode)" and "inode' = inode\<lparr>i_default_acl := Some acl\<rparr>"
    | (access) acl ne mode where "posix_acl_valid acl = Inr ()" and "\<not> S_ISLNK (ino_mode inode)"
        and "posix_acl_equiv_mode acl (ino_mode inode) = Inr (ne, mode)" and "inode' = inode\<lparr>ino_mode := mode, i_acl := if ne then Some acl else None\<rparr>"
proof (cases "name \<noteq> [] \<or> S_ISLNK (ino_mode inode) \<or> \<not> is_owner_or_cap current inode")
  case True
  then show thesis using that(1) assms by (auto simp: generic_acl_set_def split: if_split_asm)
next
  case False
  note g = assms [unfolded generic_acl_set_def]
  show thesis
  proof (cases "posix_acl_from_xattr mem val")
    case (Inl e)
    then show thesis using that(1) g False by auto
  next
    case f: (Inr x)
    show thesis
    proof (cases x)
      case None
      then show thesis using that(2) g False f by simp
    next
      case (Some acl)
      show thesis
      proof (cases "posix_acl_valid acl")
        case (Inl e)
        then show thesis using that(1) [of e] g False f Some by simp
      next
        case (Inr x)
        then have valid: "posix_acl_valid acl = Inr ()" by simp
        show thesis
        proof (cases type)
          case ACL_TYPE_DEFAULT
          then have "inode' = (if S_ISDIR (ino_mode inode) then inode\<lparr>i_default_acl := Some acl\<rparr> else inode)"
            using g False f Some valid by (simp add: set_cached_acl_def split: if_split_asm)
          moreover have "\<exists>e. r = Inl e" if "\<not> S_ISDIR (ino_mode inode)"
            using that g False f Some valid ACL_TYPE_DEFAULT by auto
          ultimately show thesis using that(1) that(3) [OF ACL_TYPE_DEFAULT valid] by (auto split: if_split_asm)
        next
          case ACL_TYPE_ACCESS
          show thesis
          proof (cases "posix_acl_equiv_mode acl (ino_mode inode)")
            case (Inl e)
            then show thesis using that(1) g False f Some valid ACL_TYPE_ACCESS by auto
          next
            case e: (Inr y)
            obtain ne mode where y: "y = (ne, mode)" by (cases y)
            have "inode' = inode\<lparr>ino_mode := mode, i_acl := if ne then Some acl else None\<rparr>"
              using g False f Some valid ACL_TYPE_ACCESS e y by (simp add: set_cached_acl_def)
            then show thesis using that(4) [OF valid] False e y by simp
          qed
        qed
      qed
    qed
  qed
qed

lemma acl_set_ok:
  assumes "acl_follows inode" and "generic_acl_set current mem inode name val type = (r, inode')"
  shows "acl_follows inode'" and "acl_ok inode \<or> r = Inr () \<and> type = ACL_TYPE_ACCESS \<Longrightarrow> acl_ok inode'"
proof -
  have "acl_follows inode' \<and> (acl_ok inode \<or> r = Inr () \<and> type = ACL_TYPE_ACCESS \<longrightarrow> acl_ok inode')"
    using assms(2)
  proof (cases rule: acl_set_result)
    case (access acl ne mode)
    note e = equiv_mode_idem [OF access(1,3)]
    have "acl_ok inode'" using assms(1) access e(1) same_type [OF type_from_rest [OF e(2)]] by (simp add: acl_ok_def acl_follows_def)
    then show ?thesis using acl_ok_follows by blast
  qed (use assms(1) in \<open>auto simp: acl_ok_def acl_follows_def set_cached_acl_def split: acl_type.splits\<close>)
  then show "acl_follows inode'" and "acl_ok inode \<or> r = Inr () \<and> type = ACL_TYPE_ACCESS \<Longrightarrow> acl_ok inode'" by blast+
qed

lemma acl_follows_link: "acl_follows inode \<Longrightarrow> S_ISLNK (ino_mode inode) \<Longrightarrow> acl_ok inode"
  using dir_not_link unfolding acl_follows_def acl_ok_def by blast

text \<open>Changing the mode: the list follows, whatever it stood for before, unless it cannot be copied.\<close>

lemma acl_chmod_follows:
  assumes "acl_follows inode" and "generic_acl_chmod mem inode = (r, inode')"
  shows "acl_follows inode'" and "r \<noteq> Inl ENOMEM \<Longrightarrow> acl_ok inode'"
proof -
  have "acl_follows inode' \<and> (r \<noteq> Inl ENOMEM \<longrightarrow> acl_ok inode')"
  proof (cases "i_acl inode")
    case None
    then have "inode' = inode" using assms by (auto simp: generic_acl_chmod_def get_cached_acl_def split: if_splits)
    then show ?thesis using assms(1) None by (simp add: acl_follows_def acl_ok_def)
  next
    case (Some acl)
    then have v: "posix_acl_valid acl = Inr ()" "\<not> S_ISLNK (ino_mode inode)" and "\<exists>m m'. posix_acl_equiv_mode acl m = Inr (True, m')"
      using assms(1) by (simp_all add: acl_follows_def)
    then obtain m m' where "posix_acl_equiv_mode acl m = Inr (True, m')" by blast
    from chmod_masq_agrees [OF v(1) this, of "ino_mode inode"] obtain acl' where
      a: "posix_acl_chmod_masq acl (ino_mode inode) = (Inr (), acl')" "posix_acl_valid acl' = Inr ()"
      "posix_acl_equiv_mode acl' (ino_mode inode) = Inr (True, ino_mode inode)" by blast
    show ?thesis
    proof (cases mem)
      case True
      then have "inode' = inode\<lparr>i_acl := Some acl'\<rparr>"
        using assms(2) Some v(2) a(1) by (simp add: generic_acl_chmod_def get_cached_acl_def set_cached_acl_def)
      then have "acl_ok inode'" using assms(1) a v(2) by (simp add: acl_follows_def acl_ok_def)
      then show ?thesis using acl_ok_follows by blast
    next
      case False
      then show ?thesis using assms Some v(2) by (simp add: generic_acl_chmod_def get_cached_acl_def)
    qed
  qed
  then show "acl_follows inode'" and "r \<noteq> Inl ENOMEM \<Longrightarrow> acl_ok inode'" by blast+
qed

lemma setattr_copy_keeps:
  "i_acl (setattr_copy current inode attr) = i_acl inode" "i_default_acl (setattr_copy current inode attr) = i_default_acl inode"
  "ia_mode attr = None \<Longrightarrow> ino_mode (setattr_copy current inode attr) = ino_mode inode"
  "ia_mode attr = Some m \<Longrightarrow> m AND S_IFMT = ino_mode inode AND S_IFMT \<Longrightarrow> ino_mode (setattr_copy current inode attr) AND S_IFMT = ino_mode inode AND S_IFMT"
  by (simp_all add: setattr_copy_def Let_def type_changes split: option.splits)

lemma setattr_copy_follows:
  assumes "acl_follows inode" and "\<And>m. ia_mode attr = Some m \<Longrightarrow> m AND S_IFMT = ino_mode inode AND S_IFMT"
  shows "acl_follows (setattr_copy current inode attr)" and "S_ISLNK (ino_mode (setattr_copy current inode attr)) = S_ISLNK (ino_mode inode)"
    and "acl_ok inode \<Longrightarrow> ia_mode attr = None \<Longrightarrow> acl_ok (setattr_copy current inode attr)"
proof -
  let ?i = "setattr_copy current inode attr"
  have t: "ino_mode ?i AND S_IFMT = ino_mode inode AND S_IFMT"
    using setattr_copy_keeps(3,4) assms(2) by (cases "ia_mode attr") auto
  note k = setattr_copy_keeps(1,2) [of current inode attr] and s = same_type [OF t]
  show "acl_follows ?i" using assms(1) s unfolding acl_follows_def k by blast
  show "S_ISLNK (ino_mode ?i) = S_ISLNK (ino_mode inode)" using s by blast
  show "acl_ok ?i" if "acl_ok inode" "ia_mode attr = None"
    using that(1) setattr_copy_keeps(3) [OF that(2)] unfolding acl_ok_def k by simp
qed

lemma change_ok_keeps:
  assumes "inode_change_ok sb limit current inode attr = Inr attr'"
  shows "ia_mode attr' = ia_mode attr \<or> (\<exists>m. ia_mode attr = Some m \<and> ia_mode attr' = Some (m AND NOT S_ISGID))" and "ia_size attr' = ia_size attr"
  using assms by (cases "ia_mode attr"; simp add: inode_change_ok_def Let_def split: sum.splits if_split_asm; auto)+

lemma change_ok_type:
  assumes "inode_change_ok sb limit current inode attr = Inr attr'" and "\<And>m. ia_mode attr = Some m \<Longrightarrow> m AND S_IFMT = t"
  shows "ia_mode attr' = Some m \<Longrightarrow> m AND S_IFMT = t"
  using change_ok_keeps(1) [OF assms(1)] assms(2) by (auto simp: type_changes)

lemma acl_ok_size [simp]: "acl_ok (inode\<lparr>ino_size := n\<rparr>) = acl_ok inode" "acl_follows (inode\<lparr>ino_size := n\<rparr>) = acl_follows inode"
  by (simp_all add: acl_ok_def acl_follows_def)

text \<open>What a change of attributes promises: the list is one that can follow the mode, and it does follow unless it cannot be
  copied, if it did before or a mode is asked for.\<close>

definition follows_change :: "inode \<Rightarrow> iattr \<Rightarrow> unit kres \<Rightarrow> inode \<Rightarrow> bool" where
  "follows_change inode attr r inode' \<longleftrightarrow> acl_follows inode' \<and>
     (r \<noteq> Inl ENOMEM \<longrightarrow> acl_ok inode \<or> r = Inr () \<and> ia_mode attr \<noteq> None \<longrightarrow> acl_ok inode')"

lemma follows_same: "acl_follows inode \<Longrightarrow> follows_change inode attr (Inl e) inode"
  by (simp add: follows_change_def)

lemma follows_ok: "acl_ok inode' \<Longrightarrow> follows_change inode attr r inode'"
  by (simp add: follows_change_def acl_ok_follows)

lemma shmem_notify_ok:
  assumes "acl_follows inode" and "\<And>m. ia_mode attr = Some m \<Longrightarrow> m AND S_IFMT = ino_mode inode AND S_IFMT"
    and "shmem_notify_change sb limit current mem inode attr = (r, inode')"
  shows "follows_change inode attr r inode'"
proof (cases "inode_change_ok sb limit current inode attr")
  case (Inl e)
  then show ?thesis using follows_same [OF assms(1)] assms(3) by (auto simp: shmem_notify_change_def)
next
  case (Inr attr')
  define i1 where "i1 = (case ia_size attr' of None \<Rightarrow> inode | Some n \<Rightarrow> if S_ISREG (ino_mode inode) \<and> n \<noteq> ino_size inode then inode\<lparr>ino_size := n\<rparr> else inode)"
  have i1: "acl_follows i1" "acl_ok i1 = acl_ok inode" "ino_mode i1 = ino_mode inode" using assms(1) by (simp_all add: i1_def split: option.splits)
  have t: "m AND S_IFMT = ino_mode i1 AND S_IFMT" if "ia_mode attr' = Some m" for m
    using change_ok_type [OF Inr assms(2) that] i1(3) by simp
  note f = setattr_copy_follows [OF i1(1) t, of attr' current]
  have n: "(if ia_mode attr' \<noteq> None then generic_acl_chmod mem (setattr_copy current i1 attr') else (Inr (), setattr_copy current i1 attr')) = (r, inode')"
    using assms(3) unfolding shmem_notify_change_def Inr sum.case Let_def i1_def .
  have m: "ia_mode attr' = None \<longleftrightarrow> ia_mode attr = None" using change_ok_keeps(1) [OF Inr] by auto
  show ?thesis
  proof (cases "ia_mode attr' = None")
    case True
    then show ?thesis using n f(1,3) i1(2) m by (simp add: follows_change_def)
  next
    case False
    then have "generic_acl_chmod mem (setattr_copy current i1 attr') = (r, inode')" using n by simp
    from acl_chmod_follows [OF f(1) this] show ?thesis by (simp add: follows_change_def)
  qed
qed

lemma simple_setattr_ok:
  assumes "acl_follows inode" and "S_ISLNK (ino_mode inode)" and "\<And>m. ia_mode attr = Some m \<Longrightarrow> m AND S_IFMT = ino_mode inode AND S_IFMT"
    and "simple_setattr sb limit current inode attr = (r, inode')"
  shows "follows_change inode attr r inode'"
proof (cases "inode_change_ok sb limit current inode attr")
  case (Inl e)
  then show ?thesis using follows_same [OF assms(1)] assms(4) by (auto simp: simple_setattr_def)
next
  case (Inr attr')
  define i1 where "i1 = (case ia_size attr' of None \<Rightarrow> inode | Some n \<Rightarrow> inode\<lparr>ino_size := n\<rparr>)"
  have i1: "acl_follows i1" "ino_mode i1 = ino_mode inode" using assms(1) by (simp_all add: i1_def split: option.splits)
  have t: "m AND S_IFMT = ino_mode i1 AND S_IFMT" if "ia_mode attr' = Some m" for m
    using change_ok_type [OF Inr assms(3) that] i1(2) by simp
  have "inode' = setattr_copy current i1 attr'" using assms(4) Inr by (simp add: simple_setattr_def Let_def i1_def)
  then have "acl_ok inode'" using setattr_copy_follows(1,2) [OF i1(1) t, of attr' current] i1(2) assms(2) acl_follows_link by simp
  then show ?thesis by (rule follows_ok)
qed

lemma kill_set_id_type:
  assumes "ia_mode attr = None" and "ia_mode (kill_set_id mode attr) = Some m"
  shows "m AND S_IFMT = mode AND S_IFMT"
  using assms by (auto simp: kill_set_id_def Let_def type_changes split: if_split_asm option.splits)

lemma kill_set_id_none: "\<not> ia_kill_suid attr \<Longrightarrow> \<not> ia_kill_sgid attr \<Longrightarrow> kill_set_id mode attr = attr"
  by (simp add: kill_set_id_def)

lemma notify_change_ok:
  assumes "acl_follows inode" and "notify_change sb limit current mem inode attr = Some (r, inode')"
    and "\<And>m. ia_mode attr = Some m \<Longrightarrow> m AND S_IFMT = ino_mode inode AND S_IFMT"
  shows "follows_change inode attr r inode'"
proof -
  let ?a = "kill_set_id (ino_mode inode) attr" and ?free = "\<not> ((ia_kill_suid attr \<or> ia_kill_sgid attr) \<and> ia_mode attr \<noteq> None)"
  have t: "m AND S_IFMT = ino_mode inode AND S_IFMT" if "ia_mode ?a = Some m" ?free for m
    using that kill_set_id_type [of attr "ino_mode inode" m] kill_set_id_none [of attr "ino_mode inode"] assms(3) by (cases "ia_mode attr") auto
  have asked: "follows_change inode ?a r inode' \<Longrightarrow> follows_change inode attr r inode'" if ?free
    using that kill_set_id_none [of attr "ino_mode inode"] by (auto simp: follows_change_def)
  consider (refused) e where "inode' = inode" "r = Inl e"
    | (idle) "inode' = inode" "r = Inr ()" "ia_mode ?a = None" ?free
    | (link) "S_ISLNK (ino_mode inode)" "simple_setattr sb limit current inode ?a = (r, inode')" ?free
    | (other) "shmem_notify_change sb limit current mem inode ?a = (r, inode')" ?free
    using assms(2) unfolding notify_change_def Let_def by (auto split: if_split_asm)
  then show ?thesis
  proof cases
    case refused
    then show ?thesis using follows_same [OF assms(1)] by simp
  next
    case idle
    then have "follows_change inode ?a r inode'" using assms(1) by (simp add: follows_change_def)
    then show ?thesis using asked idle(4) by blast
  next
    case link
    then show ?thesis using asked simple_setattr_ok [OF assms(1) link(1) t link(2)] by blast
  next
    case other
    then show ?thesis using asked shmem_notify_ok [OF assms(1) t other(1)] by blast
  qed
qed

lemma chmod_defined:
  "\<exists>r inode'. sys_fchmodat sb limit current mem inode mode = Some (r, inode')"
  by (simp add: sys_fchmodat_def notify_change_def no_change_def Let_def)

lemma chmod_ok:
  assumes "acl_follows inode" and "sys_fchmodat sb limit current mem inode mode = Some (r, inode')"
  shows "acl_follows inode'" and "r \<noteq> Inl ENOMEM \<Longrightarrow> acl_ok inode \<or> r = Inr () \<Longrightarrow> acl_ok inode'"
proof -
  let ?m = "((if mode = NOT 0 then ino_mode inode else mode) AND S_IALLUGO) OR (ino_mode inode AND NOT S_IALLUGO)"
  have n: "notify_change sb limit current mem inode (no_change\<lparr>ia_mode := Some ?m, ia_ctime := True\<rparr>) = Some (r, inode')"
    using assms(2) by (simp add: sys_fchmodat_def)
  have "follows_change inode (no_change\<lparr>ia_mode := Some ?m, ia_ctime := True\<rparr>) r inode'"
    by (rule notify_change_ok [OF assms(1) n]) (auto simp: type_changes)
  then show "acl_follows inode'" and "r \<noteq> Inl ENOMEM \<Longrightarrow> acl_ok inode \<or> r = Inr () \<Longrightarrow> acl_ok inode'"
    by (auto simp: follows_change_def)
qed

lemma chown_ok:
  assumes "acl_follows inode" and "chown_common sb limit current mem inode user grp = Some (r, inode')"
  shows "acl_follows inode'" and "r \<noteq> Inl ENOMEM \<Longrightarrow> acl_ok inode \<Longrightarrow> acl_ok inode'"
proof -
  obtain attr where n: "notify_change sb limit current mem inode attr = Some (r, inode')" and "ia_mode attr = None"
    using assms(2) unfolding chown_common_def Let_def by (rule that) (simp add: no_change_def)
  then have "follows_change inode attr r inode'" by (intro notify_change_ok [OF assms(1) n]) simp
  then show "acl_follows inode'" and "r \<noteq> Inl ENOMEM \<Longrightarrow> acl_ok inode \<Longrightarrow> acl_ok inode'"
    by (auto simp: follows_change_def)
qed

lemma acl_init_ok:
  assumes "acl_follows dir" and "i_acl inode = None" and "i_default_acl inode = None" and "umask AND NOT S_IRWXUGO = 0"
    and "generic_acl_init umask mem1 mem2 inode dir = (Inr x, inode')"
  shows "acl_ok inode'"
proof -
  let ?mode = "ino_mode inode" and ?m = "ino_mode inode AND NOT umask"
  have low: "bit umask n \<Longrightarrow> n < 9" for n using assms(4) bit_imp_le_length [of umask n] by (auto simp: bit_eq_iff bit_simps mode_bits)
  have "?m AND S_IFMT = ?mode AND S_IFMT" by (rule bit_word_eqI) (auto simp: bit_simps type_bits dest!: low)
  note type = same_type [OF this]
  show ?thesis
  proof (cases "S_ISLNK ?m \<or> i_default_acl dir = None")
    case True
    then have "inode' = inode\<lparr>ino_mode := ?m\<rparr>"
      using assms(5) by (cases "S_ISLNK ?m") (simp_all add: generic_acl_init_def get_cached_acl_def)
    then show ?thesis using assms(2,3) by (simp add: acl_ok_def)
  next
    case False
    then obtain acl where acl: "i_default_acl dir = Some acl" "posix_acl_valid acl = Inr ()" using assms(1) by (auto simp: acl_follows_def)
    obtain ne acl' mode' where c: "posix_acl_create_masq acl ?mode = (Inr ne, acl', mode')" "posix_acl_valid acl' = Inr ()"
      "posix_acl_equiv_mode acl' mode' = Inr (ne, mode')" "mode' AND NOT S_IRWXUGO = ?mode AND NOT S_IRWXUGO"
      using create_masq_agrees [OF acl(2), of ?mode] by blast
    have "inode' = inode\<lparr>ino_mode := mode', i_acl := if ne then Some acl' else None, i_default_acl := if S_ISDIR ?m then Some acl else None\<rparr>"
      using assms(2,3,5) False acl(1) c(1) by (auto simp: generic_acl_init_def get_cached_acl_def set_cached_acl_def Let_def split: if_split_asm)
    then show ?thesis using acl(2) c type same_type [OF type_from_rest [OF c(4)]] False by (simp add: acl_ok_def)
  qed
qed

lemma mknod_ok:
  assumes "acl_follows dir" and "umask AND NOT S_IRWXUGO = 0" and "shmem_mknod current umask mem1 mem2 fresh dir mode = Inr (inode, dir')"
  shows "acl_ok inode" and "acl_follows dir'" and "acl_ok dir' = acl_ok dir"
proof -
  obtain i x where i: "shmem_get_inode current fresh dir mode = Some i" "generic_acl_init umask mem1 mem2 i dir = (Inr x, inode)"
    "dir' = dir\<lparr>ino_size := ino_size dir + BOGO_DIRENT_SIZE\<rparr>"
    using assms(3) by (auto simp: shmem_mknod_def split: option.splits prod.splits sum.splits)
  have "i_acl i = None" "i_default_acl i = None"
    using i(1) by (auto simp: shmem_get_inode_def cache_no_acl_def Let_def split: option.splits)
  then show "acl_ok inode" using acl_init_ok [OF assms(1) _ _ assms(2) i(2)] by simp
  show "acl_follows dir'" "acl_ok dir' = acl_ok dir" using assms(1) i(3) by simp_all
qed

definition acl_inv :: "(nat \<Rightarrow> inode option) \<Rightarrow> nat set \<Rightarrow> bool" where
  "acl_inv fs S \<longleftrightarrow> (\<forall>k inode. fs k = Some inode \<longrightarrow> acl_follows inode \<and> (k \<notin> S \<longrightarrow> acl_ok inode))"

lemma acl_inv_update:
  assumes "acl_inv fs S" and "acl_follows inode'" and "k \<notin> S' \<Longrightarrow> acl_ok inode'" and "S \<subseteq> insert k S'"
  shows "acl_inv (fs(k \<mapsto> inode')) S'"
  using assms unfolding acl_inv_def by auto

lemma acl_reach_inv: "acl_reach fs S \<Longrightarrow> acl_inv fs S"
proof (induction rule: acl_reach.induct)
  case (acl_root root)
  have "acl_ok (cache_no_acl root)" by (simp add: acl_ok_def cache_no_acl_def)
  then show ?case by (auto simp: acl_inv_def intro: acl_ok_follows)
next
  case (acl_create fs S d dir k umask current mem1 mem2 fresh mode inode dir')
  have d: "acl_follows dir" "d \<notin> S \<Longrightarrow> acl_ok dir" using acl_create.IH acl_create.hyps(2) by (auto simp: acl_inv_def)
  note m = mknod_ok [OF d(1) acl_create.hyps(4,5)]
  have "acl_inv (fs(d \<mapsto> dir')) S" by (rule acl_inv_update [OF acl_create.IH m(2)]) (use m(3) d(2) in auto)
  then show ?case by (rule acl_inv_update) (use m(1) acl_ok_follows in auto)
next
  case (acl_remove fs S k)
  then show ?case by (auto simp: acl_inv_def)
next
  case (acl_set fs S k inode current mem name val type r inode')
  then have i: "acl_follows inode" "k \<notin> S \<Longrightarrow> acl_ok inode" by (auto simp: acl_inv_def)
  note s = acl_set_ok [OF i(1) acl_set.hyps(3)]
  show ?case by (rule acl_inv_update [OF acl_set.IH s(1)]) (use s(2) i(2) in \<open>auto split: if_split_asm\<close>)
next
  case (acl_chmod fs S k inode sb limit current mem mode r inode')
  then have i: "acl_follows inode" "k \<notin> S \<Longrightarrow> acl_ok inode" by (auto simp: acl_inv_def)
  note c = chmod_ok [OF i(1) acl_chmod.hyps(3)]
  show ?case by (rule acl_inv_update [OF acl_chmod.IH c(1)]) (use c(2) i(2) in \<open>auto split: if_split_asm\<close>)
next
  case (acl_chown fs S k inode sb limit current mem user grp r inode')
  then have i: "acl_follows inode" "k \<notin> S \<Longrightarrow> acl_ok inode" by (auto simp: acl_inv_def)
  note c = chown_ok [OF i(1) acl_chown.hyps(3)]
  show ?case by (rule acl_inv_update [OF acl_chown.IH c(1)]) (use c(2) i(2) in \<open>auto split: if_split_asm\<close>)
qed

lemma acl_reach_ok: "acl_reach fs S \<Longrightarrow> fs k = Some inode \<Longrightarrow> k \<notin> S \<Longrightarrow> acl_ok inode"
  using acl_reach_inv unfolding acl_inv_def by blast

section \<open>The decision\<close>

lemma want_bits: "bit (MAY_READ OR MAY_WRITE OR MAY_EXEC) n \<longleftrightarrow> n < 3"
proof -
  have m: "MAY_READ OR MAY_WRITE OR MAY_EXEC = mask 3" by (simp add: MAY_READ_def MAY_WRITE_def MAY_EXEC_def mask_eq_exp_minus_1)
  show ?thesis unfolding m bit_mask_iff by auto
qed

lemma owner_bits:
  assumes "acl_shape acl u us g gs ms ot" and "posix_acl_equiv_mode acl mode = Inr (ne, mode)"
  shows "n < 3 \<Longrightarrow> bit (drop_bit 6 mode) n = bit (e_perm u) n"
proof -
  have "perm_ok u" "perm_ok (class_entry ms g)" "perm_ok ot" using assms(1) by (auto simp: acl_shape_def class_entry_def)
  then have b: "\<forall>n. bit (e_perm u) n \<or> bit (e_perm (class_entry ms g)) n \<or> bit (e_perm ot) n \<longrightarrow> n < 3" by (auto simp: perm_ok_bit)
  have m: "(mode AND NOT S_IRWXUGO) OR mode_of (e_perm u) (e_perm (class_entry ms g)) (e_perm ot) = mode"
    using assms(2) by (simp add: equiv_mode_shape [OF assms(1)])
  have "bit ((mode AND NOT S_IRWXUGO) OR mode_of (e_perm u) (e_perm (class_entry ms g)) (e_perm ot)) (6 + n) = bit (e_perm u) n" if "n < 3"
    using that by (simp add: bit_or_iff bit_and_iff bit_not_iff mode_bits mode_of_bit [OF b])
  then show "n < 3 \<Longrightarrow> bit (drop_bit 6 mode) n = bit (e_perm u) n" unfolding m by (simp add: bit_drop_bit_eq)
qed

lemma grants_bits: "grants (ucast p) want \<longleftrightarrow> (\<forall>n. bit want n \<longrightarrow> bit (p :: u16) n)"
  using bit_imp_le_length [of p] bit_imp_le_length [of want] by (auto simp: grants_def bit_eq_iff bit_simps)

lemma permission_refines:
  assumes "acl_ok inode" and "i_acl inode = Some acl" and "sb_posixacl sb" and "cr_fsuid current = ino_uid inode \<or> ino_mode inode AND S_IRWXG \<noteq> 0"
  shows "acl_permission_check sb current inode want False =
     decide (acl_grants (ino_uid inode) (ino_gid inode) current acl (want AND (MAY_READ OR MAY_WRITE OR MAY_EXEC)))"
proof -
  let ?w = "want AND (MAY_READ OR MAY_WRITE OR MAY_EXEC)"
  have v: "posix_acl_valid acl = Inr ()" "posix_acl_equiv_mode acl (ino_mode inode) = Inr (True, ino_mode inode)"
    using assms(1,2) by (simp_all add: acl_ok_def)
  obtain u us g gs ms ot where sh: "acl_shape acl u us g gs ms ot" using valid_shape [OF v(1)] .
  show ?thesis
  proof (cases "cr_fsuid current = ino_uid inode")
    case True
    have "?w AND NOT (ucast (drop_bit 6 (ino_mode inode))) = 0 \<longleftrightarrow> grants (ucast (e_perm u)) ?w"
      unfolding grants_bits using owner_bits [OF sh v(2)] bit_imp_le_length [of want]
      by (auto simp: bit_eq_iff bit_and_iff bit_not_iff want_bits unsigned_ucast_eq bit_ucast_iff)
    moreover have "acl_grants (ino_uid inode) (ino_gid inode) current acl ?w = grants (ucast (e_perm u)) ?w"
      unfolding acl_grants_def using True shape_owner_other(1) [OF sh] by simp
    ultimately show ?thesis using True unfolding acl_permission_check_def Let_def by simp
  next
    case False
    then have "ino_mode inode AND S_IRWXG \<noteq> 0" using assms(4) by blast
    moreover have "generic_check_acl current inode ?w False = decide (acl_grants (ino_uid inode) (ino_gid inode) current acl ?w)"
      using permission_correct [OF v(1)] assms(2) by (simp add: generic_check_acl_def get_cached_acl_def)
    ultimately show ?thesis using False assms(3) unfolding acl_permission_check_def Let_def by simp
  qed
qed

section \<open>Lists as attributes\<close>

lemma load_store_le16: "load_le16 (ucast w) (ucast (drop_bit 8 w)) = w"
  by (rule bit_word_eqI) (auto simp: load_le16_def bit_simps)

definition stored_form :: "posix_acl \<Rightarrow> bool" where
  "stored_form acl \<longleftrightarrow> (\<forall>e \<in> set acl. e_tag e \<noteq> ACL_USER \<longrightarrow> e_tag e \<noteq> ACL_GROUP \<longrightarrow> e_id e = ACL_UNDEFINED_ID)"

lemma from_xattr_entry:
  assumes "e_tag e \<in> {ACL_USER_OBJ, ACL_USER, ACL_GROUP_OBJ, ACL_GROUP, ACL_MASK, ACL_OTHER}"
    and "e_tag e \<noteq> ACL_USER \<longrightarrow> e_tag e \<noteq> ACL_GROUP \<longrightarrow> e_id e = ACL_UNDEFINED_ID"
  shows "from_xattr_loop (Suc n) (xattr_entry e @ v) = (case from_xattr_loop n v of Inl x \<Rightarrow> Inl x | Inr acl \<Rightarrow> Inr (e # acl))"
proof -
  let ?w = "xattr_entry e @ v"
  have w: "load_le16 (?w ! 0) (?w ! 1) = e_tag e" "load_le16 (?w ! 2) (?w ! 3) = e_perm e"
    "load_le32 (?w ! 4) (?w ! 5) (?w ! 6) (?w ! 7) = e_id e" "drop 8 ?w = v"
    by (simp_all add: xattr_entry_def store_le16_def store_le32_def load_store_le16 nth_append)
  have entry: "\<lparr>e_tag = e_tag e, e_perm = e_perm e, e_id = e_id e\<rparr> = e" by simp
  show ?thesis
    unfolding from_xattr_loop.simps w Let_def
    using assms entry by (cases "e_tag e = ACL_USER \<or> e_tag e = ACL_GROUP") (auto split: sum.splits simp: acl_tags)
qed

lemma from_xattr_entries:
  assumes "\<forall>e \<in> set acl. e_tag e \<in> {ACL_USER_OBJ, ACL_USER, ACL_GROUP_OBJ, ACL_GROUP, ACL_MASK, ACL_OTHER}" and "stored_form acl"
  shows "from_xattr_loop (length acl) (concat (map xattr_entry acl)) = Inr acl"
  using assms
proof (induction acl)
  case (Cons e acl)
  then show ?case using from_xattr_entry [of e] by (simp add: stored_form_def del: from_xattr_loop.simps(2))
qed simp

lemma shape_tags:
  "acl_shape acl u us g gs ms ot \<Longrightarrow> \<forall>e \<in> set acl. e_tag e \<in> {ACL_USER_OBJ, ACL_USER, ACL_GROUP_OBJ, ACL_GROUP, ACL_MASK, ACL_OTHER}"
  by (auto simp: acl_shape_def)

lemma length_xattr [simp]: "length (concat (map xattr_entry acl)) = length acl * 8"
  by (induction acl) (simp_all add: xattr_entry_def store_le16_def)

lemma xattr_roundtrip:
  assumes "posix_acl_valid acl = Inr ()" and "stored_form acl" and "posix_acl_to_xattr acl (Some n) = Inr (m, w)"
  shows "posix_acl_from_xattr True (Some w) = Inr (Some acl)"
proof -
  obtain u us g gs ms ot where sh: "acl_shape acl u us g gs ms ot" using valid_shape [OF assms(1)] .
  have w: "w = store_le32 POSIX_ACL_XATTR_VERSION @ concat (map xattr_entry acl)"
    using assms(3) by (simp add: posix_acl_to_xattr_def Let_def split: if_split_asm)
  have "le32_at w 0 = POSIX_ACL_XATTR_VERSION" by (simp add: w le32_at_def store_le32_def)
  moreover have "posix_acl_xattr_count (length w) = Some (length acl)" by (simp add: w posix_acl_xattr_count_def)
  moreover have "length acl \<noteq> 0" using sh by (auto simp: acl_shape_def)
  moreover have "drop 4 w = concat (map xattr_entry acl)" by (simp add: w)
  ultimately show ?thesis using from_xattr_entries [OF shape_tags [OF sh] assms(2)] by (simp add: posix_acl_from_xattr_def w)
qed

section \<open>Properties\<close>

text \<open>C14.  Lists and modes agree.  In an in-memory file system, whatever lists are set, files created and modes and
  owners changed, and whatever allocations fail, every access list is valid, every default list is valid and belongs to
  a directory, and an access list stands for exactly the mode bits its file shows unless the last change of that file's
  mode failed with \<^verbatim>\<open>ENOMEM\<close> because the list could not be copied.\<close>

theorem acl_mode_agree:
  assumes "acl_reach fs S" and "fs k = Some inode"
  shows "(case i_acl inode of None \<Rightarrow> True | Some acl \<Rightarrow>
            posix_acl_valid acl = Inr () \<and> (k \<notin> S \<longrightarrow> posix_acl_equiv_mode acl (ino_mode inode) = Inr (True, ino_mode inode))) \<and>
         (case i_default_acl inode of None \<Rightarrow> True | Some acl \<Rightarrow> posix_acl_valid acl = Inr () \<and> S_ISDIR (ino_mode inode))"
proof -
  have "acl_follows inode" "k \<notin> S \<Longrightarrow> acl_ok inode" using acl_reach_inv [OF assms(1)] assms(2) unfolding acl_inv_def by blast+
  then show ?thesis by (auto simp: acl_ok_def acl_follows_def split: option.splits)
qed

text \<open>C13.  The permission check implements POSIX access control lists.  For a file with an access list, an unprivileged
  task is granted a request exactly when the list grants it by the rules of POSIX 1003.1e, provided the task is the
  owner or the group class of the file has some permission, and the last change of the file's mode did not fail for lack of
  memory.\<close>

theorem acl_permission_refines:
  assumes "acl_reach fs S" and "fs k = Some inode" and "k \<notin> S" and "i_acl inode = Some acl" and "sb_posixacl sb"
    and "cr_fsuid current = ino_uid inode \<or> ino_mode inode AND S_IRWXG \<noteq> 0"
    and "\<not> capable current CAP_DAC_OVERRIDE" and "\<not> capable current CAP_DAC_READ_SEARCH"
  shows "generic_permission sb current inode want False =
     (if acl_grants (ino_uid inode) (ino_gid inode) current acl (want AND (MAY_READ OR MAY_WRITE OR MAY_EXEC)) then Inr () else Inl EACCES)"
  using permission_refines [OF acl_reach_ok [OF assms(1-3)] assms(4-6), of want] assms(7,8)
  by (simp add: generic_permission_def Let_def)

text \<open>A directory, a user whom its list names, and the file system after the list is set.\<close>

definition open_dir :: inode where
  "open_dir = \<lparr>ino_mode = 0x4184, ino_uid = 0, ino_gid = 0, ino_size = 40, i_acl = None, i_default_acl = None,
     is_append = False, is_immutable = False, is_swapfile = False\<rparr>"

definition acl_entry :: "u16 \<Rightarrow> u16 \<Rightarrow> u32 \<Rightarrow> posix_acl_entry" where
  "acl_entry t p i = \<lparr>e_tag = t, e_perm = p, e_id = i\<rparr>"

text \<open>The owner may read and write, user 1000 what is given, nobody of the group anything, and others may read.\<close>

definition naming_acl :: "u16 \<Rightarrow> posix_acl" where
  "naming_acl p = [acl_entry ACL_USER_OBJ 6 ACL_UNDEFINED_ID, acl_entry ACL_USER p 1000, acl_entry ACL_GROUP_OBJ 0 ACL_UNDEFINED_ID,
     acl_entry ACL_MASK p ACL_UNDEFINED_ID, acl_entry ACL_OTHER 4 ACL_UNDEFINED_ID]"

definition naming_dir :: "u16 \<Rightarrow> inode" where
  "naming_dir p = open_dir\<lparr>ino_mode := 0x4184 OR push_bit 3 p, i_acl := Some (naming_acl p)\<rparr>"

definition acl_sb :: super_block where
  "acl_sb = \<lparr>sb_rdonly = False, sb_posixacl = True, s_maxbytes = 2 ^ 31\<rparr>"

lemma naming_reach:
  assumes "posix_acl_valid (naming_acl p) = Inr ()" and "posix_acl_equiv_mode (naming_acl p) 0x4184 = Inr (True, 0x4184 OR push_bit 3 p)"
  shows "acl_reach ((\<lambda>k. None)(0 \<mapsto> naming_dir p)) {}"
proof -
  let ?fs = "(\<lambda>k. None)(0 \<mapsto> cache_no_acl open_dir)"
  have r: "acl_reach ?fs {}" by (rule acl_root) (simp add: open_dir_def S_ISDIR_def S_IFMT_def S_IFDIR_def)
  have "stored_form (naming_acl p)" by (simp add: stored_form_def naming_acl_def acl_entry_def acl_tags)
  then have x: "posix_acl_from_xattr True (Some (store_le32 POSIX_ACL_XATTR_VERSION @ concat (map xattr_entry (naming_acl p)))) = Inr (Some (naming_acl p))"
    using xattr_roundtrip [OF assms(1), of 100 44] by (simp add: posix_acl_to_xattr_def posix_acl_xattr_size_def naming_acl_def)
  have c: "cache_no_acl open_dir = open_dir" by (simp add: cache_no_acl_def open_dir_def)
  have o: "\<not> S_ISLNK (ino_mode open_dir)" "is_owner_or_cap (task_cred root_task) open_dir"
    by (simp_all add: open_dir_def S_ISLNK_def S_IFMT_def S_IFLNK_def is_owner_or_cap_def root_task_def user_cred_def)
  have "generic_acl_set (task_cred root_task) True open_dir [] (Some (store_le32 POSIX_ACL_XATTR_VERSION @ concat (map xattr_entry (naming_acl p))))
      ACL_TYPE_ACCESS = (Inr (), naming_dir p)"
    using o assms by (simp add: generic_acl_set_def x open_dir_def naming_dir_def set_cached_acl_def)
  from acl_set [OF r _ this, of 0] c show ?thesis by simp
qed

lemma naming_7: "posix_acl_valid (naming_acl 7) = Inr ()" "posix_acl_equiv_mode (naming_acl 7) 0x4184 = Inr (True, 0x4184 OR push_bit 3 7)"
  by code_simp+

lemma naming_0: "posix_acl_valid (naming_acl 0) = Inr ()" "posix_acl_equiv_mode (naming_acl 0) 0x4184 = Inr (True, 0x4184 OR push_bit 3 0)"
  by code_simp+

theorem acl_mode_agree_witness:
  "posix_acl_valid (naming_acl 7) = Inr () \<and> posix_acl_equiv_mode (naming_acl 7) (ino_mode (naming_dir 7)) = Inr (True, ino_mode (naming_dir 7))"
  using acl_mode_agree [OF naming_reach [OF naming_7], of 0 "naming_dir 7"] by (simp add: naming_dir_def)

lemma user_unprivileged: "\<not> capable (user_cred u) CAP_DAC_OVERRIDE" "\<not> capable (user_cred u) CAP_DAC_READ_SEARCH"
  by (simp_all add: capable_effective CAP_DAC_OVERRIDE_def CAP_DAC_READ_SEARCH_def CAP_NET_RAW_def CAP_NET_ADMIN_def user_cred_def
      cap_raised_def cap_word_def)

theorem acl_permission_refines_witness: "generic_permission acl_sb (user_cred 1000) (naming_dir 7) MAY_WRITE False = Inr ()"
proof -
  have s: "sb_posixacl acl_sb" by (simp add: acl_sb_def)
  have a: "i_acl (naming_dir 7) = Some (naming_acl 7)" by (simp add: naming_dir_def)
  have m: "ino_mode (naming_dir 7) AND S_IRWXG \<noteq> 0" by (simp add: naming_dir_def S_IRWXG_def push_bit_eq_mult)
  have "acl_grants (ino_uid (naming_dir 7)) (ino_gid (naming_dir 7)) (user_cred 1000) (naming_acl 7) (MAY_WRITE AND (MAY_READ OR MAY_WRITE OR MAY_EXEC))"
    by code_simp
  then show ?thesis
    using acl_permission_refines [OF naming_reach [OF naming_7] _ _ a s _ user_unprivileged, of 0 1000 MAY_WRITE] m by simp
qed

text \<open>C36.  A list with an empty group class is not consulted.  There is a file whose list denies a user by name every
  access, which the list's own check confirms, and which the user may read nevertheless with the permission of others: the
  permission check skips the list when the group class of the mode is empty.\<close>

theorem acl_empty_class_skipped:
  "\<exists>fs inode acl current. acl_reach fs {} \<and> fs 0 = Some inode \<and> i_acl inode = Some acl \<and>
     \<not> capable current CAP_DAC_OVERRIDE \<and> \<not> capable current CAP_DAC_READ_SEARCH \<and>
     posix_acl_permission (ino_uid inode) (ino_gid inode) current acl MAY_READ = Inl EACCES \<and>
     generic_permission acl_sb current inode MAY_READ False = Inr ()"
proof (intro exI conjI)
  show "acl_reach ((\<lambda>k. None)(0 \<mapsto> naming_dir 0)) {}" by (rule naming_reach [OF naming_0])
  show "((\<lambda>k. None)(0 \<mapsto> naming_dir 0)) 0 = Some (naming_dir 0)" by simp
  show "i_acl (naming_dir 0) = Some (naming_acl 0)" by (simp add: naming_dir_def)
  show "\<not> capable (user_cred 1000) CAP_DAC_OVERRIDE" "\<not> capable (user_cred 1000) CAP_DAC_READ_SEARCH" by (rule user_unprivileged)+
  show "posix_acl_permission (ino_uid (naming_dir 0)) (ino_gid (naming_dir 0)) (user_cred 1000) (naming_acl 0) MAY_READ = Inl EACCES" by code_simp
  show "generic_permission acl_sb (user_cred 1000) (naming_dir 0) MAY_READ False = Inr ()" by code_simp
qed

text \<open>C22.  Access control lists survive as attributes.  A valid list whose entries without a name carry the undefined
  identifier, written in the form of an extended attribute and set by the owner of a file that is not a link (a directory, for
  a default list) with memory to spare, is accepted.  Reading the attribute gives back the same bytes, unless it is an access
  list without a mask: that becomes the mode of the file, and the attribute reads as absent.\<close>

theorem acl_xattr_roundtrip:
  assumes "posix_acl_valid acl = Inr ()" and "stored_form acl" and "posix_acl_to_xattr acl (Some n) = Inr (m, w)"
    and "is_owner_or_cap current inode" and "\<not> S_ISLNK (ino_mode inode)" and "type = ACL_TYPE_DEFAULT \<Longrightarrow> S_ISDIR (ino_mode inode)"
  shows "\<exists>inode'. generic_acl_set current True inode [] (Some w) type = (Inr (), inode') \<and>
     (if type = ACL_TYPE_DEFAULT \<or> (\<exists>e \<in> set acl. e_tag e = ACL_MASK) then generic_acl_get inode' [] (Some n) type = Inr (m, w)
      else generic_acl_get inode' [] (Some n) type = Inl ENODATA \<and>
        posix_acl_equiv_mode acl (ino_mode inode) = Inr (False, ino_mode inode'))"
proof -
  obtain u us g gs ms ot where sh: "acl_shape acl u us g gs ms ot" using valid_shape [OF assms(1)] .
  have x: "posix_acl_from_xattr True (Some w) = Inr (Some acl)" by (rule xattr_roundtrip [OF assms(1-3)])
  have "ms \<noteq> [] \<longleftrightarrow> (\<exists>e \<in> set acl. e_tag e = ACL_MASK)" using sh by (cases ms) (auto simp: acl_shape_def acl_tags)
  then obtain mode where e: "posix_acl_equiv_mode acl (ino_mode inode) = Inr (\<exists>e \<in> set acl. e_tag e = ACL_MASK, mode)"
    by (simp add: equiv_mode_shape [OF sh])
  note defs = generic_acl_set_def generic_acl_get_def set_cached_acl_def get_cached_acl_def x assms(1,3-5)
  show ?thesis
  proof (cases type)
    case ACL_TYPE_DEFAULT
    then show ?thesis using assms(6) by (simp add: defs)
  next
    case ACL_TYPE_ACCESS
    then show ?thesis by (cases "\<exists>e \<in> set acl. e_tag e = ACL_MASK") (simp_all add: defs e)
  qed
qed

theorem acl_xattr_roundtrip_witness:
  "\<exists>inode'. generic_acl_set (task_cred root_task) True open_dir [] (Some (snd (projr (posix_acl_to_xattr (naming_acl 7) (Some 100))))) ACL_TYPE_DEFAULT = (Inr (), inode') \<and>
     generic_acl_get inode' [] (Some 100) ACL_TYPE_DEFAULT = Inr (44, snd (projr (posix_acl_to_xattr (naming_acl 7) (Some 100))))"
proof -
  have s: "stored_form (naming_acl 7)" by (simp add: stored_form_def naming_acl_def acl_entry_def acl_tags)
  have t: "posix_acl_to_xattr (naming_acl 7) (Some 100) = Inr (44, snd (projr (posix_acl_to_xattr (naming_acl 7) (Some 100))))"
    by (simp add: posix_acl_to_xattr_def posix_acl_xattr_size_def naming_acl_def)
  have o: "is_owner_or_cap (task_cred root_task) open_dir" "\<not> S_ISLNK (ino_mode open_dir)" "S_ISDIR (ino_mode open_dir)"
    by (simp_all add: open_dir_def S_ISLNK_def S_ISDIR_def S_IFMT_def S_IFLNK_def S_IFDIR_def is_owner_or_cap_def root_task_def user_cred_def)
  show ?thesis using acl_xattr_roundtrip [OF naming_7(1) s t o(1,2), of ACL_TYPE_DEFAULT] o(3) by simp
qed

text \<open>The exception in the agreement of lists and modes occurs: without memory for the copy of the list, a change of mode
  takes effect on the mode alone.\<close>

lemma chmod_without_memory:
  "acl_reach ((\<lambda>k. None)(0 \<mapsto> (naming_dir 7)\<lparr>ino_mode := 0x4180\<rparr>)) {0}" "\<not> acl_ok ((naming_dir 7)\<lparr>ino_mode := 0x4180\<rparr>)"
proof -
  have "sys_fchmodat acl_sb RLIM_INFINITY (task_cred root_task) False (naming_dir 7) 0x180 = Some (Inl ENOMEM, (naming_dir 7)\<lparr>ino_mode := 0x4180\<rparr>)"
    by code_simp
  from acl_chmod [OF naming_reach [OF naming_7] _ this, of 0] show "acl_reach ((\<lambda>k. None)(0 \<mapsto> (naming_dir 7)\<lparr>ino_mode := 0x4180\<rparr>)) {0}"
    by simp
  have "posix_acl_equiv_mode (naming_acl 7) 0x4180 \<noteq> Inr (True, 0x4180)" by code_simp
  then show "\<not> acl_ok ((naming_dir 7)\<lparr>ino_mode := 0x4180\<rparr>)" by (simp add: acl_ok_def naming_dir_def)
qed

end
