(* ===== verification/Spec2Isabelle.thy ===== *)
theory Spec2Isabelle
  imports Packet_Filter_Safety Filter_Attach Kfifo Crc32 Crypto_Algs Rwsem Semaphore File_Access
begin

text \<open>
  A verification library for core components of the Linux 2.6.38.6 kernel of the ZTE Blade, a 32-bit little-endian
  ARM machine.  It follows three paths through the kernel where a mistake is a security hole or lost data, from
  their data structures up to statements about whole histories of calls, and the library code below them:

  \<^item> packets: a user attaches a packet filter to a socket, the kernel checks it, shares it between sockets, runs it
    on every packet received and frees it once no receiver can run it;
  \<^item> authority: tasks change their users, groups and capabilities, run programs, and are checked against modes and
    access control lists when they use files;
  \<^item> locks: tasks wait in the queues of semaphores and read-write semaphores;
  \<^item> data: the kernel FIFO, the cyclic redundancy checks, and block ciphers with their modes of operation.

  \<^bold>\<open>Conventions.\<close>  Names are those of the source, with a prefix where the logic already uses the name.  Integers are
  words of the width the code gives them (\<^typ>\<open>u8\<close>, \<^typ>\<open>u16\<close>, \<^typ>\<open>u32\<close>, \<^typ>\<open>u64\<close>), so that arithmetic wraps around as on
  the machine.  A function that returns a negative error number is a function into \<^typ>\<open>'a kres\<close>.  \<^const>\<open>None\<close> as the
  result of an operation is a memory fault, undefined behaviour or a \<^verbatim>\<open>BUG\<close>; theorems that exclude it are the safety
  statements.  Structures are records, state is passed explicitly, and what the environment decides (whether
  memory is available, the layout of buffers, the text of a program file, clock values, pending signals) is an argument.

  \<^bold>\<open>Packets.\<close>
  \<^item> \<^verbatim>\<open>Skbuff\<close> has \<^verbatim>\<open>struct sk_buff\<close> with linear area, page fragments and chained buffers, and the access functions of
    \<^verbatim>\<open>net/core/skbuff.c\<close>.  Its lemmas show that \<^const>\<open>skb_copy_bits\<close> and \<^const>\<open>skb_header_pointer\<close> return the bytes of the
    payload, wherever they are stored.
  \<^item> \<^verbatim>\<open>Bpf_Insn\<close> and \<^verbatim>\<open>Packet_Filter\<close> have the instruction set (\<^verbatim>\<open>include/linux/filter.h\<close>), the checker \<^const>\<open>sk_chk_filter\<close>
    and the interpreter \<^const>\<open>sk_run_filter\<close> of \<^verbatim>\<open>net/core/filter.c\<close>, with the attribute search of \<^verbatim>\<open>lib/nlattr.c\<close>;
    \<^verbatim>\<open>Reciprocal_Div\<close> the division they use (\<^verbatim>\<open>lib/reciprocal_div.c\<close>).
  \<^item> \<^verbatim>\<open>Packet_Filter_Safety\<close> shows that the checker is sound: the locale \<^verbatim>\<open>checked_filter\<close> states what the checker
    guarantees of instructions and scratch memory, the runs of the interpreter are analysed in it, and its interpretation on the
    checked program gives the theorem.  The netlink extensions are excluded, and shown to read outside packets.
  \<^item> \<^verbatim>\<open>Filter_Attach\<close> has the operations on sockets (\<^verbatim>\<open>net/core/filter.c\<close>, \<^verbatim>\<open>net/core/sock.c\<close>, \<^verbatim>\<open>include/net/sock.h\<close>) as steps
    on a heap; \<^const>\<open>freach\<close> is reachability by any interleaving with receivers and deferred frees.  Memory safety, exact
    reference counts and exact accounting of option memory follow from one invariant.  The property here about received
    packets joins it with the soundness of the checker.

  \<^bold>\<open>Authority.\<close>
  \<^item> \<^verbatim>\<open>Group_Lists\<close> has the supplementary groups of \<^verbatim>\<open>kernel/groups.c\<close>: blocks, copies from and to the user, the shell sort
    and the binary search, which are shown to be a sort and a search.
  \<^item> \<^verbatim>\<open>Capability\<close> has capability sets, \<^verbatim>\<open>struct cred\<close> and the rules of \<^verbatim>\<open>security/commoncap.c\<close> and \<^verbatim>\<open>kernel/capability.c\<close>;
    \<^verbatim>\<open>Credentials\<close> the calls of \<^verbatim>\<open>kernel/sys.c\<close> and \<^verbatim>\<open>kernel/groups.c\<close> and the credentials of a new program (\<^verbatim>\<open>fs/exec.c\<close>).
    \<^const>\<open>cred_reach\<close> and \<^const>\<open>cred_history\<close> are what a task can become without and with running programs.  Each call is
    decomposed once by the rules of the collection \<^verbatim>\<open>follow\<close>; the properties are invariants of histories: credentials stay well
    formed, a task without capabilities stays confined, dropping root is final, tracing gains nothing, locks on the secure
    bits hold.
  \<^item> \<^verbatim>\<open>Posix_Acl\<close> has the lists of \<^verbatim>\<open>fs/posix_acl.c\<close> and \<^verbatim>\<open>fs/xattr_acl.c\<close>; its lemmas give the shape of a valid list, the
    permission it grants in terms of that shape, and the round trip through an extended attribute.
  \<^item> \<^verbatim>\<open>File_Access\<close> has the permission check of \<^verbatim>\<open>fs/namei.c\<close>, \<^verbatim>\<open>chmod\<close>, \<^verbatim>\<open>chown\<close> and attribute changes (\<^verbatim>\<open>fs/attr.c\<close>,
    \<^verbatim>\<open>fs/open.c\<close>), the lists of \<^verbatim>\<open>fs/generic_acl.c\<close>, and the creation of files in \<^verbatim>\<open>mm/shmem.c\<close> and \<^verbatim>\<open>fs/inode.c\<close>.  The check is
    shown to refine the POSIX rules, and lists to agree with modes over every history \<^const>\<open>acl_reach\<close>, which records the files
    whose last change of mode failed for lack of memory.  The property here about
    dropped root joins credentials and files.

  \<^bold>\<open>Locks.\<close>
  \<^item> \<^verbatim>\<open>Fair_Waiting\<close> has locales for waiting over infinite runs: \<^verbatim>\<open>ranked_wait\<close>, where each step of progress lowers the rank of
    whoever waits, and its extension \<^verbatim>\<open>held_wait\<close>, where progress is holders letting go.
  \<^item> \<^verbatim>\<open>Rwsem\<close> (\<^verbatim>\<open>lib/rwsem-spinlock.c\<close>) and \<^verbatim>\<open>Semaphore\<close> (\<^verbatim>\<open>kernel/semaphore.c\<close>, \<^verbatim>\<open>schedule_timeout\<close> of \<^verbatim>\<open>kernel/timer.c\<close>) have
    all operations as steps of a system of tasks, and interpret these locales.  They show exclusion, exact accounting and that
    nobody waits for ever.

  \<^bold>\<open>Data.\<close>
  \<^item> \<^verbatim>\<open>Ring_Buffer\<close>, \<^verbatim>\<open>Bitops\<close> and \<^verbatim>\<open>Kfifo\<close> have the FIFO of \<^verbatim>\<open>kernel/kfifo.c\<close> with free-running indices, its user-space
    copies and its records.  The locale \<^verbatim>\<open>bounded_fifo\<close> is the contract of a byte queue and is interpreted on it.
  \<^item> \<^verbatim>\<open>Crc_Tables\<close>, \<^verbatim>\<open>Crc\<close> and \<^verbatim>\<open>Crc32\<close> have the routines of \<^verbatim>\<open>lib/crc*.c\<close> with their tables and the table generator.  The
    locales \<^verbatim>\<open>reflected_crc\<close>, \<^verbatim>\<open>forward_crc\<close> and \<^verbatim>\<open>crc32_tables\<close> reduce tables to division by the polynomial.
  \<^item> \<^verbatim>\<open>Byteorder\<close> and \<^verbatim>\<open>Crypto_Modes\<close> have the modes ECB, CBC, PCBC and CTR over the walk of \<^verbatim>\<open>crypto/blkcipher.c\<close>.  The locale
    \<^verbatim>\<open>block_cipher\<close> (decryption inverts encryption of a block) yields \<^verbatim>\<open>block_mode\<close> and \<^verbatim>\<open>inverse_modes\<close> for each mode; \<^verbatim>\<open>Tea\<close>,
    \<^verbatim>\<open>Serpent\<close> and \<^verbatim>\<open>Blowfish\<close> interpret it, and \<^verbatim>\<open>Crypto_Algs\<close> has the table of registered ciphers and the round trips.
    \<^const>\<open>memory_outcome\<close> is what a mode may return when allocations fail, shown for every mode.

  \<^bold>\<open>Bounds and fuel.\<close>  The loops of the modes around the walk are partial functions into an option: a walk whose
  first mapping fails with its byte count set, or never set, has no defined course.  They are shown to return except exactly in
  an interrupt or when an unaligned initial vector cannot be copied.  Two loops carry fuel.  The interpreter of filters gets
  as many turns as the filter has instructions, which is enough because jumps go forward (part of the soundness theorem).  The
  rounds of XTEA and XETA, which compare a wrapping sum with a limit, get 32 turns, proved exactly enough.  All other loops are total functions with termination
  proofs; where the C loop steps an index beyond an array, the step is the fault \<^const>\<open>None\<close>.

  \<^bold>\<open>Assumptions.\<close>  Code under a spinlock is one step.  \<^verbatim>\<open>call_rcu_bh\<close> runs its callback after the readers active when it was
  called have left, its documented contract.  Any allocation may fail; a list can disagree with its mode only after a
  \<^verbatim>\<open>chmod\<close> that could not copy it, and the round trips of the ciphers need the memory of the walk.  No security module other than
  the capability rules is configured.  Progress of the locks assumes that holders release.

  \<^bold>\<open>Not modelled.\<close>  Within the components: trimming of accepted packets and buffer allocation (page-level memory), the
  scatter-gather preparation of the FIFO (struct page), the registration of cipher templates, reference counts of credentials
  and lists, the capability hooks on attributes, time and memory, and path lookup.  Outside them: spinlocks, mutexes and the
  scheduler, whose correctness rests on atomic instructions and memory order that a functional model does not
  express; memory management, processor support and drivers, whose meaning lies in hardware; network protocols, on-disk
  file systems, the block layer, process creation, signals and System V IPC, which are independent of the paths above.
\<close>

section \<open>Packets through attached filters\<close>

text \<open>C2. Whatever happens to the sockets while a packet is being filtered, the filter the receive path took is still
  allocated when it runs, and its instructions are ones the checker accepted; on every well-formed packet with its headers
  inside it, on which the netlink extensions of the filter are harmless (no nested search, a plain search only with at least
  four bytes of packet), it returns a verdict.  Checking, attaching, reference
  counting and deferred freeing together make reception safe, with the netlink extensions as the only exception.\<close>

theorem receive_path_returns:
  assumes "freach om st" and "(r, a) \<in> set (readers st)"
  shows "\<exists>f p. kheap st a = Some f \<and> sk_chk_filter True p = Inr (insns f) \<and>
     (\<forall>env skb. skb_wf skb \<longrightarrow> headers_wf skb \<longrightarrow> nla_harmless skb (insns f) \<longrightarrow>
       (\<exists>v. sk_run_filter (length (insns f)) env skb (insns f) = Some (Inr v)))"
proof -
  obtain f p where f: "kheap st a = Some f" "sk_chk_filter True p = Inr (insns f)"
    using freach_finv [OF assms(1)] assms(2)
    unfolding finv_at_def protected_readers_def checked_insns_def by fast
  then have "length p \<le> length (insns f)" using sk_chk_filter_certified(3) [OF f(2)] by simp
  then show ?thesis using accepted_runs [OF f(2)] f by blast
qed

theorem receive_path_returns_witness:
  "\<exists>f v. kheap demo_state 0x100 = Some f \<and>
     sk_run_filter (length (insns f)) env0 (linear_skb [1, 2]) (insns f) = Some (Inr v)"
proof -
  have "(0, 0x100) \<in> set (readers demo_state)" by code_simp
  from receive_path_returns [OF demo_reachable this] obtain f where
    f: "kheap demo_state 0x100 = Some f" "\<And>env skb. skb_wf skb \<Longrightarrow> headers_wf skb \<Longrightarrow> nla_harmless skb (insns f) \<Longrightarrow>
       \<exists>v. sk_run_filter (length (insns f)) env skb (insns f) = Some (Inr v)" by blast
  have "skb_wf (linear_skb [1, 2])" by (simp add: linear_skb_def)
  moreover have "headers_wf (linear_skb [1, 2])" by code_simp
  moreover have "case kheap demo_state 0x100 of None \<Rightarrow> False | Some f \<Rightarrow> nla_harmless (linear_skb [1, 2]) (insns f)"
    by code_simp
  ultimately show ?thesis using f by simp
qed

section \<open>Files of a user left behind\<close>

lemma private_file_refused:
  assumes "cr_fsuid current \<noteq> ino_uid inode" and "ino_mode inode AND (S_IRWXG OR S_IRWXO) = 0"
    and "want AND (MAY_READ OR MAY_WRITE OR MAY_EXEC) \<noteq> 0" and "cap_effective current = cap_empty_set"
  shows "generic_permission sb current inode want rcu = Inl EACCES"
proof -
  let ?w = "want AND (MAY_READ OR MAY_WRITE OR MAY_EXEC)"
  have clear: "\<not> bit (ino_mode inode) n" if "n < 6" for n
  proof
    assume "bit (ino_mode inode) n"
    then have "bit (ino_mode inode AND (S_IRWXG OR S_IRWXO)) n" using that by (auto simp: bit_and_iff bit_or_iff mode_bits)
    then show False using assms(2) by simp
  qed
  have g: "ino_mode inode AND S_IRWXG = 0"
    by (rule bit_word_eqI) (use clear in \<open>auto simp: bit_and_iff mode_bits\<close>)
  have keep: "?w AND NOT (ucast p) = ?w" if "\<And>n. n < 3 \<Longrightarrow> \<not> bit p n" for p :: u16
    using that by (intro bit_word_eqI) (auto simp: bit_and_iff bit_not_iff bit_ucast_iff want_bits)
  have "?w AND NOT (ucast (ino_mode inode)) \<noteq> 0" "?w AND NOT (ucast (drop_bit 3 (ino_mode inode))) \<noteq> 0"
    using keep [of "ino_mode inode"] keep [of "drop_bit 3 (ino_mode inode)"] clear assms(3) by (simp_all add: bit_drop_bit_eq)
  then have c: "acl_permission_check sb current inode want rcu = Inl EACCES"
    using assms(1) g unfolding acl_permission_check_def Let_def by simp
  have "\<not> capable current CAP_DAC_OVERRIDE" "\<not> capable current CAP_DAC_READ_SEARCH"
    using assms(4) by (simp_all add: capable_effective CAP_DAC_OVERRIDE_def CAP_DAC_READ_SEARCH_def CAP_NET_RAW_def CAP_NET_ADMIN_def)
  then show ?thesis unfolding generic_permission_def c by simp
qed

text \<open>C15. Credentials and file permissions together: after a task with a root user id and the capability to change users,
  without the secure bits \<^verbatim>\<open>SECURE_KEEP_CAPS\<close> and \<^verbatim>\<open>SECURE_NO_SETUID_FIXUP\<close>, has succeeded in \<^verbatim>\<open>setuid\<close> to another
  user, no sequence of credential calls short of running a program lets it read, write, execute or search a file that belongs to root and is closed to group and others,
  whatever access control list the file has.\<close>

theorem dropped_root_locked_out:
  assumes "sys_setuid env u t = (Inr r, t')" and "u \<noteq> 0" and "cred_ok (task_cred t)" and "capable (task_cred t) CAP_SETUID"
    and "0 \<in> {cr_uid (task_cred t), cr_euid (task_cred t), cr_suid (task_cred t)}"
    and "\<not> issecure (task_cred t) SECURE_KEEP_CAPS" and "\<not> issecure (task_cred t) SECURE_NO_SETUID_FIXUP" and "cred_reach t' v"
    and "ino_uid inode = 0" and "ino_mode inode AND (S_IRWXG OR S_IRWXO) = 0" and "want AND (MAY_READ OR MAY_WRITE OR MAY_EXEC) \<noteq> 0"
  shows "generic_permission sb (task_cred v) inode want rcu = Inl EACCES"
proof -
  have "cr_fsuid (task_cred v) = u" "cap_effective (task_cred v) = cap_empty_set" using setuid_final [OF assms(1-8)] by simp_all
  then show ?thesis using private_file_refused [OF _ assms(10,11), of "task_cred v"] assms(2,9) by simp
qed

theorem dropped_root_locked_out_witness:
  "generic_permission acl_sb (task_cred (snd (sys_setuid plenty 1000 root_task))) (open_dir\<lparr>ino_mode := 0x4180\<rparr>) MAY_READ False = Inl EACCES"
proof -
  have i: "ino_uid (open_dir\<lparr>ino_mode := 0x4180\<rparr>) = 0" "ino_mode (open_dir\<lparr>ino_mode := 0x4180\<rparr>) AND (S_IRWXG OR S_IRWXO) = 0"
    by (simp_all add: open_dir_def S_IRWXG_def S_IRWXO_def)
  have w: "MAY_READ AND (MAY_READ OR MAY_WRITE OR MAY_EXEC) \<noteq> 0" by (simp add: MAY_READ_def MAY_WRITE_def MAY_EXEC_def)
  show ?thesis
    by (rule dropped_root_locked_out [OF example_setuid(1) _ example_tasks_ok(1) example_setuid(2-5) cred_here i w]) simp
qed

end
